theory Spec2Isabelle
  imports Main "HOL-Library.Word" "HOL-Library.Monad_Syntax"
begin

unbundle bit_operations_syntax

section \<open>Machine types and C library helpers\<close>

text \<open>
  The loader is Windows code (\<open>windows.h\<close>, \<open>Sleep\<close>, \<open>_vsnprintf_s\<close>), so
  \<open>unsigned long\<close> is 32 bits wide. C strings are character lists without the terminating
  NUL; reading the terminator is reading past the end of the list.
\<close>

type_synonym u8 = "8 word"
type_synonym u16 = "16 word"
type_synonym u32 = "32 word"
type_synonym u64 = "64 word"

definition STM32_BASE_ADDRESS :: u32 where
  "STM32_BASE_ADDRESS = 0x08000000"

definition STM32_DEFAULT_TRANSFER :: u16 where
  "STM32_DEFAULT_TRANSFER = 1024"

text \<open>\<open>strchr(s, c)\<close>: the suffix starting at the first occurrence, or NULL.\<close>

definition strchr :: "string \<Rightarrow> char \<Rightarrow> string option" where
  "strchr s c = (case dropWhile (\<lambda>x. x \<noteq> c) s of [] \<Rightarrow> None | r \<Rightarrow> Some r)"

definition isspace :: "char \<Rightarrow> bool" where
  "isspace c = (c = CHR '' '' \<or> (9 \<le> (of_char c :: nat) \<and> (of_char c :: nat) \<le> 13))"

definition digit_of :: "char \<Rightarrow> nat option" where
  "digit_of c =
     (let n = (of_char c :: nat) in
      if 48 \<le> n \<and> n \<le> 57 then Some (n - 48)
      else if 97 \<le> n \<and> n \<le> 122 then Some (n - 87)
      else if 65 \<le> n \<and> n \<le> 90 then Some (n - 55)
      else None)"

definition is_digit :: "nat \<Rightarrow> char \<Rightarrow> bool" where
  "is_digit base c = (case digit_of c of None \<Rightarrow> False | Some d \<Rightarrow> d < base)"

definition digits_value :: "nat \<Rightarrow> string \<Rightarrow> nat" where
  "digits_value base ds = foldl (\<lambda>acc c. acc * base + the (digit_of c)) 0 ds"

definition ULONG_MAX :: nat where
  "ULONG_MAX = 4294967295"

text \<open>
  \<open>strtoul(nptr, &endptr, base)\<close> of the C library, for bases 10 and 16: white space and
  one sign are skipped, base 16 accepts a \<open>0x\<close> prefix when a hex digit follows it, the
  longest run of digits is converted, a value out of range is \<open>ULONG_MAX\<close>, a minus sign
  negates in the unsigned type, and with no digit at all the result is 0 and \<open>endptr\<close> is
  \<open>nptr\<close>. The result is the value and \<open>endptr\<close> (never NULL).
\<close>

definition skip_sign :: "string \<Rightarrow> string" where
  "skip_sign s = (if s \<noteq> [] \<and> (hd s = CHR ''-'' \<or> hd s = CHR ''+'') then tl s else s)"

definition skip_hex_prefix :: "nat \<Rightarrow> string \<Rightarrow> string" where
  "skip_hex_prefix base s =
     (if base = 16 \<and> length s \<ge> 3 \<and> hd s = CHR ''0''
         \<and> (s ! 1 = CHR ''x'' \<or> s ! 1 = CHR ''X'') \<and> is_digit 16 (s ! 2)
      then drop 2 s else s)"

definition strtoul :: "string \<Rightarrow> nat \<Rightarrow> u32 \<times> string" where
  "strtoul nptr base =
     (let s1 = dropWhile isspace nptr;
          neg = (s1 \<noteq> [] \<and> hd s1 = CHR ''-'');
          s3 = skip_hex_prefix base (skip_sign s1);
          ds = takeWhile (is_digit base) s3;
          rest = dropWhile (is_digit base) s3;
          v = digits_value base ds
      in if ds = [] then (0, nptr)
         else if v > ULONG_MAX then (word_of_nat ULONG_MAX, rest)
         else if neg then (- word_of_nat v, rest)
         else (word_of_nat v, rest))"

section \<open>Memory layout\<close>

record stm32_dfu_segment_t =
  seg_start :: u32
  seg_end :: u32
  page_size :: u32

text \<open>
  \<open>stm32_dfu_memory_layout_t\<close>: the array of 8 segments and its \<open>count\<close> are the list of
  the segments stored so far; \<open>count\<close> is its length.
\<close>

type_synonym stm32_dfu_memory_layout_t = "stm32_dfu_segment_t list"

text \<open>The decimal digits read by the first loop of \<open>parse_size_bytes\<close>, with the
  accumulation in \<open>unsigned long\<close>.\<close>

fun size_digits :: "u32 \<Rightarrow> string \<Rightarrow> u32 \<times> string" where
  "size_digits v [] = (v, [])"
| "size_digits v (c # cs) =
     (if 48 \<le> (of_char c :: nat) \<and> (of_char c :: nat) \<le> 57
      then size_digits (v * 10 + word_of_nat ((of_char c :: nat) - 48)) cs
      else (v, c # cs))"

text \<open>The unit suffix of \<open>parse_size_bytes\<close>: the multiplier and the cursor after it.\<close>

definition size_unit :: "string \<Rightarrow> u32 \<times> string" where
  "size_unit cursor =
     (if cursor \<noteq> [] \<and> (hd cursor = CHR ''K'' \<or> hd cursor = CHR ''k'')
        then (1024, tl cursor)
      else if cursor \<noteq> [] \<and> (hd cursor = CHR ''M'' \<or> hd cursor = CHR ''m'')
        then (1024 * 1024, tl cursor)
      else if cursor \<noteq> [] \<and> (hd cursor = CHR ''B'' \<or> hd cursor = CHR ''b'')
        then (1, tl cursor)
      else (1, cursor))"

definition skip_type_letter :: "string \<Rightarrow> string" where
  "skip_type_letter cursor =
     (if cursor \<noteq> [] \<and> (hd cursor = CHR ''g'' \<or> hd cursor = CHR ''G'')
      then tl cursor else cursor)"

definition parse_size_bytes :: "string \<Rightarrow> u32 \<times> string" where
  "parse_size_bytes text =
     (let (v, cursor) = size_digits 0 text;
          (multiplier, cursor) = size_unit cursor;
          cursor = skip_type_letter cursor
      in (v * multiplier, cursor))"

lemma length_size_digits: "length (snd (size_digits v s)) \<le> length s"
  by (induction v s rule: size_digits.induct) auto

lemma length_size_unit: "length (snd (size_unit s)) \<le> length s"
  by (simp add: size_unit_def)

lemma length_skip_type_letter: "length (skip_type_letter s) \<le> length s"
  by (simp add: skip_type_letter_def)

lemma length_parse_size_bytes: "length (snd (parse_size_bytes s)) \<le> length s"
proof -
  obtain v c where vc: "size_digits 0 s = (v, c)"
    by (cases "size_digits 0 s")
  obtain m c2 where mc: "size_unit c = (m, c2)"
    by (cases "size_unit c")
  have "snd (parse_size_bytes s) = skip_type_letter c2"
    by (simp add: parse_size_bytes_def vc mc)
  moreover have "length (skip_type_letter c2) \<le> length c2"
    by (rule length_skip_type_letter)
  moreover have "length c2 \<le> length c"
    using length_size_unit [of c] mc by simp
  moreover have "length c \<le> length s"
    using length_size_digits [of 0 s] vc by simp
  ultimately show ?thesis
    by simp
qed

lemma length_skip_sign: "length (skip_sign s) \<le> length s"
  by (simp add: skip_sign_def)

lemma length_skip_hex_prefix: "length (skip_hex_prefix b s) \<le> length s"
  by (simp add: skip_hex_prefix_def)

lemma length_strtoul: "length (snd (strtoul s b)) \<le> length s"
proof -
  define s3 where "s3 = skip_hex_prefix b (skip_sign (dropWhile isspace s))"
  have "length s3 \<le> length (skip_sign (dropWhile isspace s))"
    unfolding s3_def by (rule length_skip_hex_prefix)
  also have "\<dots> \<le> length (dropWhile isspace s)"
    by (rule length_skip_sign)
  also have "\<dots> \<le> length s"
    by (rule length_dropWhile_le)
  finally have 3: "length s3 \<le> length s" .
  have 4: "length (dropWhile (is_digit b) s3) \<le> length s3"
    by (rule length_dropWhile_le)
  have "snd (strtoul s b) = s \<or> snd (strtoul s b) = dropWhile (is_digit b) s3"
    unfolding strtoul_def Let_def s3_def [symmetric] by simp
  with 3 4 show ?thesis
    by auto
qed

lemma strchr_length: "strchr s c = Some r \<Longrightarrow> length r \<le> length s \<and> r \<noteq> []"
proof -
  assume a: "strchr s c = Some r"
  show ?thesis
  proof (cases "dropWhile (\<lambda>x. x \<noteq> c) s")
    case Nil
    with a show ?thesis by (simp add: strchr_def)
  next
    case (Cons x xs)
    with a have "r = dropWhile (\<lambda>x. x \<noteq> c) s"
      by (simp add: strchr_def)
    with Cons show ?thesis
      using length_dropWhile_le [of "\<lambda>x. x \<noteq> c" s] by simp
  qed
qed

text \<open>
  One iteration of the loop of \<open>parse_alt_memory_layout\<close>, from the character after a
  \<open>/\<close>, in the three stages of the source: the hex address, the decimal page count and
  the page size. The result is the segment of this iteration, if it yields one, and the
  cursor the next iteration searches from (every \<open>continue\<close> of the source).
\<close>

definition parse_segment_size ::
  "u32 \<Rightarrow> u32 \<Rightarrow> string \<Rightarrow> stm32_dfu_segment_t option \<times> string" where
  "parse_segment_size start cnt cursor =
     (let (psize, cursor) = parse_size_bytes cursor in
      if psize = 0 then (None, cursor)
      else (Some \<lparr>seg_start = start,
                   seg_end = start + ucast ((ucast cnt :: u64) * ucast psize),
                   page_size = psize\<rparr>, cursor))"

definition parse_segment_count ::
  "u32 \<Rightarrow> string \<Rightarrow> stm32_dfu_segment_t option \<times> string" where
  "parse_segment_count start cursor =
     (let (cnt, endptr) = strtoul cursor 10 in
      if endptr = [] \<or> hd endptr \<noteq> CHR ''*'' then (None, endptr)
      else parse_segment_size start cnt (tl endptr))"

definition parse_segment :: "string \<Rightarrow> stm32_dfu_segment_t option \<times> string" where
  "parse_segment cursor =
     (if \<not> (length cursor \<ge> 2 \<and> cursor ! 0 = CHR ''0''
             \<and> (cursor ! 1 = CHR ''x'' \<or> cursor ! 1 = CHR ''X''))
      then (None, cursor)
      else
        (let (start, endptr) = strtoul cursor 16 in
         if endptr = [] \<or> hd endptr \<noteq> CHR ''/'' then (None, endptr)
         else parse_segment_count start (tl endptr)))"

lemma length_parse_segment_size:
  "length (snd (parse_segment_size a n s)) \<le> length s"
proof -
  obtain p c where pc: "parse_size_bytes s = (p, c)"
    by (cases "parse_size_bytes s")
  then have "snd (parse_segment_size a n s) = c"
    by (simp add: parse_segment_size_def)
  then show ?thesis
    using length_parse_size_bytes [of s] pc by simp
qed

lemma length_parse_segment_count:
  "length (snd (parse_segment_count a s)) \<le> length s"
proof -
  obtain n e where ne: "strtoul s 10 = (n, e)"
    by (cases "strtoul s 10")
  have e: "length e \<le> length s"
    using length_strtoul [of s 10] ne by simp
  show ?thesis
  proof (cases "e = [] \<or> hd e \<noteq> CHR ''*''")
    case True
    then show ?thesis
      using e by (simp add: parse_segment_count_def ne)
  next
    case False
    then have "snd (parse_segment_count a s) = snd (parse_segment_size a n (tl e))"
      by (simp add: parse_segment_count_def ne)
    moreover have "length (snd (parse_segment_size a n (tl e))) \<le> length (tl e)"
      by (rule length_parse_segment_size)
    ultimately show ?thesis
      using e by simp
  qed
qed

lemma length_parse_segment: "length (snd (parse_segment s)) \<le> length s"
proof (cases "length s \<ge> 2 \<and> s ! 0 = CHR ''0'' \<and> (s ! 1 = CHR ''x'' \<or> s ! 1 = CHR ''X'')")
  case False
  then show ?thesis
    by (simp add: parse_segment_def)
next
  case True
  obtain a e where ae: "strtoul s 16 = (a, e)"
    by (cases "strtoul s 16")
  have e: "length e \<le> length s"
    using length_strtoul [of s 16] ae by simp
  show ?thesis
  proof (cases "e = [] \<or> hd e \<noteq> CHR ''/''")
    case c: True
    then have "snd (parse_segment s) = e"
      using True by (simp add: parse_segment_def ae)
    then show ?thesis
      using e by simp
  next
    case c: False
    then have "snd (parse_segment s) = snd (parse_segment_count a (tl e))"
      using True by (simp add: parse_segment_def ae)
    moreover have "length (snd (parse_segment_count a (tl e))) \<le> length (tl e)"
      by (rule length_parse_segment_count)
    ultimately show ?thesis
      using e by simp
  qed
qed

text \<open>
  The loop itself: \<open>strchr\<close> finds the next \<open>/\<close>, the cursor steps over it, and a
  segment is stored while fewer than 8 are.
\<close>

function parse_layout_loop ::
  "string \<Rightarrow> stm32_dfu_memory_layout_t \<Rightarrow> stm32_dfu_memory_layout_t" where
  "parse_layout_loop cursor layout =
     (case strchr cursor CHR ''/'' of
        None \<Rightarrow> layout
      | Some found \<Rightarrow>
          parse_layout_loop (snd (parse_segment (tl found)))
            (case fst (parse_segment (tl found)) of
               None \<Rightarrow> layout
             | Some seg \<Rightarrow> if length layout < 8 then layout @ [seg] else layout))"
  by pat_completeness auto
termination
proof (relation "measure (\<lambda>(cursor, layout). length cursor)")
  show "wf (measure (\<lambda>(cursor, layout). length cursor))"
    by simp
next
  fix cursor :: string and layout :: stm32_dfu_memory_layout_t and found
  assume "strchr cursor CHR ''/'' = Some found"
  then have "length found \<le> length cursor" and "found \<noteq> []"
    using strchr_length by blast+
  moreover have "length (snd (parse_segment (tl found))) \<le> length (tl found)"
    by (rule length_parse_segment)
  ultimately have "length (snd (parse_segment (tl found))) < length cursor"
    by (cases found) auto
  then show "((snd (parse_segment (tl found)),
               case fst (parse_segment (tl found)) of None \<Rightarrow> layout
               | Some seg \<Rightarrow> if length layout < 8 then layout @ [seg] else layout),
              cursor, layout) \<in> measure (\<lambda>(cursor, layout). length cursor)"
    by simp
qed

declare parse_layout_loop.simps [simp del]

text \<open>
  \<open>parse_alt_memory_layout(alt_name, layout)\<close>: the count of the caller's layout is reset,
  a NULL name gives no segment, and the result is whether a segment was stored.
\<close>

definition parse_alt_memory_layout ::
  "string option \<Rightarrow> stm32_dfu_memory_layout_t \<Rightarrow> bool \<times> stm32_dfu_memory_layout_t" where
  "parse_alt_memory_layout alt_name layout =
     (case alt_name of
        None \<Rightarrow> (False, [])
      | Some name \<Rightarrow> (let l = parse_layout_loop name [] in (length l > 0, l)))"

text \<open>\<open>find_segment\<close>: the first stored segment whose half-open range holds the address.\<close>

fun find_segment :: "stm32_dfu_memory_layout_t \<Rightarrow> u32 \<Rightarrow> stm32_dfu_segment_t option" where
  "find_segment [] address = None"
| "find_segment (segment # rest) address =
     (if address \<ge> seg_start segment \<and> address < seg_end segment then Some segment
      else find_segment rest address)"

section \<open>The USB descriptors and the negotiated transfer size\<close>

text \<open>
  \<open>struct libusb_interface_descriptor\<close>, as far as the loader reads it; \<open>extra_length\<close>
  is the length of \<open>extra\<close>.
\<close>

record libusb_interface_descriptor =
  bInterfaceClass :: u8
  bInterfaceSubClass :: u8
  bInterfaceProtocol :: u8
  bInterfaceNumber :: u8
  bAlternateSetting :: u8
  iInterface :: u8
  extra :: "u8 list"

text \<open>The loop of \<open>parse_transfer_size\<close> over the class-specific descriptors;
  \<open>remaining\<close> is the length of the list.\<close>

function parse_transfer_size_loop :: "u8 list \<Rightarrow> u16" where
  "parse_transfer_size_loop extra_bytes =
     (if length extra_bytes \<ge> 9 then
        (if unat (extra_bytes ! 0) < 3 \<or> unat (extra_bytes ! 0) > length extra_bytes
         then STM32_DEFAULT_TRANSFER
         else if extra_bytes ! 1 = 0x21 \<and> unat (extra_bytes ! 0) \<ge> 9
         then (let transfer = (ucast (extra_bytes ! 5) :: u16)
                                OR push_bit 8 (ucast (extra_bytes ! 6))
               in if transfer = 0 then STM32_DEFAULT_TRANSFER else transfer)
         else parse_transfer_size_loop (drop (unat (extra_bytes ! 0)) extra_bytes))
      else STM32_DEFAULT_TRANSFER)"
  by pat_completeness auto
termination
  by (relation "measure length") auto

declare parse_transfer_size_loop.simps [simp del]

definition parse_transfer_size :: "libusb_interface_descriptor \<Rightarrow> u16" where
  "parse_transfer_size alt =
     (if length (extra alt) < 9 then STM32_DEFAULT_TRANSFER
      else parse_transfer_size_loop (extra alt))"

section \<open>The device session and the world the loader acts on\<close>

record stm32_dfu_device_t =
  handle :: bool
  interface_number :: u8
  alt_setting :: u8
  transfer_size :: u16
  alt_name :: string
  last_erased_page :: u32
  layout_valid :: bool
  mass_erased :: bool
  layout :: stm32_dfu_memory_layout_t

definition zero_device :: stm32_dfu_device_t where
  "zero_device = \<lparr>handle = False, interface_number = 0, alt_setting = 0, transfer_size = 0,
     alt_name = [], last_erased_page = 0, layout_valid = False, mass_erased = False,
     layout = []\<rparr>"

record dfu_status_t =
  status :: u8
  state :: u8
  poll_timeout_ms :: u32

text \<open>
  A control transfer is one of the four DFU requests the loader issues; \<open>DNLOAD\<close> carries
  the block number (\<open>wValue\<close>) and the payload. The reply is the result of
  \<open>libusb_control_transfer\<close> and, for \<open>GETSTATUS\<close>, the bytes the device sent.
\<close>

datatype usb_request = GETSTATUS | CLRSTATUS | ABORT | DNLOAD u16 "u8 list"

record usb_reply =
  ret :: int
  reply_data :: "u8 list"

datatype event = Transfer usb_request | Sleep u32

text \<open>The bus as one enumeration finds it: each device with the results of the library
  calls the loader makes on it.\<close>

record usb_device =
  descriptor_ok :: bool
  idVendor :: u16
  idProduct :: u16
  open_ret :: int
  config :: "libusb_interface_descriptor list list option"
  string_descriptor :: "u8 \<Rightarrow> string"
  claim_ret :: int
  set_alt_ret :: int

record dfu_loader_client_t =
  magic :: u32
  progress_cb :: bool
  status_cb :: bool

text \<open>The firmware file as the C library delivers it to \<open>load_firmware_file\<close>.\<close>

record firmware_file =
  path_ok :: bool
  open_ok :: bool
  seek_ok :: bool
  file_size :: int
  alloc_ok :: bool
  read_bytes :: "u8 list"

text \<open>
  The environment of one run: the arguments of \<open>dfu_loader_flash\<close> (whether the
  progress callback and the status buffer are non-NULL, the buffer length, and what
  \<open>progress_ctx\<close> points to), and everything outside the loader: the file, the result of
  \<open>libusb_init\<close>, the bus at each enumeration, the names of the library's error codes,
  whether the transfer buffer can be allocated, and the device, as the reply to the
  i-th control transfer given its request.
\<close>

record env =
  cb :: bool
  ctx :: "dfu_loader_client_t option"
  status_buf :: bool
  status_buf_len :: nat
  firmware :: firmware_file
  init_ret :: int
  enumerate :: "nat \<Rightarrow> int + usb_device list"
  libusb_error_name :: "int \<Rightarrow> string"
  chunk_alloc_ok :: bool
  device :: "nat \<Rightarrow> usb_request \<Rightarrow> usb_reply"

text \<open>
  What a run changes: the number of control transfers made, the requests and sleeps in
  order, the C string in the caller's status buffer, the messages passed to the client's
  status callback and the percentages passed to the progress callback.
\<close>

record world =
  transfers :: nat
  wire :: "event list"
  status_text :: string
  status_log :: "string list"
  progress_log :: "int list"

text \<open>The return codes of the USB library and the interface class, from its header.\<close>

definition LIBUSB_SUCCESS :: int where "LIBUSB_SUCCESS = 0"
definition LIBUSB_ERROR_IO :: int where "LIBUSB_ERROR_IO = - 1"
definition LIBUSB_ERROR_NO_DEVICE :: int where "LIBUSB_ERROR_NO_DEVICE = - 4"
definition LIBUSB_CLASS_APPLICATION :: u8 where "LIBUSB_CLASS_APPLICATION = 0xFE"

definition DFU_LOADER_CLIENT_MAGIC :: u32 where
  "DFU_LOADER_CLIENT_MAGIC = 0x44465543"

definition STM32_VENDOR_ID :: u16 where "STM32_VENDOR_ID = 0x0483"
definition STM32_PRODUCT_ID :: u16 where "STM32_PRODUCT_ID = 0xDF11"

definition DFU_STATE_dfuIDLE :: u8 where "DFU_STATE_dfuIDLE = 2"
definition DFU_STATE_dfuDNLOAD_IDLE :: u8 where "DFU_STATE_dfuDNLOAD_IDLE = 5"
definition DFU_STATE_dfuMANIFEST_SYNC :: u8 where "DFU_STATE_dfuMANIFEST_SYNC = 6"
definition DFU_STATE_dfuMANIFEST :: u8 where "DFU_STATE_dfuMANIFEST = 7"
definition DFU_STATE_dfuMANIFEST_WAIT_RESET :: u8 where "DFU_STATE_dfuMANIFEST_WAIT_RESET = 8"
definition DFU_STATE_dfuERROR :: u8 where "DFU_STATE_dfuERROR = 10"

subsection \<open>Formatting\<close>

definition hex_char :: "nat \<Rightarrow> char" where
  "hex_char n = ''0123456789ABCDEF'' ! (n mod 16)"

text \<open>\<open>%0wX\<close> of a value below \<open>16^w\<close>.\<close>

fun fmt_X :: "nat \<Rightarrow> nat \<Rightarrow> string" where
  "fmt_X 0 n = []"
| "fmt_X (Suc w) n = fmt_X w (n div 16) @ [hex_char n]"

text \<open>\<open>%u\<close>.\<close>

function fmt_u :: "nat \<Rightarrow> string" where
  "fmt_u n = (if n < 10 then [hex_char n] else fmt_u (n div 10) @ [hex_char (n mod 10)])"
  by pat_completeness auto
termination
  by (relation "measure id") auto

declare fmt_u.simps [simp del]

subsection \<open>Status and progress\<close>

definition resolve_client :: "dfu_loader_client_t option \<Rightarrow> dfu_loader_client_t option" where
  "resolve_client c =
     (case c of
        None \<Rightarrow> None
      | Some client \<Rightarrow> if magic client \<noteq> DFU_LOADER_CLIENT_MAGIC then None else Some client)"

text \<open>\<open>_vsnprintf_s(buffer, len, _TRUNCATE, ...)\<close>: what fits before the terminator.\<close>

definition truncate_to :: "nat \<Rightarrow> string \<Rightarrow> string" where
  "truncate_to len s = take (len - 1) s"

text \<open>The second half of \<open>set_status\<close>: the client's status callback gets the message,
  formatted into a buffer of 256 characters.\<close>

definition notify_status :: "env \<Rightarrow> string \<Rightarrow> world \<Rightarrow> world" where
  "notify_status e message w =
     (case resolve_client (ctx e) of
        None \<Rightarrow> w
      | Some client \<Rightarrow>
          if status_cb client
          then w\<lparr>status_log := status_log w @ [truncate_to 256 message]\<rparr>
          else w)"

text \<open>\<open>set_status\<close> on the caller's status buffer; the argument is the formatted text.\<close>

definition set_status :: "env \<Rightarrow> string \<Rightarrow> world \<Rightarrow> world" where
  "set_status e message w =
     notify_status e message
       (if status_buf e \<and> status_buf_len e > 0
        then w\<lparr>status_text := truncate_to (status_buf_len e) message\<rparr>
        else w)"

text \<open>\<open>set_status\<close> on the 160 characters of \<open>last_error\<close> in
  \<open>wait_for_stm32_dfu_device\<close>.\<close>

definition set_last_error :: "env \<Rightarrow> string \<Rightarrow> string \<times> world \<Rightarrow> string \<times> world" where
  "set_last_error e message lw = (truncate_to 160 message, notify_status e message (snd lw))"

definition report_progress :: "env \<Rightarrow> int \<Rightarrow> world \<Rightarrow> world" where
  "report_progress e percent w =
     (if (case resolve_client (ctx e) of None \<Rightarrow> False | Some client \<Rightarrow> progress_cb client)
      then w\<lparr>progress_log := progress_log w @ [percent]\<rparr>
      else if cb e then w\<lparr>progress_log := progress_log w @ [percent]\<rparr>
      else w)"

definition sleep :: "u32 \<Rightarrow> world \<Rightarrow> world" where
  "sleep ms w = w\<lparr>wire := wire w @ [Sleep ms]\<rparr>"

definition control_transfer :: "env \<Rightarrow> usb_request \<Rightarrow> world \<Rightarrow> usb_reply \<times> world" where
  "control_transfer e req w =
     (device e (transfers w) req,
      w\<lparr>transfers := transfers w + 1, wire := wire w @ [Transfer req]\<rparr>)"

section \<open>The DFU state machine\<close>

definition dfu_get_status :: "env \<Rightarrow> world \<Rightarrow> int \<times> dfu_status_t \<times> world" where
  "dfu_get_status e w =
     (let (r, w1) = control_transfer e GETSTATUS w;
          buffer = take 6 (reply_data r @ replicate 6 0);
          zero = \<lparr>status = 0, state = 0, poll_timeout_ms = 0\<rparr>
      in if ret r < 0 then (ret r, zero, w1)
         else if ret r \<noteq> 6 then (LIBUSB_ERROR_IO, zero, w1)
         else (LIBUSB_SUCCESS,
               \<lparr>status = buffer ! 0,
                state = buffer ! 4,
                poll_timeout_ms = (ucast (buffer ! 1) :: u32)
                                  OR push_bit 8 (ucast (buffer ! 2))
                                  OR push_bit 16 (ucast (buffer ! 3))\<rparr>,
               w1))"

definition dfu_clear_status :: "env \<Rightarrow> world \<Rightarrow> world" where
  "dfu_clear_status e w = snd (control_transfer e CLRSTATUS w)"

definition dfu_abort :: "env \<Rightarrow> world \<Rightarrow> world" where
  "dfu_abort e w = snd (control_transfer e ABORT w)"

text \<open>
  One pass through the body of the \<open>for (;;)\<close> of \<open>dfu_wait_ready\<close>: \<open>Some\<close> of the
  value returned, or \<open>None\<close> when the pass ends in \<open>Sleep\<close> and the loop goes round.
\<close>

definition wait_ready_poll :: "env \<Rightarrow> bool \<Rightarrow> world \<Rightarrow> bool option \<times> world" where
  "wait_ready_poll e allow_manifest w =
     (let (r, st, w1) = dfu_get_status e w in
      if r = LIBUSB_ERROR_NO_DEVICE then (Some allow_manifest, w1)
      else if r \<noteq> LIBUSB_SUCCESS
        then (Some False,
              set_status e (''Error: failed to read DFU status ('' @ libusb_error_name e r @ '')'') w1)
      else if status st \<noteq> 0
        then (Some False,
              set_status e (''Error: DFU status 0x'' @ fmt_X 2 (unat (status st))
                            @ '' (state=0x'' @ fmt_X 2 (unat (state st)) @ '')'')
                (dfu_clear_status e w1))
      else if state st = DFU_STATE_dfuIDLE \<or> state st = DFU_STATE_dfuDNLOAD_IDLE
        then (Some True, w1)
      else if state st = DFU_STATE_dfuMANIFEST_SYNC \<or> state st = DFU_STATE_dfuMANIFEST
              \<or> state st = DFU_STATE_dfuMANIFEST_WAIT_RESET
        then (Some allow_manifest, w1)
      else if state st = DFU_STATE_dfuERROR
        then (Some False, set_status e ''Error: DFU entered error state'' (dfu_clear_status e w1))
      else (None, sleep (if poll_timeout_ms st > 0 then poll_timeout_ms st else 5) w1))"

text \<open>The loop has no bound: a run that polls for ever has no result.\<close>

partial_function (option) dfu_wait_ready :: "env \<Rightarrow> bool \<Rightarrow> world \<Rightarrow> (bool \<times> world) option"
where
  "dfu_wait_ready e allow_manifest w =
     (case wait_ready_poll e allow_manifest w of
        (Some r, w1) \<Rightarrow> Some (r, w1)
      | (None, w1) \<Rightarrow> dfu_wait_ready e allow_manifest w1)"

declare dfu_wait_ready.simps [code]

definition dfu_download_block ::
  "env \<Rightarrow> u16 \<Rightarrow> u8 list \<Rightarrow> bool \<Rightarrow> world \<Rightarrow> (bool \<times> world) option" where
  "dfu_download_block e block_number payload allow_manifest w =
     (let (r, w1) = control_transfer e (DNLOAD block_number payload) w in
      if ret r < 0
        then Some (False,
               set_status e (''Error: failed to send DFU data ('' @ libusb_error_name e (ret r) @ '')'') w1)
      else if ret r \<noteq> int (length payload)
        then Some (False, set_status e ''Error: DFU data sent incomplete'' w1)
      else dfu_wait_ready e allow_manifest w1)"

definition special_payload :: "u8 \<Rightarrow> u32 \<Rightarrow> u8 list" where
  "special_payload command address =
     [command,
      ucast (address AND 0xFF),
      ucast (drop_bit 8 address AND 0xFF),
      ucast (drop_bit 16 address AND 0xFF),
      ucast (drop_bit 24 address AND 0xFF)]"

definition dfu_send_special_command ::
  "env \<Rightarrow> u8 \<Rightarrow> u32 \<Rightarrow> u8 \<Rightarrow> bool \<Rightarrow> world \<Rightarrow> (bool \<times> world) option" where
  "dfu_send_special_command e command address len allow_manifest w =
     (let len = (if unat len > 5 then 5 else unat len) in
      dfu_download_block e 0 (take len (special_payload command address)) allow_manifest w)"

definition dfu_set_address_pointer :: "env \<Rightarrow> u32 \<Rightarrow> world \<Rightarrow> (bool \<times> world) option" where
  "dfu_set_address_pointer e address w = dfu_send_special_command e 0x21 address 5 False w"

definition dfu_mass_erase :: "env \<Rightarrow> world \<Rightarrow> (bool \<times> world) option" where
  "dfu_mass_erase e w = dfu_send_special_command e 0x41 0 1 False w"

section \<open>The erase planner\<close>

text \<open>
  The inner loop of \<open>dfu_erase_range\<close> over the pages of one segment, from
  \<open>page_base\<close>; \<open>range_end\<close> is \<open>address + length\<close>. The result is whether the loop
  ran to its end (\<open>False\<close>: an erase command failed and the function returned).
\<close>

partial_function (option) erase_pages ::
  "env \<Rightarrow> stm32_dfu_segment_t \<Rightarrow> u32 \<Rightarrow> u32 \<Rightarrow> stm32_dfu_device_t \<Rightarrow> world
   \<Rightarrow> (bool \<times> stm32_dfu_device_t \<times> world) option"
where
  "erase_pages e segment range_end page_base dev w =
     (if page_base < seg_end segment \<and> page_base < range_end then
        (if last_erased_page dev \<noteq> page_base then
           (case dfu_send_special_command e 0x41 page_base 5 False w of
              None \<Rightarrow> None
            | Some (ok, w1) \<Rightarrow>
                if \<not> ok then Some (False, dev, w1)
                else erase_pages e segment range_end (page_base + page_size segment)
                       (dev\<lparr>last_erased_page := page_base\<rparr>) w1)
         else erase_pages e segment range_end (page_base + page_size segment) dev w)
      else Some (True, dev, w))"

declare erase_pages.simps [code]

text \<open>
  The outer loop of \<open>dfu_erase_range\<close>, from \<open>start\<close>. The division by the page size
  traps when the page size is zero: such a run has no result.
\<close>

partial_function (option) erase_range_loop ::
  "env \<Rightarrow> u32 \<Rightarrow> u32 \<Rightarrow> stm32_dfu_device_t \<Rightarrow> world
   \<Rightarrow> (bool \<times> stm32_dfu_device_t \<times> world) option"
where
  "erase_range_loop e start range_end dev w =
     (if start < range_end then
        (case find_segment (layout dev) start of
           None \<Rightarrow>
             Some (False, dev,
               set_status e (''Error: address 0x'' @ fmt_X 8 (unat start) @ '' outside DFU segment'') w)
         | Some segment \<Rightarrow>
             if page_size segment = 0 then None
             else
               (case erase_pages e segment range_end
                       (seg_start segment
                          + ((start - seg_start segment) div page_size segment) * page_size segment)
                       dev w of
                  None \<Rightarrow> None
                | Some (ok, dev1, w1) \<Rightarrow>
                    if \<not> ok then Some (False, dev1, w1)
                    else erase_range_loop e (seg_end segment) range_end dev1 w1))
      else Some (True, dev, w))"

declare erase_range_loop.simps [code]

definition dfu_erase_range ::
  "env \<Rightarrow> stm32_dfu_device_t \<Rightarrow> u32 \<Rightarrow> u32 \<Rightarrow> world
   \<Rightarrow> (bool \<times> stm32_dfu_device_t \<times> world) option" where
  "dfu_erase_range e dev address len w =
     (if \<not> layout_valid dev \<or> length (layout dev) = 0 then Some (True, dev, w)
      else erase_range_loop e address (address + len) dev w)"

definition dfu_prepare_idle :: "env \<Rightarrow> world \<Rightarrow> (bool \<times> world) option" where
  "dfu_prepare_idle e w =
     (case dfu_wait_ready e True w of
        None \<Rightarrow> None
      | Some (ok, w1) \<Rightarrow>
          if \<not> ok then dfu_wait_ready e True (sleep 5 (dfu_abort e w1))
          else Some (True, w1))"

section \<open>Device discovery\<close>

text \<open>\<open>strstr(haystack, needle)\<close>: the suffix at the first occurrence, or NULL.\<close>

fun strstr :: "string \<Rightarrow> string \<Rightarrow> string option" where
  "strstr [] needle = (if needle = [] then Some [] else None)"
| "strstr (c # cs) needle =
     (if take (length needle) (c # cs) = needle then Some (c # cs) else strstr cs needle)"

definition is_dfu_alt :: "libusb_interface_descriptor \<Rightarrow> bool" where
  "is_dfu_alt alt =
     (\<not> (bInterfaceClass alt \<noteq> LIBUSB_CLASS_APPLICATION
          \<or> bInterfaceSubClass alt \<noteq> 1 \<or> bInterfaceProtocol alt \<noteq> 2))"

text \<open>What \<open>select_dfu_interface\<close> stores in \<open>selected\<close> for one matching alternate
  setting; the name is read into a zeroed buffer of 128 characters.\<close>

definition select_alt :: "usb_device \<Rightarrow> libusb_interface_descriptor \<Rightarrow> stm32_dfu_device_t" where
  "select_alt d alt =
     zero_device\<lparr>handle := True,
       interface_number := bInterfaceNumber alt,
       alt_setting := bAlternateSetting alt,
       transfer_size := parse_transfer_size alt,
       alt_name := truncate_to 128
          (if iInterface alt \<noteq> 0 then truncate_to 128 (string_descriptor d (iInterface alt))
           else [])\<rparr>"

fun scan_altsettings ::
  "usb_device \<Rightarrow> libusb_interface_descriptor list \<Rightarrow> stm32_dfu_device_t option
   \<Rightarrow> stm32_dfu_device_t option" where
  "scan_altsettings d [] selected = selected"
| "scan_altsettings d (alt # alts) selected =
     (if \<not> is_dfu_alt alt then scan_altsettings d alts selected
      else if strstr (alt_name (select_alt d alt)) ''Internal'' \<noteq> None
        then Some (select_alt d alt)
      else scan_altsettings d alts (Some (select_alt d alt)))"

fun scan_interfaces ::
  "usb_device \<Rightarrow> libusb_interface_descriptor list list \<Rightarrow> stm32_dfu_device_t option" where
  "scan_interfaces d [] = None"
| "scan_interfaces d (iface # ifaces) =
     (case scan_altsettings d iface None of
        Some selected \<Rightarrow> Some selected
      | None \<Rightarrow> scan_interfaces d ifaces)"

definition select_dfu_interface :: "usb_device \<Rightarrow> stm32_dfu_device_t option" where
  "select_dfu_interface d =
     (case config d of None \<Rightarrow> None | Some ifaces \<Rightarrow> scan_interfaces d ifaces)"

text \<open>The loop of \<open>open_stm32_dfu_device_once\<close> over the enumerated devices; the pair is
  the \<open>last_error\<close> buffer of the caller and the world.\<close>

fun open_devices ::
  "env \<Rightarrow> usb_device list \<Rightarrow> string \<times> world \<Rightarrow> stm32_dfu_device_t option \<times> string \<times> world"
where
  "open_devices e [] lw = (None, lw)"
| "open_devices e (d # ds) lw =
     (if \<not> descriptor_ok d then open_devices e ds lw
      else if idVendor d \<noteq> STM32_VENDOR_ID \<or> idProduct d \<noteq> STM32_PRODUCT_ID
        then open_devices e ds lw
      else if open_ret d \<noteq> LIBUSB_SUCCESS
        then open_devices e ds
               (set_last_error e
                  (''Error: cannot open DFU device ('' @ libusb_error_name e (open_ret d) @ '')'') lw)
      else
        (case select_dfu_interface d of
           None \<Rightarrow>
             open_devices e ds (set_last_error e ''Error: DFU interface not found on device'' lw)
         | Some dev \<Rightarrow>
             if claim_ret d \<noteq> LIBUSB_SUCCESS
               then open_devices e ds
                      (set_last_error e
                         (''Error: failed to claim DFU interface (''
                            @ libusb_error_name e (claim_ret d) @ '')'') lw)
             else if set_alt_ret d \<noteq> LIBUSB_SUCCESS
               then open_devices e ds
                      (set_last_error e
                         (''Error: failed to set DFU alt setting (''
                            @ libusb_error_name e (set_alt_ret d) @ '')'') lw)
             else (Some (dev\<lparr>handle := True,
                             last_erased_page := 0xFFFFFFFF,
                             layout_valid := fst (parse_alt_memory_layout (Some (alt_name dev)) (layout dev)),
                             layout := snd (parse_alt_memory_layout (Some (alt_name dev)) (layout dev))\<rparr>),
                   lw)))"

text \<open>The n-th call of \<open>open_stm32_dfu_device_once\<close>; \<open>Inl\<close> is the negative count of a
  failed enumeration.\<close>

definition open_stm32_dfu_device_once ::
  "env \<Rightarrow> nat \<Rightarrow> string \<times> world \<Rightarrow> stm32_dfu_device_t option \<times> string \<times> world" where
  "open_stm32_dfu_device_once e n lw =
     (case enumerate e n of
        Inl cnt \<Rightarrow>
          (None, set_last_error e
                   (''Error: failed to enumerate USB devices ('' @ libusb_error_name e cnt @ '')'') lw)
      | Inr devices \<Rightarrow> open_devices e devices lw)"

function wait_for_loop ::
  "env \<Rightarrow> nat \<Rightarrow> nat \<Rightarrow> string \<times> world \<Rightarrow> stm32_dfu_device_t option \<times> string \<times> world"
where
  "wait_for_loop e timeout_ms elapsed lw =
     (if elapsed \<le> timeout_ms then
        (case open_stm32_dfu_device_once e (elapsed div 100) lw of
           (Some dev, lw1) \<Rightarrow> (Some dev, lw1)
         | (None, last_error, w1) \<Rightarrow>
             wait_for_loop e timeout_ms (elapsed + 100) (last_error, sleep 100 w1))
      else (None, lw))"
  by pat_completeness auto
termination
  by (relation "measure (\<lambda>(e, timeout_ms, elapsed, lw). timeout_ms + 100 - elapsed)") auto

declare wait_for_loop.simps [simp del]

definition wait_for_stm32_dfu_device ::
  "env \<Rightarrow> nat \<Rightarrow> world \<Rightarrow> stm32_dfu_device_t option \<times> world" where
  "wait_for_stm32_dfu_device e timeout_ms w =
     (case wait_for_loop e timeout_ms 0 ([], w) of
        (Some dev, last_error, w1) \<Rightarrow>
          (Some dev,
           if status_buf e \<and> status_buf_len e \<noteq> 0 then
             (if alt_name dev \<noteq> []
              then set_status e (''Using DFU interface '' @ fmt_u (unat (alt_setting dev))
                                 @ '': '' @ alt_name dev) w1
              else set_status e (''Using DFU interface '' @ fmt_u (unat (alt_setting dev))) w1)
           else w1)
      | (None, last_error, w1) \<Rightarrow>
          (None,
           if status_buf e \<and> status_buf_len e \<noteq> 0 then
             (if last_error \<noteq> [] then set_status e last_error w1
              else set_status e
                     (''Error: DFU device not found (VID=0x'' @ fmt_X 4 (unat STM32_VENDOR_ID)
                        @ '' PID=0x'' @ fmt_X 4 (unat STM32_PRODUCT_ID) @ '')'') w1)
           else w1))"

section \<open>Loading the firmware\<close>

definition load_firmware_file :: "env \<Rightarrow> world \<Rightarrow> u8 list option \<times> world" where
  "load_firmware_file e w =
     (let f = firmware e in
      if \<not> path_ok f then (None, set_status e ''Error: firmware path invalid'' w)
      else if \<not> open_ok f then (None, set_status e ''Error: unable to open firmware file'' w)
      else if \<not> seek_ok f then (None, set_status e ''Error: unable to read firmware size'' w)
      else if file_size f \<le> 0 then (None, set_status e ''Error: firmware file is empty'' w)
      else if \<not> alloc_ok f
        then (None, set_status e ''Error: insufficient memory for firmware'' w)
      else if int (length (read_bytes f)) \<noteq> file_size f
        then (None, set_status e ''Error: failed to read firmware file'' w)
      else (Some (read_bytes f), w))"

section \<open>The download orchestrator\<close>

definition chunk_address :: "nat \<Rightarrow> u32" where
  "chunk_address written = STM32_BASE_ADDRESS + word_of_nat written"

text \<open>The chunk size of one iteration of the write loop: the rest of the image or the
  transfer size, and no more than the segment holds from the address of the chunk.\<close>

definition chunk_size_of ::
  "stm32_dfu_device_t \<Rightarrow> nat \<Rightarrow> nat \<Rightarrow> stm32_dfu_segment_t option \<Rightarrow> nat" where
  "chunk_size_of dev firmware_len written segment =
     (let remaining = firmware_len - written;
          chunk_size = (if remaining > unat (transfer_size dev) then unat (transfer_size dev)
                        else remaining)
      in case segment of
           None \<Rightarrow> chunk_size
         | Some seg \<Rightarrow>
             if unat (seg_end seg - chunk_address written) < chunk_size
             then unat (seg_end seg - chunk_address written) else chunk_size)"

text \<open>The bytes of one data block: the chunk, one \<open>0xFF\<close> after an odd length, and of
  these the \<open>(uint16_t)aligned_len\<close> first.\<close>

definition chunk_payload :: "u8 list \<Rightarrow> nat \<Rightarrow> nat \<Rightarrow> u8 list" where
  "chunk_payload fw written data_len =
     (let aligned_len = (if data_len mod 2 \<noteq> 0 then data_len + 1 else data_len);
          chunk_buffer = (if aligned_len > data_len
                          then take data_len (drop written fw) @ [0xFF]
                          else take data_len (drop written fw))
      in take (unat (word_of_nat aligned_len :: u16)) chunk_buffer)"

definition progress_percent :: "stm32_dfu_device_t \<Rightarrow> nat \<Rightarrow> nat \<Rightarrow> int" where
  "progress_percent dev written firmware_len =
     (let percent = (if layout_valid dev then 6 else 5) + int ((written * 90) div firmware_len)
      in if percent > 95 then 95 else percent)"

text \<open>
  The body of the write loop, in the order of the source: the address of the chunk and its
  segment, the chunk size, the erase of the pages the chunk touches, and the address pointer
  and the data block. Each step gives whether the iteration goes on (\<open>False\<close> is a
  \<open>goto cleanup\<close>); the body gives the new value of \<open>written\<close> too.
\<close>

definition segment_at :: "stm32_dfu_device_t \<Rightarrow> nat \<Rightarrow> stm32_dfu_segment_t option" where
  "segment_at dev written =
     (if layout_valid dev then find_segment (layout dev) (chunk_address written) else None)"

definition chunk_len :: "stm32_dfu_device_t \<Rightarrow> u8 list \<Rightarrow> nat \<Rightarrow> nat" where
  "chunk_len dev fw written = chunk_size_of dev (length fw) written (segment_at dev written)"

definition write_chunk_erase ::
  "env \<Rightarrow> u8 list \<Rightarrow> nat \<Rightarrow> stm32_dfu_device_t \<Rightarrow> world
   \<Rightarrow> (bool \<times> stm32_dfu_device_t \<times> world) option" where
  "write_chunk_erase e fw written dev w =
     (if \<not> mass_erased dev \<and> segment_at dev written \<noteq> None
      then dfu_erase_range e dev (chunk_address written)
             (word_of_nat (chunk_len dev fw written)) w
      else Some (True, dev, w))"

definition write_chunk_send ::
  "env \<Rightarrow> u8 list \<Rightarrow> nat \<Rightarrow> nat \<Rightarrow> stm32_dfu_device_t \<Rightarrow> world \<Rightarrow> (bool \<times> world) option"
where
  "write_chunk_send e fw written chunk_size dev w =
     (case dfu_set_address_pointer e (chunk_address written) w of
        None \<Rightarrow> None
      | Some (ok, w1) \<Rightarrow>
          if \<not> ok then Some (False, w1)
          else
            (case dfu_download_block e 2 (chunk_payload fw written chunk_size) False w1 of
               None \<Rightarrow> None
             | Some (ok, w2) \<Rightarrow>
                 if \<not> ok
                 then Some (False,
                        set_status e
                          (truncate_to 128
                             (''Error: write failed at 0x''
                                @ fmt_X 8 (unat (chunk_address written)) @ '' (len=''
                                @ fmt_u (if chunk_size mod 2 \<noteq> 0 then chunk_size + 1
                                         else chunk_size) @ '')'')) w2)
                 else Some (True,
                        report_progress e
                          (progress_percent dev (written + chunk_size) (length fw)) w2)))"

definition write_chunk ::
  "env \<Rightarrow> u8 list \<Rightarrow> nat \<Rightarrow> stm32_dfu_device_t \<Rightarrow> world
   \<Rightarrow> (bool \<times> nat \<times> stm32_dfu_device_t \<times> world) option" where
  "write_chunk e fw written dev w =
     (if layout_valid dev \<and> segment_at dev written = None
      then Some (False, written, dev,
             set_status e (''Error: address 0x'' @ fmt_X 8 (unat (chunk_address written))
                           @ '' outside DFU segment'') w)
      else
        (case write_chunk_erase e fw written dev w of
           None \<Rightarrow> None
         | Some (ok, dev1, w1) \<Rightarrow>
             if \<not> ok then Some (False, written, dev1, w1)
             else
               (case write_chunk_send e fw written (chunk_len dev fw written) dev1 w1 of
                  None \<Rightarrow> None
                | Some (ok, w2) \<Rightarrow>
                    if \<not> ok then Some (False, written, dev1, w2)
                    else Some (True, written + chunk_len dev fw written, dev1, w2))))"

partial_function (option) write_loop ::
  "env \<Rightarrow> u8 list \<Rightarrow> nat \<Rightarrow> stm32_dfu_device_t \<Rightarrow> world
   \<Rightarrow> (bool \<times> stm32_dfu_device_t \<times> world) option"
where
  "write_loop e fw written dev w =
     (if written < length fw then
        (case write_chunk e fw written dev w of
           None \<Rightarrow> None
         | Some (ok, written1, dev1, w1) \<Rightarrow>
             if \<not> ok then Some (False, dev1, w1)
             else write_loop e fw written1 dev1 w1)
      else Some (True, dev, w))"

declare write_loop.simps [code]

text \<open>The erase strategy chosen after the first \<open>dfu_prepare_idle\<close>.\<close>

definition flash_erase_phase ::
  "env \<Rightarrow> stm32_dfu_device_t \<Rightarrow> world \<Rightarrow> (bool \<times> stm32_dfu_device_t \<times> world) option" where
  "flash_erase_phase e dev w =
     (if layout_valid dev
      then Some (True, dev\<lparr>mass_erased := False, last_erased_page := 0xFFFFFFFF\<rparr>, w)
      else
        (case dfu_mass_erase e
                (report_progress e 3 (set_status e ''Performing mass erase...'' w)) of
           None \<Rightarrow> None
         | Some (ok, w1) \<Rightarrow>
             if \<not> ok then Some (False, dev, w1)
             else
               (case dfu_prepare_idle e w1 of
                  None \<Rightarrow> None
                | Some (ok, w2) \<Rightarrow>
                    if \<not> ok then Some (False, dev\<lparr>mass_erased := True\<rparr>, w2)
                    else Some (True, dev\<lparr>mass_erased := True,
                                           last_erased_page := 0xFFFFFFFF\<rparr>, w2))))"

text \<open>From the first address pointer to \<open>success = true\<close>.\<close>

definition flash_write_phase ::
  "env \<Rightarrow> u8 list \<Rightarrow> stm32_dfu_device_t \<Rightarrow> world \<Rightarrow> (bool \<times> world) option" where
  "flash_write_phase e fw dev w =
     (case dfu_set_address_pointer e STM32_BASE_ADDRESS
             (set_status e (''Setting write address 0x'' @ fmt_X 8 (unat STM32_BASE_ADDRESS)) w) of
        None \<Rightarrow> None
      | Some (ok, w1) \<Rightarrow>
          if \<not> ok then Some (False, w1)
          else
            (let w2 = set_status e ''Writing firmware...''
                        (report_progress e (if layout_valid dev then 6 else 5) w1)
             in if \<not> chunk_alloc_ok e
                then Some (False,
                       set_status e ''Error: insufficient memory for transfer buffer'' w2)
                else
                  (case write_loop e fw 0 dev w2 of
                     None \<Rightarrow> None
                   | Some (ok, dev1, w3) \<Rightarrow>
                       if \<not> ok then Some (False, w3)
                       else
                         (case dfu_download_block e 2 [] True w3 of
                            None \<Rightarrow> None
                          | Some (ok, w4) \<Rightarrow>
                              if \<not> ok then Some (False, w4)
                              else Some (True,
                                     set_status e ''Firmware written, device restarting''
                                       (report_progress e 99 w4))))))"

text \<open>From \<open>dfu_prepare_idle\<close> on, with the device that discovery found.\<close>

definition flash_device ::
  "env \<Rightarrow> u8 list \<Rightarrow> stm32_dfu_device_t \<Rightarrow> world \<Rightarrow> (bool \<times> world) option" where
  "flash_device e fw dev w =
     (case dfu_prepare_idle e (set_status e ''Preparing DFU state...'' w) of
        None \<Rightarrow> None
      | Some (ok, w1) \<Rightarrow>
          if \<not> ok then Some (False, w1)
          else
            (case flash_erase_phase e dev w1 of
               None \<Rightarrow> None
             | Some (ok, dev1, w2) \<Rightarrow>
                 if \<not> ok then Some (False, w2)
                 else flash_write_phase e fw dev1 w2))"

text \<open>The function up to the label \<open>cleanup\<close>: the value of \<open>success\<close> there.\<close>

definition flash_run :: "env \<Rightarrow> world \<Rightarrow> (bool \<times> world) option" where
  "flash_run e w =
     (case load_firmware_file e
             (set_status e ''Loading firmware file...'' (report_progress e 0 w)) of
        (None, w1) \<Rightarrow> Some (False, w1)
      | (Some fw, w1) \<Rightarrow>
          (let w2 = set_status e ''Initialising USB...'' w1 in
           if init_ret e \<noteq> LIBUSB_SUCCESS
           then Some (False,
                  set_status e
                    (''Error: libusb init failed ('' @ libusb_error_name e (init_ret e) @ '')'') w2)
           else
             (case wait_for_stm32_dfu_device e 10000
                     (set_status e ''Waiting for DFU device...'' w2) of
                (None, w3) \<Rightarrow> Some (False, w3)
              | (Some dev, w3) \<Rightarrow> flash_device e fw dev w3)))"

text \<open>From the label \<open>cleanup\<close> to the return.\<close>

definition flash_cleanup :: "env \<Rightarrow> bool \<Rightarrow> world \<Rightarrow> bool \<times> world" where
  "flash_cleanup e success w =
     (let w1 = (if success then report_progress e 100 w else w) in
      (success,
       if \<not> success \<and> status_buf e \<and> status_buf_len e \<noteq> 0 \<and> status_text w1 = []
       then set_status e ''Unknown DFU failure'' w1
       else w1))"

definition dfu_loader_flash :: "env \<Rightarrow> world \<Rightarrow> (bool \<times> world) option" where
  "dfu_loader_flash e w =
     (case flash_run e w of
        None \<Rightarrow> None
      | Some (success, w1) \<Rightarrow> Some (flash_cleanup e success w1))"

section \<open>Properties of the memory layout parser\<close>

lemmas parse_defs = parse_alt_memory_layout_def parse_layout_loop.simps strchr_def
  parse_segment_def parse_segment_count_def parse_segment_size_def strtoul_def skip_sign_def
  skip_hex_prefix_def is_digit_def digit_of_def digits_value_def ULONG_MAX_def isspace_def
  parse_size_bytes_def size_unit_def skip_type_letter_def Let_def

lemma unat_ucast_u32_u64: "unat (ucast (c::u32) :: u64) = unat c"
proof -
  have "unat c < 2 ^ 64"
    using unsigned_less [of c, where 'a = nat] by simp
  then show ?thesis
    by (simp add: unsigned_ucast_eq take_bit_nat_eq_self)
qed

lemma unat_ucast_u64_u32: "unat (ucast (x::u64) :: u32) = unat x mod 2 ^ 32"
  by (simp add: unsigned_ucast_eq take_bit_eq_mod)

lemma unat_u64_product:
  "unat ((ucast (c::u32) :: u64) * ucast (ps::u32)) = unat c * unat ps"
proof -
  have "unat c < 2^32" "unat ps < 2^32"
    using unsigned_less [of c, where 'a = nat] unsigned_less [of ps, where 'a = nat]
    by simp_all
  then have "unat c * unat ps < 2^32 * 2^32"
    by (intro mult_strict_mono) simp_all
  then have "unat c * unat ps < 2^64"
    by simp
  then show ?thesis
    by (simp add: unat_word_ariths unat_ucast_u32_u64)
qed

lemma unat_segment_end:
  assumes "unat st + unat c * unat ps < 2^32"
  shows "unat (st + ucast ((ucast (c::u32) :: u64) * ucast (ps::u32)) :: u32)
         = unat st + unat c * unat ps"
proof -
  have 1: "unat c * unat ps < 2^32"
    using assms by simp
  have "unat (ucast ((ucast c :: u64) * ucast ps) :: u32) = unat c * unat ps"
    using 1 by (simp add: unat_ucast_u64_u32 unat_u64_product)
  then show ?thesis
    using assms by (simp add: unat_word_ariths)
qed

lemma segment_well_formed:
  assumes "unat st + unat c * unat ps < 2^32" "c \<noteq> 0" "ps \<noteq> 0"
  defines "e \<equiv> st + ucast ((ucast (c::u32) :: u64) * ucast (ps::u32)) :: u32"
  shows "st < e \<and> (e - st) mod ps = 0"
proof -
  have ue: "unat e = unat st + unat c * unat ps"
    unfolding e_def using assms(1) by (rule unat_segment_end)
  have "unat c > 0" "unat ps > 0"
    using assms(2,3) by (simp_all add: unat_gt_0)
  then have "unat c * unat ps > 0"
    by simp
  with ue have lt: "st < e"
    by (simp add: word_less_nat_alt)
  have "unat (e - st) = unat c * unat ps"
    using ue lt by (simp add: unat_sub word_le_nat_alt word_less_nat_alt)
  then have "unat ((e - st) mod ps) = 0"
    by (simp add: unat_mod)
  then have "(e - st) mod ps = 0"
    by (simp add: unat_eq_zero)
  with lt show ?thesis
    by simp
qed

text \<open>What the parser guarantees of a segment it stores: a page size that is not zero, and
  an end that is the start plus count times page size, both reduced to 32 bits.\<close>

definition stored_segment_ok :: "stm32_dfu_segment_t \<Rightarrow> bool" where
  "stored_segment_ok seg =
     (page_size seg \<noteq> 0 \<and>
      (\<exists>cnt :: u32. seg_end seg =
          seg_start seg + ucast ((ucast cnt :: u64) * ucast (page_size seg))))"

lemma parse_segment_size_ok:
  "fst (parse_segment_size a n s) = Some seg \<Longrightarrow> stored_segment_ok seg"
proof -
  assume h: "fst (parse_segment_size a n s) = Some seg"
  obtain p c where pc: "parse_size_bytes s = (p, c)"
    by (cases "parse_size_bytes s")
  from h pc have "p \<noteq> 0"
    by (auto simp: parse_segment_size_def split: if_splits)
  with h pc have "seg = \<lparr>seg_start = a,
      seg_end = a + ucast ((ucast n :: u64) * ucast p), page_size = p\<rparr>"
    by (simp add: parse_segment_size_def)
  with \<open>p \<noteq> 0\<close> show ?thesis
    unfolding stored_segment_ok_def by auto
qed

lemma parse_segment_count_ok:
  "fst (parse_segment_count a s) = Some seg \<Longrightarrow> stored_segment_ok seg"
proof -
  assume h: "fst (parse_segment_count a s) = Some seg"
  obtain n e where ne: "strtoul s 10 = (n, e)"
    by (cases "strtoul s 10")
  from h ne have "fst (parse_segment_size a n (tl e)) = Some seg"
    by (simp add: parse_segment_count_def split: if_splits)
  then show ?thesis
    by (rule parse_segment_size_ok)
qed

lemma parse_segment_ok:
  "fst (parse_segment s) = Some seg \<Longrightarrow> stored_segment_ok seg"
proof -
  assume h: "fst (parse_segment s) = Some seg"
  obtain a e where ae: "strtoul s 16 = (a, e)"
    by (cases "strtoul s 16")
  from h ae have "fst (parse_segment_count a (tl e)) = Some seg"
    by (simp add: parse_segment_def split: if_splits)
  then show ?thesis
    by (rule parse_segment_count_ok)
qed

lemma parse_layout_loop_ok:
  "(\<forall>seg\<in>set lay. stored_segment_ok seg) \<and> length lay \<le> 8 \<Longrightarrow>
   (\<forall>seg\<in>set (parse_layout_loop cursor lay). stored_segment_ok seg)
   \<and> length (parse_layout_loop cursor lay) \<le> 8"
proof (induction cursor lay rule: parse_layout_loop.induct)
  case (1 cursor lay)
  show ?case
  proof (cases "strchr cursor CHR ''/''")
    case None
    then show ?thesis
      using 1(2) by (simp add: parse_layout_loop.simps)
  next
    case (Some found)
    define lay' where "lay' = (case fst (parse_segment (tl found)) of
               None \<Rightarrow> lay
             | Some seg \<Rightarrow> if length lay < 8 then lay @ [seg] else lay)"
    have "(\<forall>seg\<in>set lay'. stored_segment_ok seg) \<and> length lay' \<le> 8"
      using 1(2) parse_segment_ok [of "tl found"]
      by (auto simp: lay'_def split: option.splits)
    then have "(\<forall>seg\<in>set (parse_layout_loop (snd (parse_segment (tl found))) lay').
                  stored_segment_ok seg)
               \<and> length (parse_layout_loop (snd (parse_segment (tl found))) lay') \<le> 8"
      unfolding lay'_def by (rule 1(1) [OF Some])
    moreover have "parse_layout_loop cursor lay
                   = parse_layout_loop (snd (parse_segment (tl found))) lay'"
      using Some by (subst parse_layout_loop.simps) (simp add: lay'_def)
    ultimately show ?thesis
      by simp
  qed
qed

lemma find_segment_Some:
  "find_segment lay a = Some s \<Longrightarrow> s \<in> set lay \<and> seg_start s \<le> a \<and> a < seg_end s"
  by (induction lay) (auto split: if_splits)

lemma find_segment_None:
  "find_segment lay a = None \<longleftrightarrow>
   (\<forall>s\<in>set lay. \<not> (seg_start s \<le> a \<and> a < seg_end s))"
  by (induction lay) (auto split: if_splits)

text \<open>
  C3, as the code has it. The result of \<open>parse_alt_memory_layout\<close> depends on the name
  alone, whatever the caller's layout held before. The string
  \<open>0x08000000/16*001Ka,112*001Kg\<close> yields no segment, because the loop looks for the
  address after a \<open>/\<close>; with a leading \<open>/\<close> it yields the one segment
  \<open>[0x08000000, 0x08004000)\<close> of page size 1024, the group after the comma being left
  unread; and two groups that each follow their own \<open>/0x...\<close> address yield
  \<open>[0x08000000, 0x08004000)\<close> and \<open>[0x08004000, 0x08020000)\<close>, both of page size 1024.
\<close>

theorem parse_alt_memory_layout_deterministic_examples:
  "(\<forall>name l1 l2. parse_alt_memory_layout name l1 = parse_alt_memory_layout name l2)
   \<and> parse_alt_memory_layout (Some ''0x08000000/16*001Ka,112*001Kg'') l = (False, [])
   \<and> parse_alt_memory_layout (Some ''/0x08000000/16*001Ka,112*001Kg'') l
       = (True, [\<lparr>seg_start = 0x08000000, seg_end = 0x08004000, page_size = 1024\<rparr>])
   \<and> parse_alt_memory_layout (Some ''/0x08000000/16*001Ka/0x08004000/112*001Kg'') l
       = (True, [\<lparr>seg_start = 0x08000000, seg_end = 0x08004000, page_size = 1024\<rparr>,
                 \<lparr>seg_start = 0x08004000, seg_end = 0x08020000, page_size = 1024\<rparr>])"
proof -
  have 1: "\<forall>name l1 l2. parse_alt_memory_layout name l1 = parse_alt_memory_layout name l2"
    by (simp add: parse_alt_memory_layout_def)
  have 2: "parse_alt_memory_layout (Some ''0x08000000/16*001Ka,112*001Kg'') l = (False, [])"
    by (simp add: parse_defs)
  have 3: "parse_alt_memory_layout (Some ''/0x08000000/16*001Ka,112*001Kg'') l
       = (True, [\<lparr>seg_start = 0x08000000, seg_end = 0x08004000, page_size = 1024\<rparr>])"
    by (simp add: parse_defs)
  have 4: "parse_alt_memory_layout (Some ''/0x08000000/16*001Ka/0x08004000/112*001Kg'') l
       = (True, [\<lparr>seg_start = 0x08000000, seg_end = 0x08004000, page_size = 1024\<rparr>,
                 \<lparr>seg_start = 0x08004000, seg_end = 0x08020000, page_size = 1024\<rparr>])"
    by (simp add: parse_defs)
  from 1 2 3 4 show ?thesis
    by blast
qed

text \<open>
  C3 as stated fails: the string of the claim does not yield the two segments
  \<open>[0x08000000, 0x08004000)\<close> and \<open>[0x08004000, 0x08022000)\<close>; it yields none.
\<close>

theorem parse_alt_memory_layout_example_counterexample:
  "snd (parse_alt_memory_layout (Some ''0x08000000/16*001Ka,112*001Kg'') [])
     \<noteq> [\<lparr>seg_start = 0x08000000, seg_end = 0x08004000, page_size = 1024\<rparr>,
         \<lparr>seg_start = 0x08004000, seg_end = 0x08022000, page_size = 1024\<rparr>]
   \<and> snd (parse_alt_memory_layout (Some ''0x08000000/16*001Ka,112*001Kg'') []) = []"
  by (simp add: parse_defs)

subsection \<open>The page counts of the stored segments\<close>

text \<open>
  The segment record does not keep the page count that \<open>strtoul\<close> read for it.
  \<open>group_count\<close> is that count, read at the cursor at which \<open>parse_segment\<close> starts, and
  \<open>stored_counts\<close> walks the string as \<open>parse_layout_loop\<close> does and collects, for every
  segment that is stored, the count of its group.
\<close>

definition group_count :: "string \<Rightarrow> u32" where
  "group_count cursor = fst (strtoul (tl (snd (strtoul cursor 16))) 10)"

function stored_counts :: "string \<Rightarrow> u32 list \<Rightarrow> u32 list" where
  "stored_counts cursor counts =
     (case strchr cursor CHR ''/'' of
        None \<Rightarrow> counts
      | Some found \<Rightarrow>
          stored_counts (snd (parse_segment (tl found)))
            (case fst (parse_segment (tl found)) of
               None \<Rightarrow> counts
             | Some seg \<Rightarrow>
                 if length counts < 8 then counts @ [group_count (tl found)] else counts))"
  by pat_completeness auto
termination
proof (relation "measure (\<lambda>(cursor, counts). length cursor)")
  show "wf (measure (\<lambda>(cursor, counts). length cursor))"
    by simp
next
  fix cursor :: string and counts :: "u32 list" and found
  assume "strchr cursor CHR ''/'' = Some found"
  then have "length found \<le> length cursor" and "found \<noteq> []"
    using strchr_length by blast+
  moreover have "length (snd (parse_segment (tl found))) \<le> length (tl found)"
    by (rule length_parse_segment)
  ultimately have "length (snd (parse_segment (tl found))) < length cursor"
    by (cases found) auto
  then show "((snd (parse_segment (tl found)),
               case fst (parse_segment (tl found)) of None \<Rightarrow> counts
               | Some seg \<Rightarrow> if length counts < 8 then counts @ [group_count (tl found)]
                             else counts),
              cursor, counts) \<in> measure (\<lambda>(cursor, counts). length cursor)"
    by simp
qed

declare stored_counts.simps [simp del]

definition stored_with_count :: "stm32_dfu_segment_t \<Rightarrow> u32 \<Rightarrow> bool" where
  "stored_with_count seg cnt =
     (page_size seg \<noteq> 0
      \<and> seg_end seg = seg_start seg + ucast ((ucast cnt :: u64) * ucast (page_size seg)))"

lemma parse_segment_size_count:
  "fst (parse_segment_size a n s) = Some seg \<Longrightarrow> stored_with_count seg n"
proof -
  assume h: "fst (parse_segment_size a n s) = Some seg"
  obtain p c where pc: "parse_size_bytes s = (p, c)"
    by (cases "parse_size_bytes s")
  from h pc have "p \<noteq> 0"
    by (auto simp: parse_segment_size_def split: if_splits)
  with h pc have "seg = \<lparr>seg_start = a,
      seg_end = a + ucast ((ucast n :: u64) * ucast p), page_size = p\<rparr>"
    by (simp add: parse_segment_size_def)
  with \<open>p \<noteq> 0\<close> show ?thesis
    unfolding stored_with_count_def by simp
qed

lemma parse_segment_count_count:
  "fst (parse_segment_count a s) = Some seg \<Longrightarrow> stored_with_count seg (fst (strtoul s 10))"
proof -
  assume h: "fst (parse_segment_count a s) = Some seg"
  obtain n e where ne: "strtoul s 10 = (n, e)"
    by (cases "strtoul s 10")
  from h ne have "fst (parse_segment_size a n (tl e)) = Some seg"
    by (simp add: parse_segment_count_def split: if_splits)
  then have "stored_with_count seg n"
    by (rule parse_segment_size_count)
  with ne show ?thesis
    by simp
qed

lemma parse_segment_group_count:
  "fst (parse_segment s) = Some seg \<Longrightarrow> stored_with_count seg (group_count s)"
proof -
  assume h: "fst (parse_segment s) = Some seg"
  obtain a e where ae: "strtoul s 16 = (a, e)"
    by (cases "strtoul s 16")
  from h ae have "fst (parse_segment_count a (tl e)) = Some seg"
    by (simp add: parse_segment_def split: if_splits)
  then have "stored_with_count seg (fst (strtoul (tl e) 10))"
    by (rule parse_segment_count_count)
  with ae show ?thesis
    by (simp add: group_count_def)
qed

lemma stored_counts_lockstep:
  "list_all2 stored_with_count lay counts \<Longrightarrow>
   list_all2 stored_with_count (parse_layout_loop cursor lay) (stored_counts cursor counts)"
proof (induction cursor lay arbitrary: counts rule: parse_layout_loop.induct)
  case (1 cursor lay)
  show ?case
  proof (cases "strchr cursor CHR ''/''")
    case None
    then show ?thesis
      using 1(2) by (simp add: parse_layout_loop.simps stored_counts.simps)
  next
    case (Some found)
    define lay' where "lay' = (case fst (parse_segment (tl found)) of
               None \<Rightarrow> lay
             | Some seg \<Rightarrow> if length lay < 8 then lay @ [seg] else lay)"
    define counts' where "counts' = (case fst (parse_segment (tl found)) of
               None \<Rightarrow> counts
             | Some seg \<Rightarrow> if length counts < 8 then counts @ [group_count (tl found)]
                           else counts)"
    have len: "length lay = length counts"
      using 1(2) by (rule list_all2_lengthD)
    have "list_all2 stored_with_count lay' counts'"
    proof (cases "fst (parse_segment (tl found))")
      case None
      then show ?thesis
        using 1(2) by (simp add: lay'_def counts'_def)
    next
      case (Some seg)
      then have "stored_with_count seg (group_count (tl found))"
        by (rule parse_segment_group_count)
      then show ?thesis
        using 1(2) Some len by (simp add: lay'_def counts'_def list_all2_appendI)
    qed
    then have "list_all2 stored_with_count
                 (parse_layout_loop (snd (parse_segment (tl found))) lay')
                 (stored_counts (snd (parse_segment (tl found))) counts')"
      unfolding lay'_def by (rule 1(1) [OF Some])
    moreover have "parse_layout_loop cursor lay
                   = parse_layout_loop (snd (parse_segment (tl found))) lay'"
      using Some by (subst parse_layout_loop.simps) (simp add: lay'_def)
    moreover have "stored_counts cursor counts
                   = stored_counts (snd (parse_segment (tl found))) counts'"
      using Some by (subst stored_counts.simps) (simp add: counts'_def)
    ultimately show ?thesis
      by simp
  qed
qed

lemma unat_segment_length:
  assumes "unat st + unat c * unat ps < 2^32" "c \<noteq> 0" "ps \<noteq> 0"
  defines "e \<equiv> st + ucast ((ucast (c::u32) :: u64) * ucast (ps::u32)) :: u32"
  shows "unat (e - st) = unat c * unat ps"
proof -
  have ue: "unat e = unat st + unat c * unat ps"
    unfolding e_def using assms(1) by (rule unat_segment_end)
  then have "st \<le> e"
    by (simp add: word_le_nat_alt)
  then show ?thesis
    using ue by (simp add: unat_sub)
qed

text \<open>
  C5, as the code has it. A layout holds at most 8 segments. Every stored segment, taken with
  the page count that the parser read for it, has a page size greater than zero and an end
  equal to start plus count times page size, reduced to 32 bits. When that count is not zero
  and start plus count times page size is below \<open>2^32\<close>, the segment has \<open>start < end\<close>, a
  length of count times page size, and so a length that is a multiple of the page size.
  Nothing is promised about overlaps: the parser does not compare segments.
\<close>

theorem parsed_segments_invariant:
  "parse_alt_memory_layout None l = (False, [])
   \<and> length (snd (parse_alt_memory_layout (Some name) l)) \<le> 8
   \<and> list_all2
        (\<lambda>seg cnt.
           page_size seg > 0
           \<and> seg_end seg = seg_start seg + ucast ((ucast cnt :: u64) * ucast (page_size seg))
           \<and> (cnt \<noteq> 0 \<and> unat (seg_start seg) + unat cnt * unat (page_size seg) < 2^32
                \<longrightarrow> seg_start seg < seg_end seg
                    \<and> (seg_end seg - seg_start seg) mod page_size seg = 0
                    \<and> unat (seg_end seg - seg_start seg) = unat cnt * unat (page_size seg)))
        (snd (parse_alt_memory_layout (Some name) l)) (stored_counts name [])"
proof -
  have 1: "parse_alt_memory_layout None l = (False, [])"
    by (simp add: parse_alt_memory_layout_def)
  have p: "snd (parse_alt_memory_layout (Some name) l) = parse_layout_loop name []"
    by (simp add: parse_alt_memory_layout_def Let_def)
  have 2: "length (parse_layout_loop name []) \<le> 8"
    using parse_layout_loop_ok [of "[]" name] by simp
  have 3: "list_all2 stored_with_count (parse_layout_loop name []) (stored_counts name [])"
    by (rule stored_counts_lockstep) simp
  have 4: "\<And>seg cnt. stored_with_count seg cnt \<Longrightarrow>
           page_size seg > 0
           \<and> seg_end seg = seg_start seg + ucast ((ucast cnt :: u64) * ucast (page_size seg))
           \<and> (cnt \<noteq> 0 \<and> unat (seg_start seg) + unat cnt * unat (page_size seg) < 2^32
                \<longrightarrow> seg_start seg < seg_end seg
                    \<and> (seg_end seg - seg_start seg) mod page_size seg = 0
                    \<and> unat (seg_end seg - seg_start seg) = unat cnt * unat (page_size seg))"
  proof -
    fix seg cnt
    assume ok: "stored_with_count seg cnt"
    then have ps: "page_size seg \<noteq> 0"
      and e: "seg_end seg = seg_start seg + ucast ((ucast cnt :: u64) * ucast (page_size seg))"
      unfolding stored_with_count_def by blast+
    have pos: "page_size seg > 0"
      using ps by (simp add: word_greater_zero_iff)
    have wf: "cnt \<noteq> 0 \<and> unat (seg_start seg) + unat cnt * unat (page_size seg) < 2^32
          \<longrightarrow> seg_start seg < seg_end seg
              \<and> (seg_end seg - seg_start seg) mod page_size seg = 0
              \<and> unat (seg_end seg - seg_start seg) = unat cnt * unat (page_size seg)"
      using segment_well_formed [of "seg_start seg" cnt "page_size seg"]
        unat_segment_length [of "seg_start seg" cnt "page_size seg"] ps
      unfolding e by blast
    from pos e wf show "page_size seg > 0
           \<and> seg_end seg = seg_start seg + ucast ((ucast cnt :: u64) * ucast (page_size seg))
           \<and> (cnt \<noteq> 0 \<and> unat (seg_start seg) + unat cnt * unat (page_size seg) < 2^32
                \<longrightarrow> seg_start seg < seg_end seg
                    \<and> (seg_end seg - seg_start seg) mod page_size seg = 0
                    \<and> unat (seg_end seg - seg_start seg) = unat cnt * unat (page_size seg))"
      by (intro conjI)
  qed
  have 5: "list_all2
        (\<lambda>seg cnt.
           page_size seg > 0
           \<and> seg_end seg = seg_start seg + ucast ((ucast cnt :: u64) * ucast (page_size seg))
           \<and> (cnt \<noteq> 0 \<and> unat (seg_start seg) + unat cnt * unat (page_size seg) < 2^32
                \<longrightarrow> seg_start seg < seg_end seg
                    \<and> (seg_end seg - seg_start seg) mod page_size seg = 0
                    \<and> unat (seg_end seg - seg_start seg) = unat cnt * unat (page_size seg)))
        (parse_layout_loop name []) (stored_counts name [])"
    using 3 by (rule list_all2_mono) (rule 4)
  from 1 2 5 show ?thesis
    unfolding p by (intro conjI)
qed

lemmas count_defs = stored_counts.simps group_count_def

text \<open>
  C5 on a string of one group: 16 pages of 1 KiB from \<open>0x08000000\<close>.
\<close>

theorem parsed_segments_invariant_witness:
  "snd (parse_alt_memory_layout (Some ''/0x08000000/16*001Ka'') [])
     = [\<lparr>seg_start = 0x08000000, seg_end = 0x08004000, page_size = 1024\<rparr>]
   \<and> stored_counts ''/0x08000000/16*001Ka'' [] = [16]
   \<and> unat (0x08000000 :: u32) + unat (16 :: u32) * unat (1024 :: u32) < 2^32
   \<and> (0x08000000 :: u32) < 0x08004000
   \<and> ((0x08004000 :: u32) - 0x08000000) mod 1024 = 0
   \<and> unat ((0x08004000 :: u32) - 0x08000000) = unat (16 :: u32) * unat (1024 :: u32)"
proof -
  have p: "snd (parse_alt_memory_layout (Some ''/0x08000000/16*001Ka'') [])
     = [\<lparr>seg_start = 0x08000000, seg_end = 0x08004000, page_size = 1024\<rparr>]"
    by (simp add: parse_defs)
  have c: "stored_counts ''/0x08000000/16*001Ka'' [] = [16]"
    by (simp add: count_defs parse_defs)
  have "unat (0x08000000 :: u32) + unat (16 :: u32) * unat (1024 :: u32) < 2^32
   \<longrightarrow> (0x08000000 :: u32) < 0x08004000
   \<and> ((0x08004000 :: u32) - 0x08000000) mod 1024 = 0
   \<and> unat ((0x08004000 :: u32) - 0x08000000) = unat (16 :: u32) * unat (1024 :: u32)"
    using parsed_segments_invariant [of "[]" "''/0x08000000/16*001Ka''"]
    unfolding p c by simp
  moreover have "unat (0x08000000 :: u32) + unat (16 :: u32) * unat (1024 :: u32) < 2^32"
    by simp
  ultimately show ?thesis
    using p c by blast
qed

text \<open>
  C5 as stated fails on four strings: a page count of 0 stores a segment whose start equals
  its end; a product of count and page size beyond 32 bits stores a segment whose length is
  not a multiple of its page size; a repeated group stores two overlapping segments; and a
  group that runs past the end of the address space stores a segment whose end is below its
  start.
\<close>

theorem parsed_segments_invariant_counterexample:
  "\<not> (\<forall>seg\<in>set (snd (parse_alt_memory_layout (Some ''/0x08000000/0*1K'') [])).
         seg_start seg < seg_end seg)
   \<and> \<not> (\<forall>seg\<in>set (snd (parse_alt_memory_layout (Some ''/0x0/1431655766*3'') [])).
         (seg_end seg - seg_start seg) mod page_size seg = 0)
   \<and> snd (parse_alt_memory_layout (Some ''/0x08000000/2*1K/0x08000000/2*1K'') [])
       = [\<lparr>seg_start = 0x08000000, seg_end = 0x08000800, page_size = 1024\<rparr>,
          \<lparr>seg_start = 0x08000000, seg_end = 0x08000800, page_size = 1024\<rparr>]
   \<and> \<not> (\<forall>seg\<in>set (snd (parse_alt_memory_layout (Some ''/0xFFFFFC00/2*1K'') [])).
         seg_start seg < seg_end seg)"
proof -
  have 1: "snd (parse_alt_memory_layout (Some ''/0x08000000/0*1K'') [])
           = [\<lparr>seg_start = 0x08000000, seg_end = 0x08000000, page_size = 1024\<rparr>]"
    by (simp add: parse_defs)
  have 2: "snd (parse_alt_memory_layout (Some ''/0x0/1431655766*3'') [])
           = [\<lparr>seg_start = 0, seg_end = 2, page_size = 3\<rparr>]"
    by (simp add: parse_defs)
  have 3: "snd (parse_alt_memory_layout (Some ''/0x08000000/2*1K/0x08000000/2*1K'') [])
       = [\<lparr>seg_start = 0x08000000, seg_end = 0x08000800, page_size = 1024\<rparr>,
          \<lparr>seg_start = 0x08000000, seg_end = 0x08000800, page_size = 1024\<rparr>]"
    by (simp add: parse_defs)
  have 4: "snd (parse_alt_memory_layout (Some ''/0xFFFFFC00/2*1K'') [])
           = [\<lparr>seg_start = 0xFFFFFC00, seg_end = 0x400, page_size = 1024\<rparr>]"
    by (simp add: parse_defs)
  show ?thesis
    unfolding 1 2 3 4 by simp
qed

section \<open>Properties of the state machine\<close>

text \<open>The reply of the device to the next \<open>GETSTATUS\<close>, the six bytes that
  \<open>dfu_get_status\<close> reads of it, and the events of the bus appended to a world.\<close>

definition getstatus_reply :: "env \<Rightarrow> world \<Rightarrow> usb_reply" where
  "getstatus_reply e w = device e (transfers w) GETSTATUS"

definition reply_buffer :: "usb_reply \<Rightarrow> u8 list" where
  "reply_buffer r = take 6 (reply_data r @ replicate 6 0)"

definition reply_timeout :: "usb_reply \<Rightarrow> u32" where
  "reply_timeout r = (ucast (reply_buffer r ! 1) :: u32)
                       OR push_bit 8 (ucast (reply_buffer r ! 2))
                       OR push_bit 16 (ucast (reply_buffer r ! 3))"

definition did :: "event list \<Rightarrow> world \<Rightarrow> world" where
  "did evs w = w\<lparr>transfers := transfers w + length (filter (\<lambda>ev. \<forall>ms. ev \<noteq> Sleep ms) evs),
                 wire := wire w @ evs\<rparr>"

lemma poll_eq:
  "wait_ready_poll e a w =
     (let r = getstatus_reply e w; w1 = did [Transfer GETSTATUS] w in
      if ret r = LIBUSB_ERROR_NO_DEVICE then (Some a, w1)
      else if ret r \<noteq> 6 then (Some False, set_status e (''Error: failed to read DFU status ('' @ libusb_error_name e (if ret r < 0 then ret r else LIBUSB_ERROR_IO) @ '')'') w1)
      else if reply_buffer r ! 0 \<noteq> 0
        then (Some False,
              set_status e (''Error: DFU status 0x'' @ fmt_X 2 (unat (reply_buffer r ! 0))
                            @ '' (state=0x'' @ fmt_X 2 (unat (reply_buffer r ! 4)) @ '')'')
                (did [Transfer GETSTATUS, Transfer CLRSTATUS] w))
      else if reply_buffer r ! 4 = 2 \<or> reply_buffer r ! 4 = 5 then (Some True, w1)
      else if reply_buffer r ! 4 = 6 \<or> reply_buffer r ! 4 = 7 \<or> reply_buffer r ! 4 = 8 then (Some a, w1)
      else if reply_buffer r ! 4 = 10 then (Some False, set_status e ''Error: DFU entered error state'' (did [Transfer GETSTATUS, Transfer CLRSTATUS] w))
      else (None, did [Transfer GETSTATUS, Sleep (if reply_timeout r > 0 then reply_timeout r else 5)] w))"
  by (simp add: wait_ready_poll_def dfu_get_status_def control_transfer_def Let_def
      getstatus_reply_def reply_buffer_def reply_timeout_def did_def dfu_clear_status_def
      sleep_def LIBUSB_ERROR_NO_DEVICE_def LIBUSB_SUCCESS_def LIBUSB_ERROR_IO_def
      DFU_STATE_dfuIDLE_def DFU_STATE_dfuDNLOAD_IDLE_def DFU_STATE_dfuMANIFEST_SYNC_def
      DFU_STATE_dfuMANIFEST_def DFU_STATE_dfuMANIFEST_WAIT_RESET_def DFU_STATE_dfuERROR_def)

lemma wait_ready_done:
  "wait_ready_poll e a w = (Some r, w1) \<Longrightarrow> dfu_wait_ready e a w = Some (r, w1)"
  by (subst dfu_wait_ready.simps) simp

lemma wait_ready_retry:
  "wait_ready_poll e a w = (None, w1) \<Longrightarrow> dfu_wait_ready e a w = dfu_wait_ready e a w1"
  by (subst dfu_wait_ready.simps) simp

text \<open>
  C2, as the code has it. \<open>dfu_wait_ready\<close> from a world \<open>w\<close>, by the reply of the device
  to \<open>GETSTATUS\<close>: a device that has vanished gives \<open>allow_manifest\<close>; any other failed
  or short read fails with a message; a status byte that is not zero sends one
  \<open>CLRSTATUS\<close> and fails with a message that holds the status and the state in hex;
  dfuIDLE and dfuDNLOAD_IDLE succeed; the three manifest states give \<open>allow_manifest\<close>;
  dfuERROR sends one \<open>CLRSTATUS\<close> and fails; any other state sleeps for the poll timeout
  of the device, or for 5 ms when that timeout is 0, and polls again.
\<close>

theorem dfu_wait_ready_cases:
  "(ret (getstatus_reply e w) = LIBUSB_ERROR_NO_DEVICE \<longrightarrow>
      dfu_wait_ready e a w = Some (a, did [Transfer GETSTATUS] w))
   \<and> (ret (getstatus_reply e w) \<noteq> LIBUSB_ERROR_NO_DEVICE \<and> ret (getstatus_reply e w) \<noteq> 6 \<longrightarrow>
      dfu_wait_ready e a w =
        Some (False,
          set_status e
            (''Error: failed to read DFU status (''
               @ libusb_error_name e
                   (if ret (getstatus_reply e w) < 0 then ret (getstatus_reply e w)
                    else LIBUSB_ERROR_IO) @ '')'')
            (did [Transfer GETSTATUS] w)))
   \<and> (ret (getstatus_reply e w) = 6 \<and> reply_buffer (getstatus_reply e w) ! 0 \<noteq> 0 \<longrightarrow>
      dfu_wait_ready e a w =
        Some (False,
          set_status e
            (''Error: DFU status 0x'' @ fmt_X 2 (unat (reply_buffer (getstatus_reply e w) ! 0))
               @ '' (state=0x'' @ fmt_X 2 (unat (reply_buffer (getstatus_reply e w) ! 4)) @ '')'')
            (did [Transfer GETSTATUS, Transfer CLRSTATUS] w)))
   \<and> (ret (getstatus_reply e w) = 6 \<and> reply_buffer (getstatus_reply e w) ! 0 = 0
        \<and> reply_buffer (getstatus_reply e w) ! 4 \<in> {DFU_STATE_dfuIDLE, DFU_STATE_dfuDNLOAD_IDLE} \<longrightarrow>
      dfu_wait_ready e a w = Some (True, did [Transfer GETSTATUS] w))
   \<and> (ret (getstatus_reply e w) = 6 \<and> reply_buffer (getstatus_reply e w) ! 0 = 0
        \<and> reply_buffer (getstatus_reply e w) ! 4
             \<in> {DFU_STATE_dfuMANIFEST_SYNC, DFU_STATE_dfuMANIFEST, DFU_STATE_dfuMANIFEST_WAIT_RESET} \<longrightarrow>
      dfu_wait_ready e a w = Some (a, did [Transfer GETSTATUS] w))
   \<and> (ret (getstatus_reply e w) = 6 \<and> reply_buffer (getstatus_reply e w) ! 0 = 0
        \<and> reply_buffer (getstatus_reply e w) ! 4 = DFU_STATE_dfuERROR \<longrightarrow>
      dfu_wait_ready e a w =
        Some (False,
          set_status e ''Error: DFU entered error state''
            (did [Transfer GETSTATUS, Transfer CLRSTATUS] w)))
   \<and> (ret (getstatus_reply e w) = 6 \<and> reply_buffer (getstatus_reply e w) ! 0 = 0
        \<and> reply_buffer (getstatus_reply e w) ! 4
             \<notin> {DFU_STATE_dfuIDLE, DFU_STATE_dfuDNLOAD_IDLE, DFU_STATE_dfuMANIFEST_SYNC,
                 DFU_STATE_dfuMANIFEST, DFU_STATE_dfuMANIFEST_WAIT_RESET, DFU_STATE_dfuERROR} \<longrightarrow>
      dfu_wait_ready e a w =
        dfu_wait_ready e a
          (did [Transfer GETSTATUS,
                Sleep (if reply_timeout (getstatus_reply e w) > 0
                       then reply_timeout (getstatus_reply e w) else 5)] w))"
proof -
  note states = DFU_STATE_dfuIDLE_def DFU_STATE_dfuDNLOAD_IDLE_def DFU_STATE_dfuMANIFEST_SYNC_def
      DFU_STATE_dfuMANIFEST_def DFU_STATE_dfuMANIFEST_WAIT_RESET_def DFU_STATE_dfuERROR_def
      LIBUSB_ERROR_NO_DEVICE_def
  show ?thesis
    by (intro conjI impI; (rule wait_ready_done | rule wait_ready_retry);
        auto simp add: poll_eq Let_def states)
qed

lemma fmt_X_2: "fmt_X 2 n = [hex_char (n div 16), hex_char n]"
proof -
  have e: "(2::nat) = Suc (Suc 0)"
    by simp
  show ?thesis
    unfolding e fmt_X.simps by simp
qed

lemma fmt_X_4:
  "fmt_X 4 n = [hex_char (n div 4096), hex_char (n div 256), hex_char (n div 16), hex_char n]"
proof -
  have e: "(4::nat) = Suc (Suc (Suc (Suc 0)))"
    by simp
  show ?thesis
    unfolding e fmt_X.simps by (simp add: div_mult2_eq [symmetric])
qed

lemma fmt_X_8:
  "fmt_X 8 n = [hex_char (n div 268435456), hex_char (n div 16777216), hex_char (n div 1048576),
     hex_char (n div 65536), hex_char (n div 4096), hex_char (n div 256), hex_char (n div 16),
     hex_char n]"
proof -
  have e: "(8::nat) = Suc (Suc (Suc (Suc (Suc (Suc (Suc (Suc 0)))))))"
    by simp
  show ?thesis
    unfolding e fmt_X.simps by (simp add: div_mult2_eq [symmetric])
qed

definition probe :: "usb_reply \<Rightarrow> env" where
  "probe r = \<lparr>cb = True, ctx = None, status_buf = True, status_buf_len = 64,
     firmware = \<lparr>path_ok = True, open_ok = True, seek_ok = True, file_size = 0,
        alloc_ok = True, read_bytes = []\<rparr>,
     init_ret = 0, enumerate = (\<lambda>n. Inr []), libusb_error_name = (\<lambda>c. ''LIBUSB_ERROR''),
     chunk_alloc_ok = True, device = (\<lambda>i req. r)\<rparr>"

definition world0 :: world where
  "world0 = \<lparr>transfers = 0, wire = [], status_text = [], status_log = [], progress_log = []\<rparr>"

lemmas probe_simps = probe_def world0_def getstatus_reply_def reply_buffer_def reply_timeout_def
  did_def set_status_def notify_status_def resolve_client_def truncate_to_def
  LIBUSB_ERROR_NO_DEVICE_def LIBUSB_ERROR_IO_def
  DFU_STATE_dfuIDLE_def DFU_STATE_dfuDNLOAD_IDLE_def DFU_STATE_dfuMANIFEST_SYNC_def
  DFU_STATE_dfuMANIFEST_def DFU_STATE_dfuMANIFEST_WAIT_RESET_def DFU_STATE_dfuERROR_def

text \<open>
  The cases of C2 on devices that give one fixed reply.
\<close>

theorem dfu_wait_ready_cases_witness:
  "dfu_wait_ready (probe \<lparr>ret = - 4, reply_data = []\<rparr>) False world0
     = Some (False, world0\<lparr>transfers := 1, wire := [Transfer GETSTATUS]\<rparr>)
   \<and> dfu_wait_ready (probe \<lparr>ret = - 4, reply_data = []\<rparr>) True world0
     = Some (True, world0\<lparr>transfers := 1, wire := [Transfer GETSTATUS]\<rparr>)
   \<and> dfu_wait_ready (probe \<lparr>ret = - 7, reply_data = []\<rparr>) True world0
     = Some (False, world0\<lparr>transfers := 1, wire := [Transfer GETSTATUS],
           status_text := ''Error: failed to read DFU status (LIBUSB_ERROR)''\<rparr>)
   \<and> dfu_wait_ready (probe \<lparr>ret = 6, reply_data = [0x0A, 0, 0, 0, 4, 0]\<rparr>) True world0
     = Some (False, world0\<lparr>transfers := 2, wire := [Transfer GETSTATUS, Transfer CLRSTATUS],
           status_text := ''Error: DFU status 0x0A (state=0x04)''\<rparr>)
   \<and> dfu_wait_ready (probe \<lparr>ret = 6, reply_data = [0, 0, 0, 0, 5, 0]\<rparr>) False world0
     = Some (True, world0\<lparr>transfers := 1, wire := [Transfer GETSTATUS]\<rparr>)
   \<and> dfu_wait_ready (probe \<lparr>ret = 6, reply_data = [0, 0, 0, 0, 7, 0]\<rparr>) False world0
     = Some (False, world0\<lparr>transfers := 1, wire := [Transfer GETSTATUS]\<rparr>)
   \<and> dfu_wait_ready (probe \<lparr>ret = 6, reply_data = [0, 0, 0, 0, 10, 0]\<rparr>) False world0
     = Some (False, world0\<lparr>transfers := 2, wire := [Transfer GETSTATUS, Transfer CLRSTATUS],
           status_text := ''Error: DFU entered error state''\<rparr>)
   \<and> dfu_wait_ready (probe \<lparr>ret = 6, reply_data = [0, 0x2C, 1, 0, 4, 0]\<rparr>) False world0
     = dfu_wait_ready (probe \<lparr>ret = 6, reply_data = [0, 0x2C, 1, 0, 4, 0]\<rparr>) False
         (world0\<lparr>transfers := 1, wire := [Transfer GETSTATUS, Sleep 300]\<rparr>)"
proof -
  have 1: "dfu_wait_ready (probe \<lparr>ret = - 4, reply_data = []\<rparr>) False world0
     = Some (False, world0\<lparr>transfers := 1, wire := [Transfer GETSTATUS]\<rparr>)"
    using dfu_wait_ready_cases [of "probe \<lparr>ret = - 4, reply_data = []\<rparr>" world0 False]
    by (simp add: probe_simps)
  have 2: "dfu_wait_ready (probe \<lparr>ret = - 4, reply_data = []\<rparr>) True world0
     = Some (True, world0\<lparr>transfers := 1, wire := [Transfer GETSTATUS]\<rparr>)"
    using dfu_wait_ready_cases [of "probe \<lparr>ret = - 4, reply_data = []\<rparr>" world0 True]
    by (simp add: probe_simps)
  have 3: "dfu_wait_ready (probe \<lparr>ret = - 7, reply_data = []\<rparr>) True world0
     = Some (False, world0\<lparr>transfers := 1, wire := [Transfer GETSTATUS],
           status_text := ''Error: failed to read DFU status (LIBUSB_ERROR)''\<rparr>)"
    using dfu_wait_ready_cases [of "probe \<lparr>ret = - 7, reply_data = []\<rparr>" world0 True]
    by (simp add: probe_simps)
  have 4: "dfu_wait_ready (probe \<lparr>ret = 6, reply_data = [0x0A, 0, 0, 0, 4, 0]\<rparr>) True world0
     = Some (False, world0\<lparr>transfers := 2, wire := [Transfer GETSTATUS, Transfer CLRSTATUS],
           status_text := ''Error: DFU status 0x0A (state=0x04)''\<rparr>)"
    using dfu_wait_ready_cases [of "probe \<lparr>ret = 6, reply_data = [0x0A, 0, 0, 0, 4, 0]\<rparr>" world0 True]
    by (simp add: probe_simps hex_char_def fmt_X_2)
  have 5: "dfu_wait_ready (probe \<lparr>ret = 6, reply_data = [0, 0, 0, 0, 5, 0]\<rparr>) False world0
     = Some (True, world0\<lparr>transfers := 1, wire := [Transfer GETSTATUS]\<rparr>)"
    using dfu_wait_ready_cases [of "probe \<lparr>ret = 6, reply_data = [0, 0, 0, 0, 5, 0]\<rparr>" world0 False]
    by (simp add: probe_simps)
  have 6: "dfu_wait_ready (probe \<lparr>ret = 6, reply_data = [0, 0, 0, 0, 7, 0]\<rparr>) False world0
     = Some (False, world0\<lparr>transfers := 1, wire := [Transfer GETSTATUS]\<rparr>)"
    using dfu_wait_ready_cases [of "probe \<lparr>ret = 6, reply_data = [0, 0, 0, 0, 7, 0]\<rparr>" world0 False]
    by (simp add: probe_simps)
  have 7: "dfu_wait_ready (probe \<lparr>ret = 6, reply_data = [0, 0, 0, 0, 10, 0]\<rparr>) False world0
     = Some (False, world0\<lparr>transfers := 2, wire := [Transfer GETSTATUS, Transfer CLRSTATUS],
           status_text := ''Error: DFU entered error state''\<rparr>)"
    using dfu_wait_ready_cases [of "probe \<lparr>ret = 6, reply_data = [0, 0, 0, 0, 10, 0]\<rparr>" world0 False]
    by (simp add: probe_simps)
  have 8: "dfu_wait_ready (probe \<lparr>ret = 6, reply_data = [0, 0x2C, 1, 0, 4, 0]\<rparr>) False world0
     = dfu_wait_ready (probe \<lparr>ret = 6, reply_data = [0, 0x2C, 1, 0, 4, 0]\<rparr>) False
         (world0\<lparr>transfers := 1, wire := [Transfer GETSTATUS, Sleep 300]\<rparr>)"
    using dfu_wait_ready_cases [of "probe \<lparr>ret = 6, reply_data = [0, 0x2C, 1, 0, 4, 0]\<rparr>" world0 False]
    by (simp add: probe_simps)
  from 1 2 3 4 5 6 7 8 show ?thesis
    by blast
qed

definition busy_then_idle :: "u8 \<Rightarrow> env" where
  "busy_then_idle t =
     (probe \<lparr>ret = 6, reply_data = [0, 0, 0, 0, 5, 0]\<rparr>)
       \<lparr>device := (\<lambda>i req. if i = 0 then \<lparr>ret = 6, reply_data = [0, t, 0, 0, 4, 0]\<rparr>
                            else \<lparr>ret = 6, reply_data = [0, 0, 0, 0, 5, 0]\<rparr>)\<rparr>"

text \<open>
  C2 as stated fails on the sleep: a device that reports dfuDNBUSY with a poll timeout of
  2 ms is polled again after 2 ms, not after the 5 ms that \<open>max 2 5\<close> gives.
\<close>

theorem dfu_wait_ready_short_poll_counterexample:
  "dfu_wait_ready (busy_then_idle 2) False world0
     = Some (True, world0\<lparr>transfers := 2,
                          wire := [Transfer GETSTATUS, Sleep 2, Transfer GETSTATUS]\<rparr>)
   \<and> max (2 :: u32) 5 = 5"
proof -
  let ?w1 = "world0\<lparr>transfers := 1, wire := [Transfer GETSTATUS, Sleep 2]\<rparr>"
  have 1: "wait_ready_poll (busy_then_idle 2) False world0 = (None, ?w1)"
    by (simp add: poll_eq busy_then_idle_def probe_simps)
  have 2: "wait_ready_poll (busy_then_idle 2) False ?w1
             = (Some True, world0\<lparr>transfers := 2,
                  wire := [Transfer GETSTATUS, Sleep 2, Transfer GETSTATUS]\<rparr>)"
    by (simp add: poll_eq busy_then_idle_def probe_simps)
  show ?thesis
    using wait_ready_retry [OF 1] wait_ready_done [OF 2] by simp
qed

section \<open>What a run sends and reports\<close>

text \<open>The \<open>DNLOAD\<close> requests on the wire, the sink of the progress values, and the
  relation \<open>effect\<close> of a step: the requests it adds, the progress values it reports,
  and a status text that stays set once it is.\<close>

fun dnloads :: "event list \<Rightarrow> (u16 \<times> u8 list) list" where
  "dnloads [] = []"
| "dnloads (Transfer (DNLOAD b p) # evs) = (b, p) # dnloads evs"
| "dnloads (ev # evs) = dnloads evs"

definition has_progress_sink :: "env \<Rightarrow> bool" where
  "has_progress_sink e =
     ((case resolve_client (ctx e) of None \<Rightarrow> False | Some client \<Rightarrow> progress_cb client) \<or> cb e)"

definition sink :: "env \<Rightarrow> int list \<Rightarrow> int list" where
  "sink e ps = (if has_progress_sink e then ps else [])"

definition status_set :: "env \<Rightarrow> world \<Rightarrow> bool" where
  "status_set e w =
     (\<not> (status_buf e \<and> 2 \<le> status_buf_len e)
      \<or> (status_text w \<noteq> [] \<and> length (status_text w) < status_buf_len e))"

definition effect :: "env \<Rightarrow> (u16 \<times> u8 list) list \<Rightarrow> int list \<Rightarrow> world \<Rightarrow> world \<Rightarrow> bool" where
  "effect e X P w w' =
     (dnloads (wire w') = dnloads (wire w) @ X
      \<and> progress_log w' = progress_log w @ sink e P
      \<and> (\<not> status_set e w \<or> status_set e w'))"

lemma dnloads_append: "dnloads (xs @ ys) = dnloads xs @ dnloads ys"
  by (induction xs rule: dnloads.induct) simp_all

lemma sink_append: "sink e (ps @ qs) = sink e ps @ sink e qs"
  by (simp add: sink_def)

lemma sink_Nil: "sink e [] = []"
  by (simp add: sink_def)

lemma effect_refl: "effect e [] [] w w"
  by (simp add: effect_def sink_def)

lemma effect_trans:
  "effect e X P w w1 \<Longrightarrow> effect e Y Q w1 w2 \<Longrightarrow> effect e (X @ Y) (P @ Q) w w2"
  by (auto simp: effect_def sink_append)

lemma effect_trans0:
  "effect e X P w w1 \<Longrightarrow> effect e [] [] w1 w2 \<Longrightarrow> effect e X P w w2"
  using effect_trans [of e X P w w1 "[]" "[]" w2] by simp

lemma effect_trans0':
  "effect e [] [] w w1 \<Longrightarrow> effect e X P w1 w2 \<Longrightarrow> effect e X P w w2"
  using effect_trans [of e "[]" "[]" w w1 X P w2] by simp

lemma notify_status_fields:
  "wire (notify_status e m w) = wire w" "progress_log (notify_status e m w) = progress_log w"
  "status_text (notify_status e m w) = status_text w" "transfers (notify_status e m w) = transfers w"
  by (simp_all add: notify_status_def split: option.splits)

lemma set_status_fields:
  "wire (set_status e m w) = wire w" "progress_log (set_status e m w) = progress_log w"
  "transfers (set_status e m w) = transfers w"
  by (simp_all add: set_status_def notify_status_fields)

lemma status_set_set_status: "m \<noteq> [] \<Longrightarrow> status_set e (set_status e m w)"
  by (cases m) (auto simp: status_set_def set_status_def notify_status_fields truncate_to_def)

lemma effect_set_status: "m \<noteq> [] \<Longrightarrow> effect e [] [] w (set_status e m w)"
  using status_set_set_status [of m e w]
  by (simp add: effect_def set_status_fields sink_def)

lemma report_progress_eq:
  "report_progress e p w = (if has_progress_sink e then w\<lparr>progress_log := progress_log w @ [p]\<rparr> else w)"
  by (auto simp: report_progress_def has_progress_sink_def split: option.splits)

lemma effect_report_progress: "effect e [] [p] w (report_progress e p w)"
  by (simp add: effect_def report_progress_eq sink_def status_set_def)

lemma effect_did:
  "effect e (dnloads evs) [] w (did evs w)"
  by (simp add: effect_def did_def dnloads_append sink_def status_set_def)

lemma effect_sleep: "effect e [] [] w (sleep ms w)"
  by (simp add: effect_def sleep_def dnloads_append sink_def status_set_def)

lemma control_transfer_did: "snd (control_transfer e req w) = did [Transfer req] w"
  by (simp add: control_transfer_def did_def)

lemma effect_poll: "effect e [] [] w (snd (wait_ready_poll e a w))"
proof -
  have 1: "effect e [] [] w (did [Transfer GETSTATUS] w)"
    using effect_did [of e "[Transfer GETSTATUS]" w] by simp
  have 2: "effect e [] [] w (did [Transfer GETSTATUS, Transfer CLRSTATUS] w)"
    using effect_did [of e "[Transfer GETSTATUS, Transfer CLRSTATUS]" w] by simp
  have 3: "\<And>ms. effect e [] [] w (did [Transfer GETSTATUS, Sleep ms] w)"
    using effect_did [of e "[Transfer GETSTATUS, Sleep _]" w] by simp
  have 4: "\<And>m v. m \<noteq> [] \<Longrightarrow> effect e [] [] w v \<Longrightarrow> effect e [] [] w (set_status e m v)"
    using effect_set_status effect_trans0 by blast
  show ?thesis
    unfolding poll_eq Let_def using 1 2 3 by (auto intro!: 4)
qed

lemma effect_wait_ready_aux:
  assumes "dfu_wait_ready e a w = Some y"
  shows "effect e [] [] w (snd y)"
  using assms
proof (induction e a w y rule: dfu_wait_ready.raw_induct [rotated, consumes 1])
  case (1 f e a w y)
  obtain r w1 where p: "wait_ready_poll e a w = (r, w1)"
    by (cases "wait_ready_poll e a w")
  have e1: "effect e [] [] w w1"
    using effect_poll [of e w a] p by simp
  show ?case
  proof (cases r)
    case None
    with 1(2) p have "f e a w1 = Some y"
      by simp
    then have "effect e [] [] w1 (snd y)"
      by (rule 1(1))
    with e1 show ?thesis
      by (rule effect_trans0)
  next
    case (Some b)
    with 1(2) p have "snd y = w1"
      by auto
    with e1 show ?thesis
      by simp
  qed
qed

lemma effect_wait_ready:
  "dfu_wait_ready e a w = Some (ok, w') \<Longrightarrow> effect e [] [] w w'"
  using effect_wait_ready_aux [of e a w "(ok, w')"] by simp

lemma effect_download_block:
  "dfu_download_block e b p a w = Some (ok, w') \<Longrightarrow> effect e [(b, p)] [] w w'"
proof -
  assume h: "dfu_download_block e b p a w = Some (ok, w')"
  define w1 where "w1 = did [Transfer (DNLOAD b p)] w"
  have e1: "effect e [(b, p)] [] w w1"
    unfolding w1_def using effect_did [of e "[Transfer (DNLOAD b p)]" w] by simp
  have ct: "control_transfer e (DNLOAD b p) w = (device e (transfers w) (DNLOAD b p), w1)"
    by (simp add: control_transfer_def w1_def did_def)
  from h ct have "(\<exists>m. m \<noteq> [] \<and> w' = set_status e m w1) \<or> dfu_wait_ready e a w1 = Some (ok, w')"
    by (auto simp: dfu_download_block_def split: if_splits)
  then have "effect e [] [] w1 w'"
    using effect_set_status effect_wait_ready by blast
  with e1 show ?thesis
    by (rule effect_trans0)
qed

lemma effect_special_command:
  "dfu_send_special_command e c addr len a w = Some (ok, w') \<Longrightarrow>
   effect e [(0, take (if unat len > 5 then 5 else unat len) (special_payload c addr))] [] w w'"
  unfolding dfu_send_special_command_def Let_def by (rule effect_download_block)

lemma effect_set_address_pointer:
  "dfu_set_address_pointer e addr w = Some (ok, w') \<Longrightarrow>
   effect e [(0, special_payload 0x21 addr)] [] w w'"
  using effect_special_command [of e "0x21" addr 5 False w ok w']
  by (simp add: dfu_set_address_pointer_def special_payload_def)

lemma effect_mass_erase:
  "dfu_mass_erase e w = Some (ok, w') \<Longrightarrow> effect e [(0, [0x41])] [] w w'"
  using effect_special_command [of e "0x41" 0 1 False w ok w']
  by (simp add: dfu_mass_erase_def special_payload_def)

lemma effect_prepare_idle:
  "dfu_prepare_idle e w = Some (ok, w') \<Longrightarrow> effect e [] [] w w'"
proof -
  assume h: "dfu_prepare_idle e w = Some (ok, w')"
  then obtain ok1 w1 where 1: "dfu_wait_ready e True w = Some (ok1, w1)"
    by (auto simp: dfu_prepare_idle_def split: option.splits)
  then have e1: "effect e [] [] w w1"
    by (rule effect_wait_ready)
  show ?thesis
  proof (cases ok1)
    case True
    with h 1 have "w' = w1"
      by (simp add: dfu_prepare_idle_def)
    with e1 show ?thesis
      by simp
  next
    case False
    with h 1 have 2: "dfu_wait_ready e True (sleep 5 (dfu_abort e w1)) = Some (ok, w')"
      by (simp add: dfu_prepare_idle_def)
    have "effect e [] [] w1 (dfu_abort e w1)"
      using effect_did [of e "[Transfer ABORT]" w1]
      by (simp add: dfu_abort_def control_transfer_did)
    then have "effect e [] [] w1 (sleep 5 (dfu_abort e w1))"
      using effect_sleep effect_trans0 by blast
    then have "effect e [] [] w1 w'"
      using effect_wait_ready [OF 2] effect_trans0 by blast
    with e1 show ?thesis
      by (rule effect_trans0)
  qed
qed

section \<open>A device that is always ready\<close>

text \<open>A device that answers every \<open>GETSTATUS\<close> with dfuDNLOAD_IDLE and takes every
  block whole, and a bus that holds one such device.\<close>

definition ready_device :: "env \<Rightarrow> bool" where
  "ready_device e =
     (\<forall>i. device e i GETSTATUS = \<lparr>ret = 6, reply_data = [0, 0, 0, 0, 5, 0]\<rparr>
          \<and> (\<forall>b p. ret (device e i (DNLOAD b p)) = int (length p)))"

lemma did_did: "did xs (did ys w) = did (ys @ xs) w"
  by (simp add: did_def)

lemma ready_wait_ready:
  "ready_device e \<Longrightarrow> dfu_wait_ready e a w = Some (True, did [Transfer GETSTATUS] w)"
  by (rule wait_ready_done)
     (simp add: poll_eq Let_def ready_device_def getstatus_reply_def reply_buffer_def
        LIBUSB_ERROR_NO_DEVICE_def)

lemma ready_download_block:
  "ready_device e \<Longrightarrow>
   dfu_download_block e b p a w = Some (True, did [Transfer (DNLOAD b p), Transfer GETSTATUS] w)"
  by (simp add: dfu_download_block_def control_transfer_def ready_wait_ready)
     (simp add: ready_device_def did_def)

lemma ready_prepare_idle:
  "ready_device e \<Longrightarrow> dfu_prepare_idle e w = Some (True, did [Transfer GETSTATUS] w)"
  by (simp add: dfu_prepare_idle_def ready_wait_ready)

lemma ready_special_command:
  "ready_device e \<Longrightarrow>
   dfu_send_special_command e c addr len a w
     = Some (True, did [Transfer (DNLOAD 0 (take (if unat len > 5 then 5 else unat len)
                                              (special_payload c addr))),
                        Transfer GETSTATUS] w)"
  by (simp add: dfu_send_special_command_def Let_def ready_download_block)

definition ideal :: "nat \<Rightarrow> usb_request \<Rightarrow> usb_reply" where
  "ideal i req = (case req of
      GETSTATUS \<Rightarrow> \<lparr>ret = 6, reply_data = [0, 0, 0, 0, 5, 0]\<rparr>
    | DNLOAD b p \<Rightarrow> \<lparr>ret = int (length p), reply_data = []\<rparr>
    | _ \<Rightarrow> \<lparr>ret = 0, reply_data = []\<rparr>)"

definition alt0 :: "string \<Rightarrow> u8 list \<Rightarrow> usb_device" where
  "alt0 name ex = \<lparr>descriptor_ok = True, idVendor = 0x0483, idProduct = 0xDF11, open_ret = 0,
     config = Some [[\<lparr>bInterfaceClass = 0xFE, bInterfaceSubClass = 1, bInterfaceProtocol = 2,
        bInterfaceNumber = 0, bAlternateSetting = 0, iInterface = 4, extra = ex\<rparr>]],
     string_descriptor = (\<lambda>_. name), claim_ret = 0, set_alt_ret = 0\<rparr>"

definition env0 :: "string \<Rightarrow> u8 list \<Rightarrow> u8 list \<Rightarrow> env" where
  "env0 name ex fw = \<lparr>cb = True, ctx = None, status_buf = True, status_buf_len = 64,
     firmware = \<lparr>path_ok = True, open_ok = True, seek_ok = True, file_size = int (length fw),
        alloc_ok = True, read_bytes = fw\<rparr>,
     init_ret = 0, enumerate = (\<lambda>_. Inr [alt0 name ex]), libusb_error_name = (\<lambda>_. ''ERR''),
     chunk_alloc_ok = True, device = ideal\<rparr>"

lemma ready_env0: "ready_device (env0 name ex fw)"
  by (simp add: ready_device_def env0_def ideal_def)

lemma discovery0:
  "wait_for_loop (env0 [] [9, 0x21, 0, 0, 0, 2, 0, 0, 0] fw) 10000 0 ([], w)
   = (Some (zero_device\<lparr>handle := True, transfer_size := 2, last_erased_page := 0xFFFFFFFF\<rparr>), [], w)"
  by (simp add: wait_for_loop.simps open_stm32_dfu_device_once_def env0_def alt0_def
      select_dfu_interface_def is_dfu_alt_def select_alt_def LIBUSB_CLASS_APPLICATION_def
      STM32_VENDOR_ID_def STM32_PRODUCT_ID_def LIBUSB_SUCCESS_def truncate_to_def
      parse_transfer_size_def parse_transfer_size_loop.simps zero_device_def parse_defs)

subsection \<open>A run of three bytes in blocks of two\<close>

lemmas status_simps = set_status_def notify_status_def resolve_client_def truncate_to_def
  report_progress_def did_def

lemma run0:
  "dfu_loader_flash (env0 [] [9, 0x21, 0, 0, 0, 2, 0, 0, 0] [1, 2, 3]) world0 =
   Some (True,
   \<lparr>transfers = 16,
      wire =
        [Transfer GETSTATUS, Transfer (DNLOAD 0 [65]), Transfer GETSTATUS,
         Transfer GETSTATUS, Transfer (DNLOAD 0 [33, 0, 0, 0, 8]),
         Transfer GETSTATUS, Transfer (DNLOAD 0 [33, 0, 0, 0, 8]),
         Transfer GETSTATUS, Transfer (DNLOAD 2 [1, 2]), Transfer GETSTATUS,
         Transfer (DNLOAD 0 [33, 2, 0, 0, 8]), Transfer GETSTATUS,
         Transfer (DNLOAD 2 [3, 255]), Transfer GETSTATUS,
         Transfer (DNLOAD 2 []), Transfer GETSTATUS],
      status_text = ''Firmware written, device restarting'',
      status_log = [], progress_log = [0, 3, 5, 65, 95, 99, 100]\<rparr>)"
proof -
  let ?e = "env0 [] [9, 0x21, 0, 0, 0, 2, 0, 0, 0] [1, 2, 3]"
  have r: "ready_device ?e"
    by (rule ready_env0)
  have f: "cb ?e = True" "ctx ?e = None" "status_buf ?e = True" "status_buf_len ?e = 64"
    "firmware ?e = \<lparr>path_ok = True, open_ok = True, seek_ok = True, file_size = 3,
        alloc_ok = True, read_bytes = [1, 2, 3]\<rparr>" "init_ret ?e = 0" "chunk_alloc_ok ?e = True"
    by (simp_all add: env0_def)
  note rd = ready_wait_ready [OF r] ready_download_block [OF r] ready_prepare_idle [OF r]
    ready_special_command [OF r]
  show ?thesis
    by (simp add: dfu_loader_flash_def flash_run_def flash_cleanup_def flash_device_def
        flash_erase_phase_def flash_write_phase_def load_firmware_file_def
        wait_for_stm32_dfu_device_def discovery0 write_loop.simps write_chunk_def write_chunk_erase_def write_chunk_send_def segment_at_def chunk_len_def chunk_address_def
        dfu_mass_erase_def dfu_set_address_pointer_def rd f status_simps world0_def
        LIBUSB_SUCCESS_def zero_device_def chunk_size_of_def chunk_payload_def
        progress_percent_def special_payload_def STM32_BASE_ADDRESS_def fmt_X_8 hex_char_def
        fmt_u.simps Let_def)
qed

section \<open>Properties of the erase planner\<close>

definition erase_cmd :: "u32 \<Rightarrow> u16 \<times> u8 list" where
  "erase_cmd page = (0, special_payload 0x41 page)"

lemma length_special_payload: "length (special_payload c a) = 5"
  by (simp add: special_payload_def)

lemma distinct_adj_chain:
  "distinct_adj (l # ps1) \<Longrightarrow> distinct_adj (last (l # ps1) # ps2) \<Longrightarrow>
   distinct_adj (l # ps1 @ ps2)"
proof -
  assume a: "distinct_adj (l # ps1)" and b: "distinct_adj (last (l # ps1) # ps2)"
  from b have "ps2 = [] \<or> last (l # ps1) \<noteq> hd ps2 \<and> distinct_adj ps2"
    by (simp only: distinct_adj_Cons)
  with a have "distinct_adj ((l # ps1) @ ps2)"
    by (simp only: distinct_adj_append_iff) auto
  then show ?thesis
    by simp
qed

lemma last_chain: "last (last (l # ps1) # ps2) = last (l # ps1 @ ps2)"
  by (cases ps2) simp_all

definition erased :: "env \<Rightarrow> stm32_dfu_device_t \<Rightarrow> world \<Rightarrow> u32 list
   \<Rightarrow> bool \<times> stm32_dfu_device_t \<times> world \<Rightarrow> bool" where
  "erased e dev w pages y =
     (effect e (map erase_cmd pages) [] w (snd (snd y))
      \<and> distinct_adj (last_erased_page dev # pages)
      \<and> (\<not> fst y \<or> last_erased_page (fst (snd y)) = last (last_erased_page dev # pages))
      \<and> (\<exists>l. fst (snd y) = dev\<lparr>last_erased_page := l\<rparr>))"

lemma self_update: "\<exists>l. (dev :: stm32_dfu_device_t) = dev\<lparr>last_erased_page := l\<rparr>"
  by (rule exI [of _ "last_erased_page dev"]) simp

lemma erased_Nil: "effect e [] [] w w' \<Longrightarrow> erased e dev w [] (ok, dev, w')"
  unfolding erased_def using self_update [of dev] by simp

lemma erased_chain:
  assumes 1: "erased e dev w ps1 (True, dev1, w1)"
    and 2: "erased e dev1 w1 ps2 y"
  shows "erased e dev w (ps1 @ ps2) y"
proof -
  from 1 have l1: "last_erased_page dev1 = last (last_erased_page dev # ps1)"
    and d1: "distinct_adj (last_erased_page dev # ps1)"
    and e1: "effect e (map erase_cmd ps1) [] w w1"
    by (simp_all add: erased_def)
  from 1 obtain l where dl: "dev1 = dev\<lparr>last_erased_page := l\<rparr>"
    by (auto simp: erased_def)
  from 2 have e2: "effect e (map erase_cmd ps2) [] w1 (snd (snd y))"
    and d2: "distinct_adj (last_erased_page dev1 # ps2)"
    and l2: "\<not> fst y \<or> last_erased_page (fst (snd y)) = last (last_erased_page dev1 # ps2)"
    by (simp_all add: erased_def)
  from 2 obtain l' where dl': "fst (snd y) = dev1\<lparr>last_erased_page := l'\<rparr>"
    by (auto simp: erased_def)
  have a: "effect e (map erase_cmd (ps1 @ ps2)) [] w (snd (snd y))"
    using effect_trans [OF e1 e2] by simp
  have b: "distinct_adj (last_erased_page dev # ps1 @ ps2)"
    using d1 d2 unfolding l1 by (rule distinct_adj_chain)
  have c: "\<not> fst y \<or> last_erased_page (fst (snd y)) = last (last_erased_page dev # ps1 @ ps2)"
    using l2 unfolding l1 last_chain .
  have d: "fst (snd y) = dev\<lparr>last_erased_page := l'\<rparr>"
    unfolding dl' dl by simp
  from a b c d show ?thesis
    unfolding erased_def by blast
qed

lemma erase_pages_erased:
  assumes "erase_pages e seg rend pb dev w = Some y"
  shows "\<exists>pages. erased e dev w pages y"
  using assms
proof (induction e seg rend pb dev w y rule: erase_pages.raw_induct [rotated, consumes 1])
  case (1 f e seg rend pb dev w y)
  show ?case
  proof (cases "pb < seg_end seg \<and> pb < rend")
    case False
    with 1(2) have "y = (True, dev, w)"
      by auto
    then show ?thesis
      using erased_Nil [OF effect_refl] by blast
  next
    case c: True
    show ?thesis
    proof (cases "last_erased_page dev = pb")
      case True
      with c 1(2) have "f e seg rend (pb + page_size seg) dev w = Some y"
        by simp
      then show ?thesis
        by (rule 1(1))
    next
      case ne: False
      with c 1(2) obtain ok1 w1
        where s: "dfu_send_special_command e 0x41 pb 5 False w = Some (ok1, w1)"
        by (auto split: option.splits)
      have e1: "effect e [erase_cmd pb] [] w w1"
        using effect_special_command [OF s] by (simp add: erase_cmd_def length_special_payload)
      show ?thesis
      proof (cases ok1)
        case False
        with c ne s 1(2) have y: "y = (False, dev, w1)"
          by simp
        have "erased e dev w [pb] (False, dev, w1)"
          unfolding erased_def using e1 ne self_update [of dev] by simp
        with y show ?thesis
          by blast
      next
        case True
        with c ne s 1(2)
        have "f e seg rend (pb + page_size seg) (dev\<lparr>last_erased_page := pb\<rparr>) w1 = Some y"
          by simp
        then obtain pages where p: "erased e (dev\<lparr>last_erased_page := pb\<rparr>) w1 pages y"
          using 1(1) by blast
        have "erased e dev w [pb] (True, dev\<lparr>last_erased_page := pb\<rparr>, w1)"
          unfolding erased_def using e1 ne by auto
        then have "erased e dev w ([pb] @ pages) y"
          using p by (rule erased_chain)
        then show ?thesis
          by blast
      qed
    qed
  qed
qed

lemma erase_range_loop_erased:
  assumes "erase_range_loop e start rend dev w = Some y"
  shows "\<exists>pages. erased e dev w pages y"
  using assms
proof (induction e start rend dev w y rule: erase_range_loop.raw_induct [rotated, consumes 1])
  case (1 f e start rend dev w y)
  show ?case
  proof (cases "start < rend")
    case False
    with 1(2) have "y = (True, dev, w)"
      by auto
    then show ?thesis
      using erased_Nil [OF effect_refl] by blast
  next
    case c: True
    show ?thesis
    proof (cases "find_segment (layout dev) start")
      case None
      with c 1(2) have "\<exists>m. m \<noteq> [] \<and> y = (False, dev, set_status e m w)"
        by auto
      then show ?thesis
        using erased_Nil [OF effect_set_status] by blast
    next
      case (Some seg)
      with c 1(2) have ps: "page_size seg \<noteq> 0"
        by (auto split: if_splits)
      define pb where "pb = seg_start seg
                          + ((start - seg_start seg) div page_size seg) * page_size seg"
      from c Some ps 1(2) obtain ok1 dev1 w1
        where ep: "erase_pages e seg rend pb dev w = Some (ok1, dev1, w1)"
        by (auto simp: pb_def split: option.splits)
      then obtain ps1 where p1: "erased e dev w ps1 (ok1, dev1, w1)"
        using erase_pages_erased by blast
      show ?thesis
      proof (cases ok1)
        case False
        with c Some ps ep 1(2) have "y = (False, dev1, w1)"
          by (simp add: pb_def)
        with p1 False show ?thesis
          by auto
      next
        case True
        with c Some ps ep 1(2) have "f e (seg_end seg) rend dev1 w1 = Some y"
          by (simp add: pb_def)
        then obtain ps2 where p2: "erased e dev1 w1 ps2 y"
          using 1(1) by blast
        from p1 True have "erased e dev w ps1 (True, dev1, w1)"
          by simp
        then have "erased e dev w (ps1 @ ps2) y"
          using p2 by (rule erased_chain)
        then show ?thesis
          by blast
      qed
    qed
  qed
qed

lemma dfu_erase_range_erased:
  assumes "dfu_erase_range e dev addr len w = Some y"
  shows "\<exists>pages. erased e dev w pages y"
proof (cases "\<not> layout_valid dev \<or> length (layout dev) = 0")
  case True
  with assms have "y = (True, dev, w)"
    by (auto simp: dfu_erase_range_def)
  then show ?thesis
    using erased_Nil [OF effect_refl] by blast
next
  case False
  with assms have "erase_range_loop e addr (addr + len) dev w = Some y"
    by (auto simp: dfu_erase_range_def)
  then show ?thesis
    by (rule erase_range_loop_erased)
qed

subsection \<open>Ranges inside one page\<close>

definition page_base_of :: "stm32_dfu_segment_t \<Rightarrow> u32 \<Rightarrow> u32" where
  "page_base_of seg addr =
     seg_start seg + ((addr - seg_start seg) div page_size seg) * page_size seg"

lemma unat_page_base_of:
  assumes "seg_start seg \<le> addr"
  shows "unat (page_base_of seg addr)
         = unat (seg_start seg)
           + ((unat addr - unat (seg_start seg)) div unat (page_size seg)) * unat (page_size seg)"
proof -
  let ?s = "seg_start seg" and ?p = "page_size seg"
  have le: "unat ?s \<le> unat addr"
    using assms by (simp add: word_le_nat_alt)
  have d: "unat (addr - ?s) = unat addr - unat ?s"
    using assms by (simp add: unat_sub)
  have q: "unat ((addr - ?s) div ?p) = (unat addr - unat ?s) div unat ?p"
    by (simp add: unat_div d)
  have b: "((unat addr - unat ?s) div unat ?p) * unat ?p \<le> unat addr - unat ?s"
    by simp
  have lt: "unat addr < 2 ^ 32"
    using unsigned_less [of addr, where 'a = nat] by simp
  have "unat ((addr - ?s) div ?p) * unat ?p < 2 ^ 32"
    unfolding q using b lt by linarith
  then have "unat (((addr - ?s) div ?p) * ?p) = unat ((addr - ?s) div ?p) * unat ?p"
    using unat_mult_lem [of "(addr - ?s) div ?p" ?p] by simp
  then have m: "unat (((addr - ?s) div ?p) * ?p) = ((unat addr - unat ?s) div unat ?p) * unat ?p"
    unfolding q .
  have "unat ?s + ((unat addr - unat ?s) div unat ?p) * unat ?p \<le> unat addr"
    using b le by linarith
  then have "unat ?s + unat (((addr - ?s) div ?p) * ?p) < 2 ^ 32"
    unfolding m using lt by linarith
  then have "unat (?s + ((addr - ?s) div ?p) * ?p) = unat ?s + unat (((addr - ?s) div ?p) * ?p)"
    using unat_add_lem [of ?s "((addr - ?s) div ?p) * ?p"] by simp
  then show ?thesis
    unfolding page_base_of_def m .
qed

lemma page_base_of_le:
  "seg_start seg \<le> addr \<Longrightarrow> page_base_of seg addr \<le> addr"
proof -
  assume a: "seg_start seg \<le> addr"
  have "((unat addr - unat (seg_start seg)) div unat (page_size seg)) * unat (page_size seg)
        \<le> unat addr - unat (seg_start seg)"
    by simp
  moreover have "unat (seg_start seg) \<le> unat addr"
    using a by (simp add: word_le_nat_alt)
  ultimately show ?thesis
    unfolding word_le_nat_alt unat_page_base_of [OF a] by linarith
qed

definition in_page ::
  "stm32_dfu_device_t \<Rightarrow> stm32_dfu_segment_t \<Rightarrow> u32 \<Rightarrow> u32 \<Rightarrow> u32 \<Rightarrow> bool" where
  "in_page dev seg page addr len =
     (layout_valid dev \<and> find_segment (layout dev) addr = Some seg \<and> page_size seg \<noteq> 0
      \<and> page = page_base_of seg addr \<and> len \<noteq> 0
      \<and> unat addr + unat len \<le> unat page + unat (page_size seg)
      \<and> unat page + unat (page_size seg) \<le> unat (seg_end seg))"

lemma single_page_erase:
  assumes "in_page dev seg page addr len"
  shows "dfu_erase_range e dev addr len w =
     (if last_erased_page dev = page then Some (True, dev, w)
      else (case dfu_send_special_command e 0x41 page 5 False w of
              None \<Rightarrow> None
            | Some (ok, w1) \<Rightarrow>
                if ok then Some (True, dev\<lparr>last_erased_page := page\<rparr>, w1)
                else Some (False, dev, w1)))"
proof -
  from assms have lv: "layout_valid dev" and fs: "find_segment (layout dev) addr = Some seg"
    and ps: "page_size seg \<noteq> 0" and pg: "page = page_base_of seg addr" and l0: "len \<noteq> 0"
    and r1: "unat addr + unat len \<le> unat page + unat (page_size seg)"
    and r2: "unat page + unat (page_size seg) \<le> unat (seg_end seg)"
    unfolding in_page_def by blast+
  have ne: "length (layout dev) \<noteq> 0"
    using fs by (cases "layout dev") simp_all
  have sa: "seg_start seg \<le> addr" and ae: "addr < seg_end seg"
    using find_segment_Some [OF fs] by simp_all
  have lt: "unat (seg_end seg) < 2 ^ 32"
    using unsigned_less [of "seg_end seg", where 'a = nat] by simp
  have ur: "unat (addr + len) = unat addr + unat len"
    using r1 r2 lt by (simp add: unat_word_ariths)
  have l0': "0 < unat len"
    using l0 by (simp add: unat_gt_0)
  have 1: "addr < addr + len"
    unfolding word_less_nat_alt ur using l0' by simp
  have pa: "page \<le> addr"
    unfolding pg using sa by (rule page_base_of_le)
  have 2: "page < seg_end seg"
    using pa ae by simp
  have 3: "page < addr + len"
    using pa 1 by simp
  have up: "unat (page + page_size seg) = unat page + unat (page_size seg)"
    using r2 lt by (simp add: unat_word_ariths)
  have 4: "\<not> (page + page_size seg < addr + len)"
    unfolding word_less_nat_alt ur up using r1 by simp
  have 5: "\<not> (seg_end seg < addr + len)"
    unfolding word_less_nat_alt ur using r1 r2 by simp
  have stop: "\<And>d v. erase_pages e seg (addr + len) (page + page_size seg) d v = Some (True, d, v)"
    using 4 by (subst erase_pages.simps) simp
  have out: "\<And>d v. erase_range_loop e (seg_end seg) (addr + len) d v = Some (True, d, v)"
    using 5 by (subst erase_range_loop.simps) simp
  have inner: "erase_pages e seg (addr + len) page dev w =
     (if last_erased_page dev = page then Some (True, dev, w)
      else (case dfu_send_special_command e 0x41 page 5 False w of
              None \<Rightarrow> None
            | Some (ok, w1) \<Rightarrow>
                if ok then Some (True, dev\<lparr>last_erased_page := page\<rparr>, w1)
                else Some (False, dev, w1)))"
    using 2 3 by (subst erase_pages.simps) (auto simp: stop split: option.splits)
  have "dfu_erase_range e dev addr len w = erase_range_loop e addr (addr + len) dev w"
    using lv ne by (simp add: dfu_erase_range_def)
  also have "\<dots> = (case erase_pages e seg (addr + len) page dev w of
                  None \<Rightarrow> None
                | Some (ok, dev1, w1) \<Rightarrow>
                    if \<not> ok then Some (False, dev1, w1)
                    else erase_range_loop e (seg_end seg) (addr + len) dev1 w1)"
    using 1 fs ps by (subst erase_range_loop.simps) (simp add: pg page_base_of_def)
  also have "\<dots> = (if last_erased_page dev = page then Some (True, dev, w)
      else (case dfu_send_special_command e 0x41 page 5 False w of
              None \<Rightarrow> None
            | Some (ok, w1) \<Rightarrow>
                if ok then Some (True, dev\<lparr>last_erased_page := page\<rparr>, w1)
                else Some (False, dev, w1)))"
    unfolding inner by (auto simp: out split: option.splits)
  finally show ?thesis .
qed

lemma in_page_update:
  "in_page dev seg page addr len \<Longrightarrow> in_page (dev\<lparr>last_erased_page := l\<rparr>) seg page addr len"
  by (auto simp: in_page_def)

lemma erase_again:
  assumes p1: "in_page dev seg page a1 l1" and p2: "in_page dev seg page a2 l2"
    and r: "dfu_erase_range e dev a1 l1 w = Some (True, dev1, w1)"
  shows "dfu_erase_range e dev1 a2 l2 w1 = Some (True, dev1, w1)"
proof -
  from r have "last_erased_page dev1 = page \<and> (\<exists>l. dev1 = dev\<lparr>last_erased_page := l\<rparr>)"
    unfolding single_page_erase [OF p1] using self_update [of dev]
    by (auto split: if_splits option.splits)
  then obtain l where l: "last_erased_page dev1 = page" and d: "dev1 = dev\<lparr>last_erased_page := l\<rparr>"
    by blast
  have "in_page dev1 seg page a2 l2"
    unfolding d using p2 by (rule in_page_update)
  then show ?thesis
    using l by (simp add: single_page_erase)
qed

section \<open>One iteration of the write loop\<close>

definition chunk_cmds :: "stm32_dfu_device_t \<Rightarrow> u8 list \<Rightarrow> nat \<Rightarrow> (u16 \<times> u8 list) list" where
  "chunk_cmds dev fw written =
     [(0, special_payload 0x21 (chunk_address written)),
      (2, chunk_payload fw written (chunk_len dev fw written))]"

lemma chunk_len_update [simp]:
  "chunk_len (dev\<lparr>last_erased_page := l\<rparr>) fw written = chunk_len dev fw written"
  by (auto simp: chunk_len_def chunk_size_of_def segment_at_def Let_def split: option.splits)

lemma progress_percent_update [simp]:
  "progress_percent (dev\<lparr>last_erased_page := l\<rparr>) written n = progress_percent dev written n"
  by (simp add: progress_percent_def)

lemma write_chunk_erase_erased:
  assumes "write_chunk_erase e fw written dev w = Some y"
  shows "\<exists>pages. erased e dev w pages y
            \<and> (mass_erased dev \<or> \<not> layout_valid dev \<longrightarrow> pages = [])"
proof (cases "\<not> mass_erased dev \<and> segment_at dev written \<noteq> None")
  case True
  then have "layout_valid dev"
    by (auto simp: segment_at_def split: if_splits)
  with True assms show ?thesis
    using dfu_erase_range_erased [of e dev "chunk_address written"
        "word_of_nat (chunk_len dev fw written)" w y]
    by (auto simp: write_chunk_erase_def)
next
  case False
  with assms have "y = (True, dev, w)"
    by (auto simp: write_chunk_erase_def)
  then show ?thesis
    using erased_Nil [where e = e and w = w and w' = w and dev = dev and ok = True, OF effect_refl]
    by auto
qed

lemma write_chunk_send_effect:
  assumes "write_chunk_send e fw written (chunk_len dev fw written) dev1 w = Some (ok, w')"
  shows "\<exists>k. effect e (take k (chunk_cmds dev fw written))
                (if ok then [progress_percent dev1 (written + chunk_len dev fw written) (length fw)]
                 else []) w w'
             \<and> (ok \<longrightarrow> k = 2)"
proof -
  define n where "n = chunk_len dev fw written"
  have cc: "chunk_cmds dev fw written
            = [(0, special_payload 0x21 (chunk_address written)), (2, chunk_payload fw written n)]"
    by (simp add: chunk_cmds_def n_def)
  from assms obtain ok2 w2
    where s2: "dfu_set_address_pointer e (chunk_address written) w = Some (ok2, w2)"
    by (cases "dfu_set_address_pointer e (chunk_address written) w")
       (auto simp: write_chunk_send_def)
  have e2: "effect e [(0, special_payload 0x21 (chunk_address written))] [] w w2"
    using s2 by (rule effect_set_address_pointer)
  show ?thesis
  proof (cases ok2)
    case False
    with assms s2 have "ok = False" "w' = w2"
      by (simp_all add: write_chunk_send_def)
    with e2 show ?thesis
      by (intro exI [of _ 1]) (simp add: cc)
  next
    case ok2: True
    with assms s2 obtain ok3 w3
      where s3: "dfu_download_block e 2 (chunk_payload fw written n) False w2 = Some (ok3, w3)"
      by (cases "dfu_download_block e 2 (chunk_payload fw written n) False w2")
         (auto simp: write_chunk_send_def n_def)
    have e3: "effect e [(2, chunk_payload fw written n)] [] w2 w3"
      using s3 by (rule effect_download_block)
    have e23: "effect e (chunk_cmds dev fw written) [] w w3"
      using effect_trans [OF e2 e3] by (simp add: cc)
    show ?thesis
    proof (cases ok3)
      case False
      with assms s2 ok2 s3 have r: "ok = False" and "\<exists>m. m \<noteq> [] \<and> w' = set_status e m w3"
        by (auto simp: write_chunk_send_def n_def truncate_to_def)
      then have "effect e [] [] w3 w'"
        using effect_set_status by blast
      then have "effect e (chunk_cmds dev fw written) [] w w'"
        using e23 effect_trans0 by blast
      with r show ?thesis
        by (intro exI [of _ 2]) (simp add: cc)
    next
      case True
      with assms s2 ok2 s3 have r: "ok = True"
        and w': "w' = report_progress e (progress_percent dev1 (written + n) (length fw)) w3"
        by (simp_all add: write_chunk_send_def n_def)
      have "effect e [] [progress_percent dev1 (written + n) (length fw)] w3 w'"
        unfolding w' using effect_report_progress by simp
      then have "effect e (chunk_cmds dev fw written)
                   [progress_percent dev1 (written + n) (length fw)] w w'"
        using effect_trans [OF e23] by fastforce
      with r show ?thesis
        by (intro exI [of _ 2]) (simp add: cc n_def)
    qed
  qed
qed

lemma write_chunk_steps:
  assumes "write_chunk e fw written dev w = Some (ok, written', dev', w')"
  shows "\<exists>pages k y.
           erased e dev w pages y \<and> fst (snd y) = dev'
           \<and> effect e (take k (chunk_cmds dev fw written))
                (if ok then [progress_percent dev (written + chunk_len dev fw written) (length fw)]
                 else [])
                (snd (snd y)) w'
           \<and> (ok \<longrightarrow> fst y \<and> k = 2 \<and> written' = written + chunk_len dev fw written)
           \<and> (mass_erased dev \<or> \<not> layout_valid dev \<longrightarrow> pages = [])"
proof (cases "layout_valid dev \<and> segment_at dev written = None")
  case True
  with assms have r: "ok = False" "dev' = dev" and "\<exists>m. m \<noteq> [] \<and> w' = set_status e m w"
    by (auto simp: write_chunk_def)
  then have e1: "effect e [] [] w w'"
    using effect_set_status by blast
  have "erased e dev w [] (True, dev, w)"
    using erased_Nil [OF effect_refl] .
  with e1 r show ?thesis
    by (intro exI [of _ "[]"] exI [of _ 0] exI [of _ "(True, dev, w)"]) simp
next
  case False
  with assms obtain ok1 dev1 w1
    where E1: "write_chunk_erase e fw written dev w = Some (ok1, dev1, w1)"
    by (cases "write_chunk_erase e fw written dev w") (auto simp: write_chunk_def)
  then obtain pages where er: "erased e dev w pages (ok1, dev1, w1)"
    and pn: "mass_erased dev \<or> \<not> layout_valid dev \<longrightarrow> pages = []"
    using write_chunk_erase_erased by blast
  from er obtain l where d1: "dev1 = dev\<lparr>last_erased_page := l\<rparr>"
    by (auto simp: erased_def)
  show ?thesis
  proof (cases ok1)
    case False
    with assms E1 \<open>\<not> (layout_valid dev \<and> segment_at dev written = None)\<close>
    have "ok = False" "dev' = dev1" "w' = w1"
      by (simp_all add: write_chunk_def)
    with er pn show ?thesis
      using effect_refl [of e w1]
      by (intro exI [of _ pages] exI [of _ 0] exI [of _ "(ok1, dev1, w1)"]) simp
  next
    case ok1: True
    with assms E1 \<open>\<not> (layout_valid dev \<and> segment_at dev written = None)\<close>
    obtain ok2 w2
      where s: "write_chunk_send e fw written (chunk_len dev fw written) dev1 w1 = Some (ok2, w2)"
      by (cases "write_chunk_send e fw written (chunk_len dev fw written) dev1 w1")
         (auto simp: write_chunk_def)
    with assms E1 ok1 \<open>\<not> (layout_valid dev \<and> segment_at dev written = None)\<close>
    have r: "ok = ok2" "dev' = dev1" "w' = w2"
      "ok2 \<longrightarrow> written' = written + chunk_len dev fw written"
      by (auto simp: write_chunk_def split: if_splits)
    from write_chunk_send_effect [OF s] obtain k
      where "effect e (take k (chunk_cmds dev fw written))
                (if ok2 then [progress_percent dev1 (written + chunk_len dev fw written) (length fw)]
                 else []) w1 w2" and "ok2 \<longrightarrow> k = 2"
      by blast
    with er pn r ok1 show ?thesis
      unfolding d1
      by (intro exI [of _ pages] exI [of _ k] exI [of _ "(True, dev\<lparr>last_erased_page := l\<rparr>, w1)"])
         (cases ok2; simp)
  qed
qed

subsection \<open>Block numbers, erase commands and progress of the loop\<close>

definition is_vendor_command :: "u8 list \<Rightarrow> bool" where
  "is_vendor_command p = (p \<noteq> [] \<and> (hd p = 0x21 \<or> hd p = 0x41))"

definition block_ok :: "u16 \<times> u8 list \<Rightarrow> bool" where
  "block_ok x = (if fst x = 0 then is_vendor_command (snd x) else fst x = 2)"

definition is_erase_page :: "u16 \<times> u8 list \<Rightarrow> bool" where
  "is_erase_page x = (fst x = 0 \<and> length (snd x) = 5 \<and> hd (snd x) = 0x41)"

definition erase_page_payloads :: "(u16 \<times> u8 list) list \<Rightarrow> u8 list list" where
  "erase_page_payloads X = map snd (filter is_erase_page X)"

lemma erase_page_payloads_append:
  "erase_page_payloads (X @ Y) = erase_page_payloads X @ erase_page_payloads Y"
  by (simp add: erase_page_payloads_def)

lemma erase_page_payloads_erase_cmds:
  "erase_page_payloads (map erase_cmd pages) = map (special_payload 0x41) pages"
  by (induction pages)
     (simp_all add: erase_page_payloads_def erase_cmd_def is_erase_page_def special_payload_def)

lemma erase_page_payloads_chunk_cmds:
  "erase_page_payloads (take k (chunk_cmds dev fw written)) = []"
proof -
  have "\<forall>x\<in>set (chunk_cmds dev fw written). \<not> is_erase_page x"
    by (simp add: chunk_cmds_def is_erase_page_def special_payload_def)
  then have "\<forall>x\<in>set (take k (chunk_cmds dev fw written)). \<not> is_erase_page x"
    using set_take_subset [of k "chunk_cmds dev fw written"] by blast
  then show ?thesis
    by (simp add: erase_page_payloads_def)
qed

lemma block_ok_erase_cmds: "list_all block_ok (map erase_cmd pages)"
  by (induction pages)
     (simp_all add: block_ok_def erase_cmd_def is_vendor_command_def special_payload_def)

lemma block_ok_chunk_cmds: "list_all block_ok (take k (chunk_cmds dev fw written))"
proof -
  have "\<forall>x\<in>set (chunk_cmds dev fw written). block_ok x"
    by (simp add: chunk_cmds_def block_ok_def is_vendor_command_def special_payload_def)
  then have "\<forall>x\<in>set (take k (chunk_cmds dev fw written)). block_ok x"
    using set_take_subset [of k "chunk_cmds dev fw written"] by blast
  then show ?thesis
    by (simp add: list_all_iff)
qed

lemma progress_percent_le_95: "progress_percent dev written n \<le> 95"
  by (simp add: progress_percent_def Let_def)

lemma progress_percent_ge_5: "5 \<le> progress_percent dev written n"
  by (simp add: progress_percent_def Let_def)

lemma progress_percent_mono:
  "a \<le> b \<Longrightarrow> progress_percent dev a n \<le> progress_percent dev b n"
proof -
  assume "a \<le> b"
  then have "a * 90 div n \<le> b * 90 div n"
    by (intro div_le_mono) simp
  then show ?thesis
    by (simp add: progress_percent_def Let_def)
qed

text \<open>What a run of the write loop from \<open>written\<close> leaves behind.\<close>

definition loop_trace ::
  "env \<Rightarrow> u8 list \<Rightarrow> nat \<Rightarrow> stm32_dfu_device_t \<Rightarrow> world
   \<Rightarrow> bool \<times> stm32_dfu_device_t \<times> world \<Rightarrow> bool" where
  "loop_trace e fw written dev w y =
     (\<exists>X P pages.
        effect e X P w (snd (snd y))
        \<and> list_all block_ok X
        \<and> erase_page_payloads X = map (special_payload 0x41) pages
        \<and> distinct_adj (last_erased_page dev # pages)
        \<and> sorted P
        \<and> list_all (\<lambda>p. progress_percent dev written (length fw) \<le> p \<and> p \<le> 95) P
        \<and> (\<exists>l. fst (snd y) = dev\<lparr>last_erased_page := l\<rparr>))"

lemma write_loop_trace:
  assumes "write_loop e fw written dev w = Some y"
  shows "loop_trace e fw written dev w y"
  using assms
proof (induction e fw written dev w y rule: write_loop.raw_induct [rotated, consumes 1])
  case (1 f e fw written dev w y)
  show ?case
  proof (cases "written < length fw")
    case False
    with 1(2) have "y = (True, dev, w)"
      by auto
    then show ?thesis
      unfolding loop_trace_def using effect_refl [of e w] self_update [of dev]
      by (intro exI [of _ "[]"]) (simp add: erase_page_payloads_def)
  next
    case lt: True
    with 1(2) obtain ok1 written1 dev1 w1
      where wc: "write_chunk e fw written dev w = Some (ok1, written1, dev1, w1)"
      by (cases "write_chunk e fw written dev w") auto
    from write_chunk_steps [OF wc] obtain pages1 k y1
      where er: "erased e dev w pages1 y1" and d1: "fst (snd y1) = dev1"
        and ef: "effect e (take k (chunk_cmds dev fw written))
                (if ok1 then [progress_percent dev (written + chunk_len dev fw written) (length fw)]
                 else []) (snd (snd y1)) w1"
        and okk: "ok1 \<longrightarrow> fst y1 \<and> k = 2 \<and> written1 = written + chunk_len dev fw written"
      by blast
    define X1 where "X1 = map erase_cmd pages1 @ take k (chunk_cmds dev fw written)"
    define P1 where "P1 = (if ok1 then [progress_percent dev written1 (length fw)] else [])"
    from er have e0: "effect e (map erase_cmd pages1) [] w (snd (snd y1))"
      and da1: "distinct_adj (last_erased_page dev # pages1)"
      and l1: "\<not> fst y1 \<or> last_erased_page dev1 = last (last_erased_page dev # pages1)"
      unfolding erased_def d1 by blast+
    from er obtain l where dl: "dev1 = dev\<lparr>last_erased_page := l\<rparr>"
      unfolding erased_def d1 by blast
    have e1: "effect e X1 P1 w w1"
      using effect_trans [OF e0 ef] okk by (auto simp: X1_def P1_def)
    have b1: "list_all block_ok X1"
      unfolding X1_def using block_ok_erase_cmds block_ok_chunk_cmds by simp
    have p1: "erase_page_payloads X1 = map (special_payload 0x41) pages1"
      unfolding X1_def
      by (simp add: erase_page_payloads_append erase_page_payloads_erase_cmds
          erase_page_payloads_chunk_cmds)
    show ?thesis
    proof (cases ok1)
      case False
      with lt wc 1(2) have y: "y = (False, dev1, w1)"
        by simp
      have "P1 = []"
        using False by (simp add: P1_def)
      with e1 b1 p1 da1 dl show ?thesis
        unfolding loop_trace_def y
        by (intro exI [of _ X1] exI [of _ "[]"] exI [of _ pages1]) auto
    next
      case True
      with lt wc 1(2) have "f e fw written1 dev1 w1 = Some y"
        by simp
      then have "loop_trace e fw written1 dev1 w1 y"
        by (rule 1(1))
      then obtain X2 P2 pages2 l2
        where e2: "effect e X2 P2 w1 (snd (snd y))" and b2: "list_all block_ok X2"
          and p2: "erase_page_payloads X2 = map (special_payload 0x41) pages2"
          and da2: "distinct_adj (last_erased_page dev1 # pages2)"
          and s2: "sorted P2"
          and r2: "list_all (\<lambda>p. progress_percent dev1 written1 (length fw) \<le> p \<and> p \<le> 95) P2"
          and d2: "fst (snd y) = dev1\<lparr>last_erased_page := l2\<rparr>"
        unfolding loop_trace_def by blast
      have w1: "written \<le> written1"
        using okk True by simp
      have pp: "progress_percent dev1 written1 (length fw) = progress_percent dev written1 (length fw)"
        unfolding dl by simp
      have P1: "P1 = [progress_percent dev written1 (length fw)]"
        using True by (simp add: P1_def)
      have a: "effect e (X1 @ X2) (P1 @ P2) w (snd (snd y))"
        using e1 e2 by (rule effect_trans)
      have b: "list_all block_ok (X1 @ X2)"
        using b1 b2 by simp
      have c: "erase_page_payloads (X1 @ X2) = map (special_payload 0x41) (pages1 @ pages2)"
        by (simp add: erase_page_payloads_append p1 p2)
      have l1': "last_erased_page dev1 = last (last_erased_page dev # pages1)"
        using l1 okk True by simp
      have d: "distinct_adj (last_erased_page dev # pages1 @ pages2)"
        using da1 da2 unfolding l1' by (rule distinct_adj_chain)
      have s: "sorted (P1 @ P2)"
        using s2 r2 unfolding P1 pp by (auto simp: list_all_iff)
      have r: "list_all (\<lambda>p. progress_percent dev written (length fw) \<le> p \<and> p \<le> 95) (P1 @ P2)"
        using r2 progress_percent_mono [OF w1, of dev "length fw"]
          progress_percent_le_95 [of dev written1 "length fw"]
        unfolding P1 pp by (auto simp: list_all_iff)
      have u: "fst (snd y) = dev\<lparr>last_erased_page := l2\<rparr>"
        unfolding d2 dl by simp
      from a b c d s r u show ?thesis
        unfolding loop_trace_def
        by (intro exI [of _ "X1 @ X2"] exI [of _ "P1 @ P2"] exI [of _ "pages1 @ pages2"]) blast
    qed
  qed
qed

section \<open>The phases of a run\<close>

text \<open>A phase sends blocks that are vendor commands with block number 0 or have block
  number 2, erases the given pages, and reports sorted progress values between two bounds.\<close>

text \<open>A phase of the run: the DNLOAD requests it adds are vendor commands in block 0 or
  blocks numbered 2, its erase-page commands are those of \<open>pages\<close>, and the percentages it
  reports are sorted and lie between \<open>lo\<close> and \<open>hi\<close>.\<close>

definition phase :: "env \<Rightarrow> int \<Rightarrow> int \<Rightarrow> u32 list \<Rightarrow> world \<Rightarrow> world \<Rightarrow> bool" where
  "phase e lo hi pages w w' =
     (\<exists>X P. effect e X P w w'
        \<and> list_all block_ok X
        \<and> erase_page_payloads X = map (special_payload 0x41) pages
        \<and> sorted P
        \<and> list_all (\<lambda>p. lo \<le> p \<and> p \<le> hi) P)"

lemma phase_quiet:
  "effect e X [] w w' \<Longrightarrow> list_all block_ok X \<Longrightarrow> erase_page_payloads X = [] \<Longrightarrow>
   phase e lo hi [] w w'"
  unfolding phase_def by (intro exI [of _ X] exI [of _ "[]"]) simp

lemma phase_silent: "effect e [] [] w w' \<Longrightarrow> phase e lo hi [] w w'"
  by (rule phase_quiet [where X = "[]"]) (simp_all add: erase_page_payloads_def)

lemma phase_progress: "lo \<le> p \<Longrightarrow> p \<le> hi \<Longrightarrow> phase e lo hi [] w (report_progress e p w)"
  unfolding phase_def using effect_report_progress [of e p w]
  by (intro exI [of _ "[]"] exI [of _ "[p]"]) (simp add: erase_page_payloads_def)

lemma phase_seq:
  assumes 1: "phase e lo mid ps1 w w1" and 2: "phase e mid hi ps2 w1 w2"
    and b: "lo \<le> mid" "mid \<le> hi"
  shows "phase e lo hi (ps1 @ ps2) w w2"
proof -
  from 1 obtain X1 P1 where e1: "effect e X1 P1 w w1" and b1: "list_all block_ok X1"
    and p1: "erase_page_payloads X1 = map (special_payload 0x41) ps1"
    and s1: "sorted P1" and r1: "list_all (\<lambda>p. lo \<le> p \<and> p \<le> mid) P1"
    unfolding phase_def by blast
  from 2 obtain X2 P2 where e2: "effect e X2 P2 w1 w2" and b2: "list_all block_ok X2"
    and p2: "erase_page_payloads X2 = map (special_payload 0x41) ps2"
    and s2: "sorted P2" and r2: "list_all (\<lambda>p. mid \<le> p \<and> p \<le> hi) P2"
    unfolding phase_def by blast
  have a: "effect e (X1 @ X2) (P1 @ P2) w w2"
    using e1 e2 by (rule effect_trans)
  have c: "erase_page_payloads (X1 @ X2) = map (special_payload 0x41) (ps1 @ ps2)"
    by (simp add: erase_page_payloads_append p1 p2)
  have s: "sorted (P1 @ P2)"
    using s1 s2 r1 r2 unfolding sorted_append list_all_iff by (meson order_trans)
  have r: "list_all (\<lambda>p. lo \<le> p \<and> p \<le> hi) (P1 @ P2)"
    using r1 r2 b unfolding list_all_iff set_append by (meson UnE order_trans)
  from a b1 b2 c s r show ?thesis
    unfolding phase_def by (intro exI [of _ "X1 @ X2"] exI [of _ "P1 @ P2"]) simp
qed

lemma phase_then_quiet:
  "phase e lo hi ps w w1 \<Longrightarrow> phase e hi hi [] w1 w2 \<Longrightarrow> lo \<le> hi \<Longrightarrow> phase e lo hi ps w w2"
  using phase_seq [of e lo hi ps w w1 hi "[]" w2] by simp

lemma phase_quiet_then:
  "phase e lo lo [] w w1 \<Longrightarrow> phase e lo hi ps w1 w2 \<Longrightarrow> lo \<le> hi \<Longrightarrow> phase e lo hi ps w w2"
  using phase_seq [of e lo lo "[]" w w1 hi ps w2] by simp

lemma phase_weaken:
  "phase e lo hi ps w w' \<Longrightarrow> lo' \<le> lo \<Longrightarrow> hi \<le> hi' \<Longrightarrow> phase e lo' hi' ps w w'"
proof -
  assume p: "phase e lo hi ps w w'" and b: "lo' \<le> lo" "hi \<le> hi'"
  from p obtain X P where e: "effect e X P w w'" and bo: "list_all block_ok X"
    and pp: "erase_page_payloads X = map (special_payload 0x41) ps"
    and s: "sorted P" and r: "list_all (\<lambda>p. lo \<le> p \<and> p \<le> hi) P"
    unfolding phase_def by blast
  have "list_all (\<lambda>p. lo' \<le> p \<and> p \<le> hi') P"
    using r b unfolding list_all_iff by (meson order_trans)
  with e bo pp s show ?thesis
    unfolding phase_def by blast
qed

lemma phase_set_status: "m \<noteq> [] \<Longrightarrow> phase e lo hi [] w (set_status e m w)"
  by (rule phase_silent) (rule effect_set_status)

lemma phase_prepare_idle:
  "dfu_prepare_idle e w = Some (ok, w') \<Longrightarrow> phase e lo hi [] w w'"
  by (rule phase_silent) (rule effect_prepare_idle)

lemma phase_set_address_pointer:
  assumes "dfu_set_address_pointer e a w = Some (ok, w')"
  shows "phase e lo hi [] w w'"
  using effect_set_address_pointer [OF assms]
  by (rule phase_quiet)
     (simp_all add: block_ok_def is_vendor_command_def special_payload_def
        erase_page_payloads_def is_erase_page_def)

lemma phase_mass_erase:
  assumes "dfu_mass_erase e w = Some (ok, w')"
  shows "phase e lo hi [] w w'"
  using effect_mass_erase [OF assms]
  by (rule phase_quiet)
     (simp_all add: block_ok_def is_vendor_command_def erase_page_payloads_def is_erase_page_def)

lemma phase_finalize:
  assumes "dfu_download_block e 2 [] a w = Some (ok, w')"
  shows "phase e lo hi [] w w'"
  using effect_download_block [OF assms]
  by (rule phase_quiet) (simp_all add: block_ok_def erase_page_payloads_def is_erase_page_def)

definition base_percent :: "stm32_dfu_device_t \<Rightarrow> int" where
  "base_percent dev = (if layout_valid dev then 6 else 5)"

lemma progress_percent_ge_base: "base_percent dev \<le> progress_percent dev written n"
  by (simp add: progress_percent_def base_percent_def Let_def)

lemma phase_write_loop:
  assumes "write_loop e fw written dev w = Some (ok, dev', w')"
  shows "\<exists>pages. phase e (base_percent dev) 95 pages w w'
                 \<and> distinct_adj (last_erased_page dev # pages)"
proof -
  from write_loop_trace [OF assms] obtain X P pages
    where "effect e X P w w'" "list_all block_ok X"
      "erase_page_payloads X = map (special_payload 0x41) pages"
      "distinct_adj (last_erased_page dev # pages)" "sorted P"
      and r: "list_all (\<lambda>p. progress_percent dev written (length fw) \<le> p \<and> p \<le> 95) P"
    unfolding loop_trace_def by auto
  moreover have "list_all (\<lambda>p. base_percent dev \<le> p \<and> p \<le> 95) P"
    using r progress_percent_ge_base [of dev written "length fw"]
    unfolding list_all_iff by (meson order_trans)
  ultimately show ?thesis
    unfolding phase_def by blast
qed

lemma base_percent_bounds: "5 \<le> base_percent dev" "base_percent dev \<le> 95"
  by (simp_all add: base_percent_def)

lemma flash_write_phase_phase:
  assumes "flash_write_phase e fw dev w = Some (ok, w')"
  shows "\<exists>pages. phase e 5 99 pages w w' \<and> distinct_adj (last_erased_page dev # pages)"
proof -
  define b where "b = base_percent dev"
  have b5: "5 \<le> b" and b95: "b \<le> 95"
    unfolding b_def by (rule base_percent_bounds)+
  define w0 where "w0 = set_status e (''Setting write address 0x''
                            @ fmt_X 8 (unat STM32_BASE_ADDRESS)) w"
  have p0: "phase e b b [] w w0"
    unfolding w0_def by (rule phase_set_status) simp
  from assms obtain ok1 w1 where s1: "dfu_set_address_pointer e STM32_BASE_ADDRESS w0 = Some (ok1, w1)"
    by (cases "dfu_set_address_pointer e STM32_BASE_ADDRESS w0")
       (auto simp: flash_write_phase_def w0_def)
  have p1: "phase e b b [] w w1"
    using p0 phase_set_address_pointer [OF s1] by (rule phase_then_quiet) simp
  have fin: "\<And>v hi pages. phase e b hi pages w v \<Longrightarrow> hi \<le> 99 \<Longrightarrow>
                distinct_adj (last_erased_page dev # pages) \<Longrightarrow>
                \<exists>pages. phase e 5 99 pages w v \<and> distinct_adj (last_erased_page dev # pages)"
    using phase_weaken b5 by blast
  show ?thesis
  proof (cases ok1)
    case False
    with assms s1 have "w' = w1"
      by (simp add: flash_write_phase_def w0_def)
    with p1 show ?thesis
      using fin [of b "[]" w1] b95 by simp
  next
    case ok1: True
    define w2 where "w2 = set_status e ''Writing firmware...''
                        (report_progress e (if layout_valid dev then 6 else 5) w1)"
    have "phase e b b [] w1 (report_progress e (if layout_valid dev then 6 else 5) w1)"
      by (rule phase_progress) (simp_all add: b_def base_percent_def)
    moreover have "phase e b b [] (report_progress e (if layout_valid dev then 6 else 5) w1) w2"
      unfolding w2_def by (rule phase_set_status) simp
    ultimately have "phase e b b [] w1 w2"
      by (rule phase_then_quiet) simp
    with p1 have p2: "phase e b b [] w w2"
      by (rule phase_quiet_then) simp
    show ?thesis
    proof (cases "chunk_alloc_ok e")
      case False
      with assms s1 ok1
      have "w' = set_status e ''Error: insufficient memory for transfer buffer'' w2"
        by (simp add: flash_write_phase_def w0_def w2_def Let_def)
      then have "phase e b b [] w2 w'"
        using phase_set_status by simp
      with p2 have "phase e b b [] w w'"
        by (rule phase_then_quiet) simp
      then show ?thesis
        using fin [of b "[]" w'] b95 by simp
    next
      case alloc: True
      with assms s1 ok1 obtain ok3 dev3 w3
        where wl: "write_loop e fw 0 dev w2 = Some (ok3, dev3, w3)"
        by (cases "write_loop e fw 0 dev w2")
           (auto simp: flash_write_phase_def w0_def w2_def Let_def)
      from phase_write_loop [OF wl] obtain pages
        where pl: "phase e b 95 pages w2 w3" and da: "distinct_adj (last_erased_page dev # pages)"
        unfolding b_def by blast
      have p3: "phase e b 95 pages w w3"
        using p2 pl b95 by (rule phase_quiet_then)
      show ?thesis
      proof (cases ok3)
        case False
        with assms s1 ok1 alloc wl have "w' = w3"
          by (simp add: flash_write_phase_def w0_def w2_def Let_def)
        with p3 da show ?thesis
          using fin [of 95 pages w3] by simp
      next
        case ok3: True
        with assms s1 ok1 alloc wl obtain ok4 w4
          where f: "dfu_download_block e 2 [] True w3 = Some (ok4, w4)"
          by (cases "dfu_download_block e 2 [] True w3")
             (auto simp: flash_write_phase_def w0_def w2_def Let_def)
        have p4: "phase e b 95 pages w w4"
          using p3 phase_finalize [OF f] b95 by (rule phase_then_quiet)
        show ?thesis
        proof (cases ok4)
          case False
          with assms s1 ok1 alloc wl ok3 f have "w' = w4"
            by (simp add: flash_write_phase_def w0_def w2_def Let_def)
          with p4 da show ?thesis
            using fin [of 95 pages w4] by simp
        next
          case True
          with assms s1 ok1 alloc wl ok3 f
          have w': "w' = set_status e ''Firmware written, device restarting''
                          (report_progress e 99 w4)"
            by (simp add: flash_write_phase_def w0_def w2_def Let_def)
          have "phase e 95 99 [] w4 (report_progress e 99 w4)"
            by (rule phase_progress) simp_all
          moreover have "phase e 99 99 [] (report_progress e 99 w4) w'"
            unfolding w' by (rule phase_set_status) simp
          ultimately have "phase e 95 99 [] w4 w'"
            by (rule phase_then_quiet) simp
          with p4 have "phase e b 99 (pages @ []) w w'"
            using b95 by (intro phase_seq [of e b 95 pages w w4 99 "[]" w']) simp_all
          with da show ?thesis
            using fin [of 99 pages w'] by simp
        qed
      qed
    qed
  qed
qed

lemma flash_erase_phase_phase:
  assumes "flash_erase_phase e dev w = Some (ok, dev1, w1)"
  shows "phase e 3 3 [] w w1"
proof (cases "layout_valid dev")
  case True
  with assms have "w1 = w"
    by (simp add: flash_erase_phase_def)
  then show ?thesis
    using phase_silent [OF effect_refl] by simp
next
  case False
  define v where "v = report_progress e 3 (set_status e ''Performing mass erase...'' w)"
  have "phase e 3 3 [] w (set_status e ''Performing mass erase...'' w)"
    by (rule phase_set_status) simp
  moreover have "phase e 3 3 [] (set_status e ''Performing mass erase...'' w) v"
    unfolding v_def by (rule phase_progress) simp_all
  ultimately have pv: "phase e 3 3 [] w v"
    by (rule phase_then_quiet) simp
  from assms False obtain ok2 w2 where m: "dfu_mass_erase e v = Some (ok2, w2)"
    by (cases "dfu_mass_erase e v") (auto simp: flash_erase_phase_def v_def)
  have p2: "phase e 3 3 [] w w2"
    using pv phase_mass_erase [OF m] by (rule phase_then_quiet) simp
  show ?thesis
  proof (cases ok2)
    case False
    with assms m \<open>\<not> layout_valid dev\<close> have "w1 = w2"
      by (simp add: flash_erase_phase_def v_def)
    with p2 show ?thesis
      by simp
  next
    case True
    with assms m \<open>\<not> layout_valid dev\<close> obtain ok3 w3
      where i: "dfu_prepare_idle e w2 = Some (ok3, w3)"
      by (cases "dfu_prepare_idle e w2") (auto simp: flash_erase_phase_def v_def)
    with assms m True \<open>\<not> layout_valid dev\<close> have "w1 = w3"
      by (auto simp: flash_erase_phase_def v_def split: if_splits)
    then show ?thesis
      using p2 phase_prepare_idle [OF i] phase_then_quiet by blast
  qed
qed

lemma flash_device_phase:
  assumes "flash_device e fw dev w = Some (ok, w')"
  shows "\<exists>pages. phase e 3 99 pages w w' \<and> distinct_adj pages"
proof -
  define v where "v = set_status e ''Preparing DFU state...'' w"
  have pv: "phase e 3 3 [] w v"
    unfolding v_def by (rule phase_set_status) simp
  from assms obtain ok1 w1 where i: "dfu_prepare_idle e v = Some (ok1, w1)"
    by (cases "dfu_prepare_idle e v") (auto simp: flash_device_def v_def)
  have p1: "phase e 3 3 [] w w1"
    using pv phase_prepare_idle [OF i] by (rule phase_then_quiet) simp
  have fin: "\<And>u. phase e 3 3 [] w u \<Longrightarrow> \<exists>pages. phase e 3 99 pages w u \<and> distinct_adj pages"
    using phase_weaken [of e 3 3 "[]" w _ 3 99] by (intro exI [of _ "[]"]) simp
  show ?thesis
  proof (cases ok1)
    case False
    with assms i have "w' = w1"
      by (simp add: flash_device_def v_def)
    with p1 fin show ?thesis
      by simp
  next
    case ok1: True
    with assms i obtain ok2 dev2 w2 where ep: "flash_erase_phase e dev w1 = Some (ok2, dev2, w2)"
      by (cases "flash_erase_phase e dev w1") (auto simp: flash_device_def v_def)
    have p2: "phase e 3 3 [] w w2"
      using p1 flash_erase_phase_phase [OF ep] by (rule phase_then_quiet) simp
    show ?thesis
    proof (cases ok2)
      case False
      with assms i ok1 ep have "w' = w2"
        by (simp add: flash_device_def v_def)
      with p2 fin show ?thesis
        by simp
    next
      case True
      with assms i ok1 ep have "flash_write_phase e fw dev2 w2 = Some (ok, w')"
        by (simp add: flash_device_def v_def)
      from flash_write_phase_phase [OF this] obtain pages
        where pw: "phase e 5 99 pages w2 w'" and da: "distinct_adj (last_erased_page dev2 # pages)"
        by blast
      have "phase e 3 99 pages w2 w'"
        using pw by (rule phase_weaken) simp_all
      with p2 have "phase e 3 99 pages w w'"
        by (rule phase_quiet_then) simp
      moreover have "distinct_adj pages"
        using da by (rule distinct_adj_ConsD)
      ultimately show ?thesis
        by blast
    qed
  qed
qed

subsection \<open>Discovery and the run up to the cleanup\<close>

lemma effect_notify_status: "effect e [] [] w (notify_status e m w)"
  by (simp add: effect_def notify_status_fields sink_def status_set_def)

lemma effect_set_last_error: "effect e [] [] (snd lw) (snd (set_last_error e m lw))"
  by (simp add: set_last_error_def effect_notify_status)

lemma effect_open_devices:
  "effect e [] [] (snd lw) (snd (snd (open_devices e ds lw)))"
proof (induction ds arbitrary: lw)
  case Nil
  then show ?case
    by (simp add: effect_refl)
next
  case (Cons d ds)
  have step: "\<And>m. effect e [] [] (snd lw) (snd (snd (open_devices e ds (set_last_error e m lw))))"
    using effect_set_last_error Cons.IH effect_trans0 by blast
  show ?case
    using Cons.IH [of lw] step effect_refl [of e "snd lw"]
    by (cases "select_dfu_interface d") (auto simp: Let_def)
qed

lemma effect_open_once:
  "effect e [] [] (snd lw) (snd (snd (open_stm32_dfu_device_once e n lw)))"
  using effect_open_devices effect_set_last_error
  by (cases "enumerate e n") (auto simp: open_stm32_dfu_device_once_def)

lemma effect_wait_for_loop:
  "effect e [] [] (snd lw) (snd (snd (wait_for_loop e t el lw)))"
proof (induction e t el lw rule: wait_for_loop.induct)
  case (1 e t el lw)
  show ?case
  proof (cases "el \<le> t")
    case False
    then show ?thesis
      by (subst wait_for_loop.simps) (simp add: effect_refl)
  next
    case True
    obtain r le w1 where o: "open_stm32_dfu_device_once e (el div 100) lw = (r, le, w1)"
      by (cases "open_stm32_dfu_device_once e (el div 100) lw") auto
    have e1: "effect e [] [] (snd lw) w1"
      using effect_open_once [of e lw "el div 100"] o by simp
    show ?thesis
    proof (cases r)
      case None
      have "effect e [] [] (snd (le, sleep 100 w1))
              (snd (snd (wait_for_loop e t (el + 100) (le, sleep 100 w1))))"
        using True o None by (intro "1.IH") simp_all
      then have "effect e [] [] w1 (snd (snd (wait_for_loop e t (el + 100) (le, sleep 100 w1))))"
        using effect_sleep [of e w1 100] effect_trans0' by fastforce
      then have "effect e [] [] (snd lw) (snd (snd (wait_for_loop e t (el + 100) (le, sleep 100 w1))))"
        using e1 effect_trans0' by blast
      then show ?thesis
        using True o None by (subst wait_for_loop.simps) simp
    next
      case (Some dev)
      then show ?thesis
        using True o e1 by (subst wait_for_loop.simps) simp
    qed
  qed
qed

lemma effect_wait_for_device:
  "effect e [] [] w (snd (wait_for_stm32_dfu_device e t w))"
proof -
  obtain r le w1 where l: "wait_for_loop e t 0 ([], w) = (r, le, w1)"
    by (cases "wait_for_loop e t 0 ([], w)") auto
  have e1: "effect e [] [] w w1"
    using effect_wait_for_loop [of e "([], w)" t 0] l by simp
  have st: "\<And>m. m \<noteq> [] \<Longrightarrow> effect e [] [] w (set_status e m w1)"
    using e1 effect_set_status effect_trans0 by blast
  show ?thesis
    unfolding wait_for_stm32_dfu_device_def l
    using e1 by (cases r) (auto intro!: st)
qed

lemma effect_load_firmware_file:
  "effect e [] [] w (snd (load_firmware_file e w))"
  by (auto simp: load_firmware_file_def Let_def effect_refl intro!: effect_set_status)

lemma phase_status: "phase e lo hi ps w w' \<Longrightarrow> status_set e w \<Longrightarrow> status_set e w'"
  unfolding phase_def effect_def by blast

lemma flash_run_phase:
  assumes "flash_run e w = Some (ok, w')"
  shows "\<exists>pages. phase e 0 99 pages w w' \<and> distinct_adj pages \<and> status_set e w'"
proof -
  define wa where "wa = set_status e ''Loading firmware file...'' (report_progress e 0 w)"
  have "phase e 0 0 [] w (report_progress e 0 w)"
    by (rule phase_progress) simp_all
  moreover have "phase e 0 0 [] (report_progress e 0 w) wa"
    unfolding wa_def by (rule phase_set_status) simp
  ultimately have pa: "phase e 0 0 [] w wa"
    by (rule phase_then_quiet) simp
  have sa: "status_set e wa"
    unfolding wa_def by (rule status_set_set_status) simp
  obtain r w1 where l: "load_firmware_file e wa = (r, w1)"
    by (cases "load_firmware_file e wa") auto
  have "phase e 0 0 [] wa w1"
    using effect_load_firmware_file [of e wa] l by (intro phase_silent) simp
  with pa have p1: "phase e 0 0 [] w w1"
    by (rule phase_then_quiet) simp
  have s1: "status_set e w1"
    using effect_load_firmware_file [of e wa] l sa by (simp add: effect_def)
  have fin: "\<And>u. phase e 0 0 [] w1 u \<Longrightarrow>
                \<exists>pages. phase e 0 99 pages w u \<and> distinct_adj pages \<and> status_set e u"
  proof -
    fix u
    assume u: "phase e 0 0 [] w1 u"
    with p1 have "phase e 0 0 [] w u"
      by (rule phase_then_quiet) simp
    then have "phase e 0 99 [] w u"
      by (rule phase_weaken) simp_all
    moreover have "status_set e u"
      using u s1 by (rule phase_status)
    ultimately show "\<exists>pages. phase e 0 99 pages w u \<and> distinct_adj pages \<and> status_set e u"
      by (intro exI [of _ "[]"]) simp
  qed
  show ?thesis
  proof (cases r)
    case None
    with assms l have "w' = w1"
      by (simp add: flash_run_def wa_def)
    then show ?thesis
      using fin [of w1] phase_silent [OF effect_refl] by simp
  next
    case (Some fw)
    define w2 where "w2 = set_status e ''Initialising USB...'' w1"
    have p2: "phase e 0 0 [] w1 w2"
      unfolding w2_def by (rule phase_set_status) simp
    show ?thesis
    proof (cases "init_ret e \<noteq> LIBUSB_SUCCESS")
      case True
      with assms l Some have "\<exists>m. m \<noteq> [] \<and> w' = set_status e m w2"
        by (auto simp: flash_run_def wa_def w2_def Let_def)
      then have "phase e 0 0 [] w2 w'"
        using phase_set_status by blast
      with p2 have "phase e 0 0 [] w1 w'"
        by (rule phase_then_quiet) simp
      then show ?thesis
        by (rule fin)
    next
      case False
      define w3 where "w3 = set_status e ''Waiting for DFU device...'' w2"
      have "phase e 0 0 [] w2 w3"
        unfolding w3_def by (rule phase_set_status) simp
      with p2 have p3: "phase e 0 0 [] w1 w3"
        by (rule phase_then_quiet) simp
      obtain d w4 where wf: "wait_for_stm32_dfu_device e 10000 w3 = (d, w4)"
        by (cases "wait_for_stm32_dfu_device e 10000 w3") auto
      have "phase e 0 0 [] w3 w4"
        using effect_wait_for_device [of e w3 10000] wf by (intro phase_silent) simp
      with p3 have p4: "phase e 0 0 [] w1 w4"
        by (rule phase_then_quiet) simp
      show ?thesis
      proof (cases d)
        case None
        with assms l Some False wf have "w' = w4"
          by (simp add: flash_run_def wa_def w2_def w3_def Let_def)
        with p4 show ?thesis
          using fin by simp
      next
        case (Some dev)
        with assms l \<open>r = Some fw\<close> False wf have "flash_device e fw dev w4 = Some (ok, w')"
          by (simp add: flash_run_def wa_def w2_def w3_def Let_def)
        from flash_device_phase [OF this] obtain pages
          where pd: "phase e 3 99 pages w4 w'" and da: "distinct_adj pages"
          by blast
        have "phase e 0 0 [] w w4"
          using p1 p4 by (rule phase_then_quiet) simp
        moreover have "phase e 0 99 pages w4 w'"
          using pd by (rule phase_weaken) simp_all
        ultimately have "phase e 0 99 pages w w'"
          by (rule phase_quiet_then) simp
        moreover have "status_set e w'"
          using pd phase_status [OF p4 s1] by (rule phase_status)
        ultimately show ?thesis
          using da by blast
      qed
    qed
  qed
qed

subsection \<open>The whole run\<close>

lemma dfu_loader_flash_phase:
  assumes "dfu_loader_flash e w = Some (ok, w')"
  shows "\<exists>X P pages.
           dnloads (wire w') = dnloads (wire w) @ X
           \<and> list_all block_ok X
           \<and> erase_page_payloads X = map (special_payload 0x41) pages
           \<and> distinct_adj pages
           \<and> sorted P \<and> list_all (\<lambda>p. 0 \<le> p \<and> p \<le> 99) P
           \<and> progress_log w' = progress_log w @ sink e (P @ (if ok then [100] else []))
           \<and> status_set e w'"
proof -
  from assms obtain w1 where r: "flash_run e w = Some (ok, w1)"
    and c: "flash_cleanup e ok w1 = (ok, w')"
    by (auto simp: dfu_loader_flash_def flash_cleanup_def Let_def split: option.splits)
  from flash_run_phase [OF r] obtain pages where p: "phase e 0 99 pages w w1"
    and d: "distinct_adj pages" and s: "status_set e w1"
    by blast
  from p obtain X P where x: "effect e X P w w1" "list_all block_ok X"
    "erase_page_payloads X = map (special_payload 0x41) pages" "sorted P"
    "list_all (\<lambda>p. 0 \<le> p \<and> p \<le> 99) P"
    unfolding phase_def by blast
  have e2: "effect e [] (if ok then [100] else []) w1 w'"
  proof (cases ok)
    case True
    with c have "w' = report_progress e 100 w1"
      by (simp add: flash_cleanup_def)
    then show ?thesis
      using True effect_report_progress by simp
  next
    case False
    with c have "w' = w1 \<or> w' = set_status e ''Unknown DFU failure'' w1"
      by (auto simp: flash_cleanup_def)
    then show ?thesis
      using False effect_refl [of e w1] effect_set_status [of "''Unknown DFU failure''" e w1]
      by auto
  qed
  have "effect e X (P @ (if ok then [100] else [])) w w'"
    using effect_trans [OF x(1) e2] by simp
  moreover have "status_set e w'"
    using e2 s by (simp add: effect_def)
  ultimately show ?thesis
    using x d unfolding effect_def by blast
qed

definition flash4 :: string where
  "flash4 = ''/0x08000000/1*4''"

definition xfer2 :: "u8 list" where
  "xfer2 = [9, 0x21, 0, 0, 0, 2, 0, 0, 0]"

definition dev2 :: stm32_dfu_device_t where
  "dev2 = zero_device\<lparr>handle := True, transfer_size := 2, last_erased_page := 0xFFFFFFFF\<rparr>"

definition seg4 :: stm32_dfu_segment_t where
  "seg4 = \<lparr>seg_start = 0x08000000, seg_end = 0x08000004, page_size = 4\<rparr>"

definition dev4 :: stm32_dfu_device_t where
  "dev4 = zero_device\<lparr>handle := True, transfer_size := 2, alt_name := flash4,
     last_erased_page := 0xFFFFFFFF, layout_valid := True, layout := [seg4]\<rparr>"

lemma layout4: "parse_alt_memory_layout (Some flash4) [] = (True, [seg4])"
  by (simp add: flash4_def seg4_def parse_defs parse_segment_def parse_segment_count_def
      parse_segment_size_def parse_size_bytes_def size_unit_def skip_type_letter_def
      strtoul_def skip_sign_def skip_hex_prefix_def digits_value_def is_digit_def digit_of_def
      isspace_def ULONG_MAX_def Let_def)

lemma truncate_flash4: "truncate_to 128 flash4 = flash4"
  by (simp add: flash4_def truncate_to_def)

lemma discovery4:
  "wait_for_loop (env0 flash4 xfer2 fw) 10000 0 ([], w) = (Some dev4, [], w)"
  by (simp add: wait_for_loop.simps open_stm32_dfu_device_once_def env0_def alt0_def
      select_dfu_interface_def is_dfu_alt_def select_alt_def LIBUSB_CLASS_APPLICATION_def
      STM32_VENDOR_ID_def STM32_PRODUCT_ID_def LIBUSB_SUCCESS_def
      parse_transfer_size_def parse_transfer_size_loop.simps zero_device_def layout4 dev4_def
      xfer2_def truncate_flash4)

subsection \<open>Runs on the device that is always ready\<close>

lemmas run_defs = dfu_loader_flash_def flash_run_def flash_cleanup_def flash_device_def
  flash_erase_phase_def flash_write_phase_def load_firmware_file_def
  wait_for_stm32_dfu_device_def write_loop.simps write_chunk_def write_chunk_erase_def
  write_chunk_send_def segment_at_def chunk_len_def chunk_address_def
  dfu_mass_erase_def dfu_set_address_pointer_def status_simps world0_def
  LIBUSB_SUCCESS_def zero_device_def chunk_size_of_def chunk_payload_def
  progress_percent_def special_payload_def STM32_BASE_ADDRESS_def fmt_X_8 hex_char_def
  fmt_u.simps Let_def

lemma env0_fields:
  "cb (env0 name ex fw) = True" "ctx (env0 name ex fw) = None"
  "status_buf (env0 name ex fw) = True" "status_buf_len (env0 name ex fw) = 64"
  "firmware (env0 name ex fw) = \<lparr>path_ok = True, open_ok = True, seek_ok = True,
      file_size = int (length fw), alloc_ok = True, read_bytes = fw\<rparr>"
  "init_ret (env0 name ex fw) = 0" "chunk_alloc_ok (env0 name ex fw) = True"
  "libusb_error_name (env0 name ex fw) = (\<lambda>_. ''ERR'')"
  by (simp_all add: env0_def)

lemmas ready0 = ready_wait_ready [OF ready_env0] ready_download_block [OF ready_env0]
  ready_prepare_idle [OF ready_env0] ready_special_command [OF ready_env0]

lemma run4:
  "dfu_loader_flash (env0 flash4 xfer2 [1, 2, 3, 4, 5]) world0 =
   Some (False,
     \<lparr>transfers = 13,
      wire =
        [Transfer GETSTATUS, Transfer (DNLOAD 0 [33, 0, 0, 0, 8]),
         Transfer GETSTATUS, Transfer (DNLOAD 0 [65, 0, 0, 0, 8]),
         Transfer GETSTATUS, Transfer (DNLOAD 0 [33, 0, 0, 0, 8]),
         Transfer GETSTATUS, Transfer (DNLOAD 2 [1, 2]), Transfer GETSTATUS,
         Transfer (DNLOAD 0 [33, 2, 0, 0, 8]), Transfer GETSTATUS,
         Transfer (DNLOAD 2 [3, 4]), Transfer GETSTATUS],
      status_text = ''Error: address 0x08000004 outside DFU segment'',
      status_log = [], progress_log = [0, 6, 42, 78]\<rparr>)"
  by (simp add: run_defs discovery4 ready0 env0_fields dev4_def seg4_def
      dfu_erase_range_def erase_range_loop.simps erase_pages.simps)

lemma run_init_failed:
  "dfu_loader_flash ((env0 [] xfer2 [1, 2, 3])\<lparr>init_ret := - 1\<rparr>) world0 =
   Some (False,
     \<lparr>transfers = 0, wire = [], status_text = ''Error: libusb init failed (ERR)'',
      status_log = [], progress_log = [0]\<rparr>)"
  by (simp add: run_defs env0_def)

lemma run_one_byte_buffer:
  "dfu_loader_flash ((env0 [] xfer2 [1, 2, 3])\<lparr>init_ret := - 1, status_buf_len := 1\<rparr>) world0 =
   Some (False,
     \<lparr>transfers = 0, wire = [], status_text = [], status_log = [], progress_log = [0]\<rparr>)"
  by (simp add: run_defs env0_def)

lemma run3:
  "dfu_loader_flash (env0 [] xfer2 [1, 2, 3]) world0 =
   Some (True,
   \<lparr>transfers = 16,
      wire =
        [Transfer GETSTATUS, Transfer (DNLOAD 0 [65]), Transfer GETSTATUS,
         Transfer GETSTATUS, Transfer (DNLOAD 0 [33, 0, 0, 0, 8]),
         Transfer GETSTATUS, Transfer (DNLOAD 0 [33, 0, 0, 0, 8]),
         Transfer GETSTATUS, Transfer (DNLOAD 2 [1, 2]), Transfer GETSTATUS,
         Transfer (DNLOAD 0 [33, 2, 0, 0, 8]), Transfer GETSTATUS,
         Transfer (DNLOAD 2 [3, 255]), Transfer GETSTATUS,
         Transfer (DNLOAD 2 []), Transfer GETSTATUS],
      status_text = ''Firmware written, device restarting'',
      status_log = [], progress_log = [0, 3, 5, 65, 95, 99, 100]\<rparr>)"
  using run0 by (simp add: xfer2_def)

definition unplugged_after :: "nat \<Rightarrow> nat \<Rightarrow> usb_request \<Rightarrow> usb_reply" where
  "unplugged_after n i req =
     (if n \<le> i then \<lparr>ret = LIBUSB_ERROR_NO_DEVICE, reply_data = []\<rparr> else ideal i req)"

definition env_unplugged :: "nat \<Rightarrow> env" where
  "env_unplugged n = (env0 [] xfer2 [1, 2, 3])\<lparr>device := unplugged_after n\<rparr>"

lemma unplugged_wait_ready:
  "dfu_wait_ready (env_unplugged n) a w
   = Some (if n \<le> transfers w then a else True, did [Transfer GETSTATUS] w)"
  by (rule wait_ready_done)
     (simp add: poll_eq Let_def env_unplugged_def unplugged_after_def ideal_def
        getstatus_reply_def reply_buffer_def LIBUSB_ERROR_NO_DEVICE_def)

lemma unplugged_download_block:
  "transfers w < n \<Longrightarrow>
   dfu_download_block (env_unplugged n) b p a w
   = Some (if n \<le> Suc (transfers w) then a else True,
           did [Transfer (DNLOAD b p), Transfer GETSTATUS] w)"
  by (simp add: dfu_download_block_def control_transfer_def unplugged_wait_ready)
     (simp add: env_unplugged_def unplugged_after_def ideal_def did_def)

lemma unplugged_discovery:
  "wait_for_loop (env_unplugged n) 10000 0 ([], w)
   = (Some (zero_device\<lparr>handle := True, transfer_size := 2, last_erased_page := 0xFFFFFFFF\<rparr>), [], w)"
  by (simp add: wait_for_loop.simps open_stm32_dfu_device_once_def env_unplugged_def env0_def
      alt0_def xfer2_def
      select_dfu_interface_def is_dfu_alt_def select_alt_def LIBUSB_CLASS_APPLICATION_def
      STM32_VENDOR_ID_def STM32_PRODUCT_ID_def LIBUSB_SUCCESS_def truncate_to_def
      parse_transfer_size_def parse_transfer_size_loop.simps zero_device_def parse_defs)

lemma env_unplugged_fields:
  "cb (env_unplugged n) = True" "ctx (env_unplugged n) = None"
  "status_buf (env_unplugged n) = True" "status_buf_len (env_unplugged n) = 64"
  "firmware (env_unplugged n) = \<lparr>path_ok = True, open_ok = True, seek_ok = True,
      file_size = 3, alloc_ok = True, read_bytes = [1, 2, 3]\<rparr>"
  "init_ret (env_unplugged n) = 0" "chunk_alloc_ok (env_unplugged n) = True"
  by (simp_all add: env_unplugged_def env0_def)

lemma run_unplugged_in_mass_erase:
  "dfu_loader_flash (env_unplugged 2) world0 =
   Some (False,
     \<lparr>transfers = 3,
      wire = [Transfer GETSTATUS, Transfer (DNLOAD 0 [0x41]), Transfer GETSTATUS],
      status_text = ''Performing mass erase...'', status_log = [], progress_log = [0, 3]\<rparr>)"
  by (simp add: run_defs unplugged_discovery unplugged_wait_ready unplugged_download_block
      dfu_prepare_idle_def dfu_send_special_command_def env_unplugged_fields)

section \<open>Block numbers, progress and status of a run\<close>

lemma world0_fields:
  "wire world0 = []" "progress_log world0 = []" "status_text world0 = []" "transfers world0 = 0"
  by (simp_all add: world0_def)

text \<open>
  C6. When the caller gave a progress sink, the values a run reports are sorted values
  between 0 and 99, followed by 100 when the run returns success and by nothing when it
  returns failure.
\<close>

theorem progress_monotone_100_iff_success:
  assumes "dfu_loader_flash e w = Some (ok, w')" and "has_progress_sink e"
  shows "\<exists>P. progress_log w' = progress_log w @ P @ (if ok then [100] else [])
           \<and> sorted P \<and> list_all (\<lambda>p. 0 \<le> p \<and> p \<le> 99) P"
  using dfu_loader_flash_phase [OF assms(1)] assms(2) unfolding sink_def by auto

text \<open>
  C6 on the run of three bytes in blocks of two.
\<close>

theorem progress_monotone_100_iff_success_witness:
  "dfu_loader_flash (env0 [] xfer2 [1, 2, 3]) world0 \<noteq> None
   \<and> has_progress_sink (env0 [] xfer2 [1, 2, 3])
   \<and> (\<exists>P. [0, 3, 5, 65, 95, 99, 100] = P @ [100 :: int]
           \<and> sorted P \<and> list_all (\<lambda>p. 0 \<le> p \<and> p \<le> 99) P)"
  using progress_monotone_100_iff_success [of "env0 [] xfer2 [1, 2, 3]" world0 True
          "snd (the (dfu_loader_flash (env0 [] xfer2 [1, 2, 3]) world0))"]
  unfolding run3 by (simp add: has_progress_sink_def env0_fields world0_fields)

text \<open>
  C9, as the code has it. After a run that returns false, a status buffer of at least two
  characters holds a message that is not empty and fits the buffer with its terminator.
\<close>

theorem failed_run_leaves_status:
  assumes "dfu_loader_flash e w = Some (False, w')"
    and "status_buf e" and "2 \<le> status_buf_len e"
  shows "status_text w' \<noteq> [] \<and> length (status_text w') < status_buf_len e"
proof -
  have "status_set e w'"
    using dfu_loader_flash_phase [OF assms(1)] by blast
  then show ?thesis
    using assms(2,3) unfolding status_set_def by blast
qed

text \<open>
  C9 on a run whose USB library fails to start.
\<close>

theorem failed_run_leaves_status_witness:
  "dfu_loader_flash ((env0 [] xfer2 [1, 2, 3])\<lparr>init_ret := - 1\<rparr>) world0
     = Some (False, \<lparr>transfers = 0, wire = [],
         status_text = ''Error: libusb init failed (ERR)'', status_log = [],
         progress_log = [0]\<rparr>)
   \<and> status_buf ((env0 [] xfer2 [1, 2, 3])\<lparr>init_ret := - 1\<rparr>)
   \<and> 2 \<le> status_buf_len ((env0 [] xfer2 [1, 2, 3])\<lparr>init_ret := - 1\<rparr>)
   \<and> ''Error: libusb init failed (ERR)'' \<noteq> []
   \<and> length ''Error: libusb init failed (ERR)''
       < status_buf_len ((env0 [] xfer2 [1, 2, 3])\<lparr>init_ret := - 1\<rparr>)"
  using failed_run_leaves_status [of "(env0 [] xfer2 [1, 2, 3])\<lparr>init_ret := - 1\<rparr>" world0
          "\<lparr>transfers = 0, wire = [],
            status_text = ''Error: libusb init failed (ERR)'', status_log = [],
            progress_log = [0]\<rparr>"]
  unfolding run_init_failed
  by (simp add: env0_def)

text \<open>
  C9 as stated fails twice. A buffer of length 1 has room for the terminator alone, and the
  message is empty after the failed run. And when the device is unplugged while the mass
  erase is polled, \<open>dfu_wait_ready\<close> returns false without a message: the buffer is not
  empty at the cleanup, so the fallback is not written, and the run ends with the text of
  the step before, \<open>Performing mass erase...\<close>.
\<close>

theorem one_byte_status_buffer_counterexample:
  "status_buf ((env0 [] xfer2 [1, 2, 3])\<lparr>init_ret := - 1, status_buf_len := 1\<rparr>)
   \<and> status_buf_len ((env0 [] xfer2 [1, 2, 3])\<lparr>init_ret := - 1, status_buf_len := 1\<rparr>) \<noteq> 0
   \<and> (\<exists>w'. dfu_loader_flash
              ((env0 [] xfer2 [1, 2, 3])\<lparr>init_ret := - 1, status_buf_len := 1\<rparr>) world0
            = Some (False, w') \<and> status_text w' = [])
   \<and> status_buf (env_unplugged 2) \<and> status_buf_len (env_unplugged 2) = 64
   \<and> (\<exists>w'. dfu_loader_flash (env_unplugged 2) world0 = Some (False, w')
            \<and> status_text w' = ''Performing mass erase...''
            \<and> status_text w' \<noteq> take 63 ''Unknown DFU failure'')"
  unfolding run_one_byte_buffer run_unplugged_in_mass_erase
  by (simp add: env0_def env_unplugged_fields)

section \<open>Segments and erased pages\<close>

definition non_overlapping :: "stm32_dfu_memory_layout_t \<Rightarrow> bool" where
  "non_overlapping lay =
     (\<forall>i < length lay. \<forall>j < length lay. i \<noteq> j \<longrightarrow>
        seg_end (lay ! i) \<le> seg_start (lay ! j) \<or> seg_end (lay ! j) \<le> seg_start (lay ! i))"

lemma non_overlapping_unique:
  assumes n: "non_overlapping lay" and s: "s \<in> set lay" and t: "t \<in> set lay"
    and sa: "seg_start s \<le> a" "a < seg_end s" and ta: "seg_start t \<le> a" "a < seg_end t"
  shows "t = s"
proof -
  from s t obtain i j where i: "i < length lay" "lay ! i = s" and j: "j < length lay" "lay ! j = t"
    by (auto simp: in_set_conv_nth)
  show ?thesis
  proof (cases "i = j")
    case True
    with i j show ?thesis
      by simp
  next
    case False
    with n i j have "seg_end s \<le> seg_start t \<or> seg_end t \<le> seg_start s"
      unfolding non_overlapping_def by blast
    with sa ta show ?thesis
      by auto
  qed
qed

lemma write_chunk_outside:
  assumes "layout_valid dev" and "find_segment (layout dev) (chunk_address written) = None"
  shows "write_chunk e fw written dev w
         = Some (False, written, dev,
             set_status e (''Error: address 0x'' @ fmt_X 8 (unat (chunk_address written))
                           @ '' outside DFU segment'') w)"
  using assms by (simp add: write_chunk_def segment_at_def)

lemma write_loop_outside:
  assumes "layout_valid dev" and "written < length fw"
    and "find_segment (layout dev) (chunk_address written) = None"
  shows "write_loop e fw written dev w
         = Some (False, dev,
             set_status e (''Error: address 0x'' @ fmt_X 8 (unat (chunk_address written))
                           @ '' outside DFU segment'') w)"
  using assms(2) by (subst write_loop.simps) (simp add: write_chunk_outside [OF assms(1,3)])

text \<open>
  C8. \<open>find_segment\<close> returns a segment of the layout that holds the address, the only
  such segment when no two segments overlap; it returns a segment whenever one holds the
  address, and none when none does. When the layout is valid and no segment holds the
  address of the next chunk, the write loop fails with the message
  \<open>Error: address 0x... outside DFU segment\<close>, and sends nothing more.
\<close>

theorem find_segment_contains_or_fails:
  "(find_segment lay a = Some s \<longrightarrow>
      s \<in> set lay \<and> seg_start s \<le> a \<and> a < seg_end s
      \<and> (non_overlapping lay \<longrightarrow>
           (\<forall>t\<in>set lay. seg_start t \<le> a \<and> a < seg_end t \<longrightarrow> t = s)))
   \<and> ((\<exists>t\<in>set lay. seg_start t \<le> a \<and> a < seg_end t) \<longrightarrow> find_segment lay a \<noteq> None)
   \<and> ((\<forall>t\<in>set lay. \<not> (seg_start t \<le> a \<and> a < seg_end t)) \<longrightarrow> find_segment lay a = None)
   \<and> (layout_valid dev \<and> written < length fw
        \<and> find_segment (layout dev) (chunk_address written) = None \<longrightarrow>
      write_loop e fw written dev w
        = Some (False, dev,
            set_status e (''Error: address 0x'' @ fmt_X 8 (unat (chunk_address written))
                          @ '' outside DFU segment'') w))"
proof -
  have 1: "find_segment lay a = Some s \<longrightarrow>
      s \<in> set lay \<and> seg_start s \<le> a \<and> a < seg_end s
      \<and> (non_overlapping lay \<longrightarrow>
           (\<forall>t\<in>set lay. seg_start t \<le> a \<and> a < seg_end t \<longrightarrow> t = s))"
    using find_segment_Some [of lay a s] non_overlapping_unique [of lay s _ a] by blast
  have 2: "(\<exists>t\<in>set lay. seg_start t \<le> a \<and> a < seg_end t) \<longrightarrow> find_segment lay a \<noteq> None"
    using find_segment_None [of lay a] by blast
  have 3: "(\<forall>t\<in>set lay. \<not> (seg_start t \<le> a \<and> a < seg_end t)) \<longrightarrow> find_segment lay a = None"
    using find_segment_None [of lay a] by blast
  have 4: "layout_valid dev \<and> written < length fw
        \<and> find_segment (layout dev) (chunk_address written) = None \<longrightarrow>
      write_loop e fw written dev w
        = Some (False, dev,
            set_status e (''Error: address 0x'' @ fmt_X 8 (unat (chunk_address written))
                          @ '' outside DFU segment'') w)"
    using write_loop_outside by blast
  from 1 2 3 4 show ?thesis
    by (intro conjI)
qed

definition seg_22000 :: stm32_dfu_segment_t where
  "seg_22000 = \<lparr>seg_start = 0x08000000, seg_end = 0x08022000, page_size = 1024\<rparr>"

text \<open>
  C8 on a segment that ends at \<open>0x08022000\<close>, and on a run of five bytes to a device whose
  only segment holds four: the fifth byte is at the end of the segment, and the run fails.
\<close>

theorem find_segment_contains_or_fails_witness:
  "find_segment [seg_22000] 0x08021FFF = Some seg_22000
   \<and> non_overlapping [seg_22000]
   \<and> find_segment [seg_22000] 0x08022000 = None
   \<and> layout_valid dev4 \<and> layout dev4 = [seg4] \<and> chunk_address 4 = seg_end seg4
   \<and> write_loop (env0 flash4 xfer2 [1, 2, 3, 4, 5]) [1, 2, 3, 4, 5] 4 dev4 world0
       = Some (False, dev4,
           world0\<lparr>status_text := ''Error: address 0x08000004 outside DFU segment''\<rparr>)
   \<and> (\<exists>w'. dfu_loader_flash (env0 flash4 xfer2 [1, 2, 3, 4, 5]) world0 = Some (False, w')
            \<and> status_text w' = ''Error: address 0x08000004 outside DFU segment'')"
proof -
  have 1: "find_segment [seg_22000] 0x08021FFF = Some seg_22000"
    by (simp add: seg_22000_def)
  have 2: "non_overlapping [seg_22000]"
    by (simp add: non_overlapping_def)
  have 3: "find_segment [seg_22000] 0x08022000 = None"
    using find_segment_contains_or_fails [of "[seg_22000]" "0x08022000"]
    by (simp add: seg_22000_def)
  have 4: "layout_valid dev4 \<and> layout dev4 = [seg4] \<and> chunk_address 4 = seg_end seg4"
    by (simp add: dev4_def seg4_def chunk_address_def STM32_BASE_ADDRESS_def)
  have 5: "write_loop (env0 flash4 xfer2 [1, 2, 3, 4, 5]) [1, 2, 3, 4, 5] 4 dev4 world0
       = Some (False, dev4,
           world0\<lparr>status_text := ''Error: address 0x08000004 outside DFU segment''\<rparr>)"
    using find_segment_contains_or_fails [of "[seg4]" "0x08000004" _ dev4 4 "[1, 2, 3, 4, 5]"
            "env0 flash4 xfer2 [1, 2, 3, 4, 5]" world0]
    by (simp add: dev4_def seg4_def chunk_address_def STM32_BASE_ADDRESS_def env0_fields
        status_simps fmt_X_8 hex_char_def)
  have 6: "\<exists>w'. dfu_loader_flash (env0 flash4 xfer2 [1, 2, 3, 4, 5]) world0 = Some (False, w')
            \<and> status_text w' = ''Error: address 0x08000004 outside DFU segment''"
    unfolding run4 by simp
  from 1 2 3 4 5 6 show ?thesis
    by blast
qed

text \<open>
  C7. The erase-page commands of one \<open>dfu_erase_range\<close> are for pages of which the first
  differs from \<open>last_erased_page\<close> and each differs from the one before; after success
  \<open>last_erased_page\<close> is the last of them. After the erase of a range inside one page, the
  erase of a range inside the same page sends nothing. And in a whole run no two erase-page
  commands in a row are for the same page.
\<close>

theorem erase_planner_skips_last_erased_page:
  "(dfu_erase_range e dev a1 l1 w = Some (ok, dev1, w1) \<longrightarrow>
      (\<exists>pages. dnloads (wire w1) = dnloads (wire w) @ map erase_cmd pages
         \<and> distinct_adj (last_erased_page dev # pages)
         \<and> (ok \<longrightarrow> last_erased_page dev1 = last (last_erased_page dev # pages))))
   \<and> (dfu_erase_range e dev a1 l1 w = Some (True, dev1, w1)
        \<and> in_page dev seg page a1 l1 \<and> in_page dev seg page a2 l2 \<longrightarrow>
      dfu_erase_range e dev1 a2 l2 w1 = Some (True, dev1, w1))
   \<and> (dfu_loader_flash e w = Some (ok, w') \<longrightarrow>
      (\<exists>X pages. dnloads (wire w') = dnloads (wire w) @ X
         \<and> erase_page_payloads X = map (special_payload 0x41) pages
         \<and> distinct_adj pages))"
proof -
  have 1: "dfu_erase_range e dev a1 l1 w = Some (ok, dev1, w1) \<longrightarrow>
      (\<exists>pages. dnloads (wire w1) = dnloads (wire w) @ map erase_cmd pages
         \<and> distinct_adj (last_erased_page dev # pages)
         \<and> (ok \<longrightarrow> last_erased_page dev1 = last (last_erased_page dev # pages)))"
  proof
    assume "dfu_erase_range e dev a1 l1 w = Some (ok, dev1, w1)"
    from dfu_erase_range_erased [OF this] obtain pages
      where "erased e dev w pages (ok, dev1, w1)"
      by blast
    then show "\<exists>pages. dnloads (wire w1) = dnloads (wire w) @ map erase_cmd pages
         \<and> distinct_adj (last_erased_page dev # pages)
         \<and> (ok \<longrightarrow> last_erased_page dev1 = last (last_erased_page dev # pages))"
      unfolding erased_def effect_def by (intro exI [of _ pages]) auto
  qed
  have 2: "dfu_erase_range e dev a1 l1 w = Some (True, dev1, w1)
        \<and> in_page dev seg page a1 l1 \<and> in_page dev seg page a2 l2 \<longrightarrow>
      dfu_erase_range e dev1 a2 l2 w1 = Some (True, dev1, w1)"
    using erase_again by blast
  have 3: "dfu_loader_flash e w = Some (ok, w') \<longrightarrow>
      (\<exists>X pages. dnloads (wire w') = dnloads (wire w) @ X
         \<and> erase_page_payloads X = map (special_payload 0x41) pages
         \<and> distinct_adj pages)"
    using dfu_loader_flash_phase [of e w ok w'] by blast
  from 1 2 3 show ?thesis
    by (intro conjI)
qed

lemma erase_first4:
  "dfu_erase_range (env0 flash4 xfer2 fw) dev4 0x08000000 2 world0
   = Some (True, dev4\<lparr>last_erased_page := 0x08000000\<rparr>,
       world0\<lparr>transfers := 2,
              wire := [Transfer (DNLOAD 0 [0x41, 0, 0, 0, 8]), Transfer GETSTATUS]\<rparr>)"
  by (simp add: dfu_erase_range_def erase_range_loop.simps erase_pages.simps dev4_def seg4_def
      ready0 did_def world0_def special_payload_def)

lemma in_page4:
  "in_page dev4 seg4 0x08000000 0x08000000 2" "in_page dev4 seg4 0x08000000 0x08000002 2"
  by (simp_all add: in_page_def dev4_def seg4_def page_base_of_def)

text \<open>
  C7 on a device with one page of four bytes: the second chunk lies in the page of the
  first.
\<close>

theorem erase_planner_skips_last_erased_page_witness:
  "dfu_erase_range (env0 flash4 xfer2 []) dev4 0x08000000 2 world0
     = Some (True, dev4\<lparr>last_erased_page := 0x08000000\<rparr>,
         world0\<lparr>transfers := 2,
                wire := [Transfer (DNLOAD 0 [0x41, 0, 0, 0, 8]), Transfer GETSTATUS]\<rparr>)
   \<and> in_page dev4 seg4 0x08000000 0x08000000 2 \<and> in_page dev4 seg4 0x08000000 0x08000002 2
   \<and> dfu_erase_range (env0 flash4 xfer2 []) (dev4\<lparr>last_erased_page := 0x08000000\<rparr>) 0x08000002 2
       (world0\<lparr>transfers := 2,
               wire := [Transfer (DNLOAD 0 [0x41, 0, 0, 0, 8]), Transfer GETSTATUS]\<rparr>)
     = Some (True, dev4\<lparr>last_erased_page := 0x08000000\<rparr>,
         world0\<lparr>transfers := 2,
                wire := [Transfer (DNLOAD 0 [0x41, 0, 0, 0, 8]), Transfer GETSTATUS]\<rparr>)
   \<and> (\<exists>w'. dfu_loader_flash (env0 flash4 xfer2 [1, 2, 3, 4, 5]) world0 = Some (False, w')
        \<and> (\<exists>X pages. dnloads (wire w') = dnloads (wire world0) @ X
              \<and> erase_page_payloads X = map (special_payload 0x41) pages
              \<and> distinct_adj pages))"
proof -
  let ?e = "env0 flash4 xfer2 []"
  let ?d1 = "dev4\<lparr>last_erased_page := 0x08000000\<rparr>"
  let ?w1 = "world0\<lparr>transfers := 2,
                wire := [Transfer (DNLOAD 0 [0x41, 0, 0, 0, 8]), Transfer GETSTATUS]\<rparr>"
  obtain w' where r: "dfu_loader_flash (env0 flash4 xfer2 [1, 2, 3, 4, 5]) world0 = Some (False, w')"
    using run4 by blast
  have a: "dfu_erase_range ?e ?d1 0x08000002 2 ?w1 = Some (True, ?d1, ?w1)"
    using erase_planner_skips_last_erased_page
            [of ?e dev4 "0x08000000" 2 world0 True ?d1 ?w1 seg4 "0x08000000" "0x08000002" 2]
          erase_first4 [of "[]"] in_page4
    by blast
  have b: "\<exists>X pages. dnloads (wire w') = dnloads (wire world0) @ X
              \<and> erase_page_payloads X = map (special_payload 0x41) pages
              \<and> distinct_adj pages"
    using erase_planner_skips_last_erased_page
            [where e = "env0 flash4 xfer2 [1, 2, 3, 4, 5]" and w = world0 and ok = False
               and w' = w'] r
    by blast
  from a b r erase_first4 [of "[]"] in_page4 show ?thesis
    by blast
qed

section \<open>The chunks of an image\<close>

text \<open>\<open>data_chunks T xs\<close> cuts a list into consecutive pieces of length \<open>T\<close>, the last
  one shorter when the length is not a multiple of \<open>T\<close>; \<open>pad_even\<close> is the padding of
  the layout-aware loader, and \<open>data_of\<close> takes the payloads of the blocks numbered 2.\<close>

function data_chunks :: "nat \<Rightarrow> 'a list \<Rightarrow> 'a list list" where
  "data_chunks T xs = (if T = 0 \<or> xs = [] then [] else take T xs # data_chunks T (drop T xs))"
  by pat_completeness auto
termination
  by (relation "measure (\<lambda>(T, xs). length xs)") auto

declare data_chunks.simps [simp del]

definition pad_even :: "u8 list \<Rightarrow> u8 list" where
  "pad_even c = (if length c mod 2 \<noteq> 0 then c @ [0xFF] else c)"

definition data_of :: "(u16 \<times> u8 list) list \<Rightarrow> u8 list list" where
  "data_of X = map snd (filter (\<lambda>x. fst x = 2) X)"

lemma data_chunks_Nil [simp]: "data_chunks T [] = []"
  by (simp add: data_chunks.simps)

lemma concat_data_chunks: "0 < T \<Longrightarrow> concat (data_chunks T xs) = xs"
proof (induction T xs rule: data_chunks.induct)
  case (1 T xs)
  then show ?case
    by (subst data_chunks.simps) simp
qed

lemma ceil_div_step: "0 < T \<Longrightarrow> 0 < n \<Longrightarrow> (n + T - 1) div T = Suc ((n - 1) div T)"
proof -
  assume T: "0 < T" and n: "0 < n"
  have "n + T - 1 = (n - 1) + T"
    using n by arith
  then have "(n + T - 1) div T = ((n - 1) + T) div T"
    by (rule arg_cong)
  also have "\<dots> = Suc ((n - 1) div T)"
    using T by (simp only: div_add_self2)
  finally show ?thesis .
qed

lemma length_data_chunks: "0 < T \<Longrightarrow> length (data_chunks T xs) = (length xs + T - 1) div T"
proof (induction T xs rule: data_chunks.induct)
  case (1 T xs)
  show ?case
  proof (cases "xs = []")
    case True
    then show ?thesis
      using 1(2) by simp
  next
    case False
    then have l: "0 < length xs"
      by simp
    have ih: "length (data_chunks T (drop T xs)) = (length (drop T xs) + T - 1) div T"
      using 1(1) 1(2) False by blast
    have u: "length (data_chunks T xs) = Suc (length (data_chunks T (drop T xs)))"
      using False 1(2) by (subst data_chunks.simps) simp
    have c: "(length xs + T - 1) div T = Suc ((length xs - 1) div T)"
      using 1(2) l by (rule ceil_div_step)
    show ?thesis
    proof (cases "length xs \<le> T")
      case True
      then have "(length xs - 1) div T = 0"
        using l by (intro div_less) arith
      moreover have "data_chunks T (drop T xs) = []"
        using True by simp
      ultimately show ?thesis
        unfolding u c by simp
    next
      case gt: False
      have "length (drop T xs) + T - 1 = length xs - 1"
        using gt by simp
      then show ?thesis
        unfolding u c ih by simp
    qed
  qed
qed

lemma data_chunks_sizes:
  "c \<in> set (data_chunks T xs) \<Longrightarrow> 1 \<le> length c \<and> length c \<le> T"
proof (induction T xs rule: data_chunks.induct)
  case (1 T xs)
  show ?case
  proof (cases "T = 0 \<or> xs = []")
    case True
    with 1(2) show ?thesis
      by (simp add: data_chunks.simps)
  next
    case False
    with 1(2) have "c = take T xs \<or> c \<in> set (data_chunks T (drop T xs))"
      by (subst (asm) data_chunks.simps) simp
    then show ?thesis
      using 1(1) False by (cases xs) auto
  qed
qed

lemma data_chunks_full:
  "c \<in> set (butlast (data_chunks T xs)) \<Longrightarrow> length c = T"
proof (induction T xs rule: data_chunks.induct)
  case (1 T xs)
  show ?case
  proof (cases "T = 0 \<or> xs = []")
    case True
    with 1(2) show ?thesis
      by (simp add: data_chunks.simps)
  next
    case False
    show ?thesis
    proof (cases "data_chunks T (drop T xs) = []")
      case True
      with 1(2) False show ?thesis
        by (subst (asm) data_chunks.simps) simp
    next
      case ne: False
      then have "drop T xs \<noteq> []"
        by auto
      then have "length (take T xs) = T"
        by simp
      moreover from 1(2) False ne
      have "c = take T xs \<or> c \<in> set (butlast (data_chunks T (drop T xs)))"
        by (subst (asm) data_chunks.simps) simp
      ultimately show ?thesis
        using 1(1) False by blast
    qed
  qed
qed

lemma data_of_append: "data_of (X @ Y) = data_of X @ data_of Y"
  by (simp add: data_of_def)

lemma data_of_erase_cmds: "data_of (map erase_cmd pages) = []"
  by (induction pages) (simp_all add: data_of_def erase_cmd_def)

lemma data_of_chunk_cmds:
  "data_of (chunk_cmds dev fw written) = [chunk_payload fw written (chunk_len dev fw written)]"
  by (simp add: data_of_def chunk_cmds_def)

lemma chunk_len_unknown:
  "\<not> layout_valid dev \<Longrightarrow>
   chunk_len dev fw written = min (length fw - written) (unat (transfer_size dev))"
  by (simp add: chunk_len_def chunk_size_of_def segment_at_def Let_def min_def)

lemma chunk_payload_pad:
  assumes "n \<le> length fw - written" and "n < 65535"
  shows "chunk_payload fw written n = pad_even (take n (drop written fw))"
proof -
  have l: "length (take n (drop written fw)) = n"
    using assms(1) by simp
  have u: "\<And>m. m \<le> 65535 \<Longrightarrow> unat (word_of_nat m :: u16) = m"
    by (simp add: unat_of_nat take_bit_nat_eq_self)
  show ?thesis
  proof (cases "n mod 2 \<noteq> 0")
    case True
    have "unat (word_of_nat (n + 1) :: u16) = n + 1"
      using assms(2) by (intro u) simp
    then show ?thesis
      using True l by (simp add: chunk_payload_def pad_even_def Let_def)
  next
    case False
    have "unat (word_of_nat n :: u16) = n"
      using assms(2) by (intro u) simp
    then show ?thesis
      using False l by (simp add: chunk_payload_def pad_even_def Let_def)
  qed
qed

lemma data_chunks_step:
  assumes "0 < T" and "written < length fw"
  shows "data_chunks T (drop written fw)
         = take (min (length fw - written) T) (drop written fw)
           # data_chunks T (drop (written + min (length fw - written) T) fw)"
proof -
  have ne: "drop written fw \<noteq> []"
    using assms(2) by simp
  have 1: "take (min (length fw - written) T) (drop written fw) = take T (drop written fw)"
    by (simp add: min_def)
  have 2: "data_chunks T (drop (written + min (length fw - written) T) fw)
           = data_chunks T (drop T (drop written fw))"
  proof (cases "length fw - written \<le> T")
    case True
    then show ?thesis
      by (simp add: min_def)
  next
    case False
    then show ?thesis
      by (simp add: min_def add.commute)
  qed
  show ?thesis
    unfolding 1 2 using assms(1) ne by (subst data_chunks.simps) simp
qed

section \<open>The blocks of the write loop\<close>

text \<open>\<open>chunk_plan\<close> lists the blocks of a write loop that runs to its end, the erase-page
  commands left out: for every chunk the address pointer and the data block.
  \<open>follows plan ok\<close> says of two worlds that the blocks sent between them, the erase-page
  commands left out, are a prefix of the plan, and the whole plan when \<open>ok\<close> holds.\<close>

definition without_erases :: "(u16 \<times> u8 list) list \<Rightarrow> (u16 \<times> u8 list) list" where
  "without_erases X = filter (\<lambda>x. \<not> is_erase_page x) X"

definition follows :: "(u16 \<times> u8 list) list \<Rightarrow> bool \<Rightarrow> world \<Rightarrow> world \<Rightarrow> bool" where
  "follows plan ok w w' =
     (\<exists>X k. dnloads (wire w') = dnloads (wire w) @ X
        \<and> without_erases X = take k plan
        \<and> (ok \<longrightarrow> without_erases X = plan))"

function chunk_plan :: "stm32_dfu_device_t \<Rightarrow> u8 list \<Rightarrow> nat \<Rightarrow> (u16 \<times> u8 list) list" where
  "chunk_plan dev fw written =
     (if written < length fw \<and> \<not> (layout_valid dev \<and> segment_at dev written = None)
         \<and> 0 < chunk_len dev fw written
      then chunk_cmds dev fw written @ chunk_plan dev fw (written + chunk_len dev fw written)
      else [])"
  by pat_completeness auto
termination
  by (relation "measure (\<lambda>(dev, fw, written). length fw - written)") auto

declare chunk_plan.simps [simp del]

lemma without_erases_append:
  "without_erases (X @ Y) = without_erases X @ without_erases Y"
  by (simp add: without_erases_def)

lemma without_erases_erase_cmds: "without_erases (map erase_cmd pages) = []"
  by (induction pages)
     (simp_all add: without_erases_def erase_cmd_def is_erase_page_def special_payload_def)

lemma without_erases_chunk_cmds:
  "without_erases (take k (chunk_cmds dev fw written)) = take k (chunk_cmds dev fw written)"
proof -
  have "\<forall>x\<in>set (chunk_cmds dev fw written). \<not> is_erase_page x"
    by (simp add: chunk_cmds_def is_erase_page_def special_payload_def)
  then have "\<forall>x\<in>set (take k (chunk_cmds dev fw written)). \<not> is_erase_page x"
    using in_set_takeD by fast
  then show ?thesis
    by (simp add: without_erases_def)
qed

lemma follows_exact:
  "effect e X P w w' \<Longrightarrow> without_erases X = plan \<Longrightarrow> follows plan ok w w'"
  unfolding follows_def effect_def
  by (intro exI [of _ X] exI [of _ "length plan"]) simp

lemma follows_prefix:
  "effect e X P w w' \<Longrightarrow> without_erases X = take k plan \<Longrightarrow> follows plan False w w'"
  unfolding follows_def effect_def
  by (intro exI [of _ X] exI [of _ k]) simp

lemma follows_silent: "effect e [] P w w' \<Longrightarrow> follows [] ok w w'"
  using follows_exact [of e "[]" P w w' "[]" ok] by (simp add: without_erases_def)

lemma follows_True:
  "follows p True w w'
   = (\<exists>X. dnloads (wire w') = dnloads (wire w) @ X \<and> without_erases X = p)"
proof
  assume "follows p True w w'"
  then show "\<exists>X. dnloads (wire w') = dnloads (wire w) @ X \<and> without_erases X = p"
    unfolding follows_def by blast
next
  assume "\<exists>X. dnloads (wire w') = dnloads (wire w) @ X \<and> without_erases X = p"
  then obtain X where "dnloads (wire w') = dnloads (wire w) @ X" "without_erases X = p"
    by blast
  then show "follows p True w w'"
    unfolding follows_def by (intro exI [of _ X] exI [of _ "length p"]) simp
qed

lemma follows_then:
  assumes 1: "follows p1 True w w1" and 2: "follows p2 ok w1 w2"
  shows "follows (p1 @ p2) ok w w2"
proof -
  from 1 obtain X1 where x1: "dnloads (wire w1) = dnloads (wire w) @ X1"
    "without_erases X1 = p1"
    unfolding follows_True by blast
  from 2 obtain X2 k where x2: "dnloads (wire w2) = dnloads (wire w1) @ X2"
    "without_erases X2 = take k p2" "ok \<longrightarrow> without_erases X2 = p2"
    unfolding follows_def by blast
  have "dnloads (wire w2) = dnloads (wire w) @ (X1 @ X2)"
    using x1 x2 by simp
  moreover have "without_erases (X1 @ X2) = take (length p1 + k) (p1 @ p2)"
    using x1 x2 by (simp add: without_erases_append)
  moreover have "ok \<longrightarrow> without_erases (X1 @ X2) = p1 @ p2"
    using x1 x2 by (simp add: without_erases_append)
  ultimately show ?thesis
    unfolding follows_def by blast
qed

lemma follows_then':
  "follows p1 ok1 w w1 \<Longrightarrow> ok1 \<Longrightarrow> follows p2 ok w1 w2 \<Longrightarrow> follows (p1 @ p2) ok w w2"
  using follows_then [of p1 w w1 p2 ok w2] by simp

lemma follows_stop:
  assumes "follows p1 False w w1"
  shows "follows (p1 @ p2) False w w1"
proof -
  from assms obtain X k where x: "dnloads (wire w1) = dnloads (wire w) @ X"
    "without_erases X = take k p1"
    unfolding follows_def by blast
  have "take k p1 = take (min k (length p1)) (p1 @ p2)"
    by (simp add: min_def)
  with x have "dnloads (wire w1) = dnloads (wire w) @ X
      \<and> without_erases X = take (min k (length p1)) (p1 @ p2)
      \<and> (False \<longrightarrow> without_erases X = p1 @ p2)"
    by simp
  then show ?thesis
    unfolding follows_def by blast
qed

lemma follows_weaken: "follows p ok w w' \<Longrightarrow> follows p False w w'"
  unfolding follows_def by blast

lemma follows_after:
  "follows p ok w w1 \<Longrightarrow> effect e [] P w1 w2 \<Longrightarrow> follows p ok w w2"
  unfolding follows_def effect_def by simp

lemma follows_before:
  "effect e [] P w w1 \<Longrightarrow> follows p ok w1 w2 \<Longrightarrow> follows p ok w w2"
  unfolding follows_def effect_def by simp

lemma segment_at_cong:
  "layout_valid d1 = layout_valid d2 \<Longrightarrow> layout d1 = layout d2 \<Longrightarrow>
   segment_at d1 written = segment_at d2 written"
  by (simp add: segment_at_def)

lemma chunk_size_of_cong:
  "transfer_size d1 = transfer_size d2 \<Longrightarrow>
   chunk_size_of d1 n written seg = chunk_size_of d2 n written seg"
  unfolding chunk_size_of_def by (cases seg) (simp_all add: Let_def)

lemma chunk_len_cong:
  "layout_valid d1 = layout_valid d2 \<Longrightarrow> layout d1 = layout d2 \<Longrightarrow>
   transfer_size d1 = transfer_size d2 \<Longrightarrow> chunk_len d1 fw written = chunk_len d2 fw written"
  unfolding chunk_len_def
  using chunk_size_of_cong [of d1 d2] segment_at_cong [of d1 d2] by simp

lemma chunk_plan_cong:
  assumes "layout_valid d1 = layout_valid d2" "layout d1 = layout d2"
    "transfer_size d1 = transfer_size d2"
  shows "chunk_plan d1 fw written = chunk_plan d2 fw written"
  using assms
proof (induction d1 fw written rule: chunk_plan.induct)
  case (1 d1 fw written)
  have s: "segment_at d1 written = segment_at d2 written"
    using 1(2,3) by (rule segment_at_cong)
  have l: "chunk_len d1 fw written = chunk_len d2 fw written"
    using 1(2,3,4) by (rule chunk_len_cong)
  have c: "chunk_cmds d1 fw written = chunk_cmds d2 fw written"
    by (simp add: chunk_cmds_def l)
  show ?case
  proof (cases "written < length fw \<and> \<not> (layout_valid d1 \<and> segment_at d1 written = None)
         \<and> 0 < chunk_len d1 fw written")
    case True
    then have "chunk_plan d1 fw (written + chunk_len d1 fw written)
               = chunk_plan d2 fw (written + chunk_len d1 fw written)"
      using 1 by blast
    then show ?thesis
      using True s l c 1(2)
      by (subst chunk_plan.simps, subst (2) chunk_plan.simps) simp
  next
    case False
    then show ?thesis
      using s l 1(2) by (subst chunk_plan.simps, subst (2) chunk_plan.simps) auto
  qed
qed

lemma chunk_len_pos:
  assumes "written < length fw" and "transfer_size dev \<noteq> 0"
    and "\<not> (layout_valid dev \<and> segment_at dev written = None)"
  shows "0 < chunk_len dev fw written"
proof -
  have t: "0 < unat (transfer_size dev)"
    using assms(2) by (simp add: unat_gt_0)
  show ?thesis
  proof (cases "segment_at dev written")
    case None
    then show ?thesis
      using assms(1) t by (simp add: chunk_len_def chunk_size_of_def Let_def)
  next
    case (Some seg)
    then have "find_segment (layout dev) (chunk_address written) = Some seg"
      by (simp add: segment_at_def split: if_splits)
    then have "chunk_address written < seg_end seg"
      using find_segment_Some by blast
    then have "0 < unat (seg_end seg - chunk_address written)"
      by (simp add: unat_gt_0)
    then show ?thesis
      using Some assms(1) t by (simp add: chunk_len_def chunk_size_of_def Let_def)
  qed
qed

lemma write_chunk_follows:
  assumes "write_chunk e fw written dev w = Some (ok, written', dev', w')"
  shows "follows (chunk_cmds dev fw written) ok w w'"
proof -
  from write_chunk_steps [OF assms] obtain pages k y
    where er: "erased e dev w pages y"
      and ef: "effect e (take k (chunk_cmds dev fw written))
                (if ok then [progress_percent dev (written + chunk_len dev fw written) (length fw)]
                 else []) (snd (snd y)) w'"
      and k: "ok \<longrightarrow> k = 2"
    by blast
  from er have "effect e (map erase_cmd pages) [] w (snd (snd y))"
    by (simp add: erased_def)
  from effect_trans [OF this ef]
  have ee: "effect e (map erase_cmd pages @ take k (chunk_cmds dev fw written))
              (if ok then [progress_percent dev (written + chunk_len dev fw written) (length fw)]
               else []) w w'"
    by simp
  have we: "without_erases (map erase_cmd pages @ take k (chunk_cmds dev fw written))
            = take k (chunk_cmds dev fw written)"
    by (simp add: without_erases_append without_erases_erase_cmds without_erases_chunk_cmds)
  show ?thesis
  proof (cases ok)
    case True
    with k have "take k (chunk_cmds dev fw written) = chunk_cmds dev fw written"
      by (simp add: chunk_cmds_def)
    with we have "without_erases (map erase_cmd pages @ take k (chunk_cmds dev fw written))
                  = chunk_cmds dev fw written"
      by simp
    with ee show ?thesis
      by (rule follows_exact)
  next
    case False
    have "follows (chunk_cmds dev fw written) False w w'"
      using ee we by (rule follows_prefix)
    with False show ?thesis
      by simp
  qed
qed

lemma write_loop_follows_aux:
  assumes "write_loop e fw written dev w = Some y"
  shows "transfer_size dev \<noteq> 0 \<longrightarrow> follows (chunk_plan dev fw written) (fst y) w (snd (snd y))"
  using assms
proof (induction e fw written dev w y rule: write_loop.raw_induct [rotated, consumes 1])
  case (1 f e fw written dev w y)
  show ?case
  proof
    assume t: "transfer_size dev \<noteq> 0"
    show "follows (chunk_plan dev fw written) (fst y) w (snd (snd y))"
    proof (cases "written < length fw")
      case False
      with 1(2) have "y = (True, dev, w)"
        by simp
      moreover have "chunk_plan dev fw written = []"
        using False by (subst chunk_plan.simps) simp
      ultimately show ?thesis
        using follows_silent [OF effect_refl] by simp
    next
      case True
      with 1(2) obtain ok1 written1 dev1 w1
        where wc: "write_chunk e fw written dev w = Some (ok1, written1, dev1, w1)"
        by (cases "write_chunk e fw written dev w") auto
      have fc: "follows (chunk_cmds dev fw written) ok1 w w1"
        using wc by (rule write_chunk_follows)
      show ?thesis
      proof (cases "layout_valid dev \<and> segment_at dev written = None")
        case out: True
        then have "write_chunk e fw written dev w
                   = Some (False, written, dev,
                       set_status e (''Error: address 0x'' @ fmt_X 8 (unat (chunk_address written))
                                     @ '' outside DFU segment'') w)"
          by (simp add: write_chunk_def)
        with wc True 1(2) have y: "fst y = False" "snd (snd y) = w1"
          and w1: "w1 = set_status e (''Error: address 0x'' @ fmt_X 8 (unat (chunk_address written))
                                     @ '' outside DFU segment'') w"
          by auto
        have "chunk_plan dev fw written = []"
          using out by (subst chunk_plan.simps) simp
        moreover have "effect e [] [] w w1"
          unfolding w1 by (rule effect_set_status) simp
        ultimately show ?thesis
          using y follows_silent by simp
      next
        case inside: False
        have pos: "0 < chunk_len dev fw written"
          using True t inside by (rule chunk_len_pos)
        have plan: "chunk_plan dev fw written
                    = chunk_cmds dev fw written
                      @ chunk_plan dev fw (written + chunk_len dev fw written)"
          using True inside pos by (subst chunk_plan.simps) simp
        show ?thesis
        proof (cases ok1)
          case False
          with wc True 1(2) have y: "fst y = False" "snd (snd y) = w1"
            by auto
          have "follows (chunk_cmds dev fw written) False w w1"
            using fc False by simp
          then show ?thesis
            unfolding plan y by (rule follows_stop)
        next
          case ok: True
          with wc True 1(2) have r: "f e fw written1 dev1 w1 = Some y"
            by simp
          from write_chunk_steps [OF wc] ok obtain pages y1
            where er: "erased e dev w pages y1" "fst (snd y1) = dev1"
              and wr: "written1 = written + chunk_len dev fw written"
            by blast
          from er obtain l where d1: "dev1 = dev\<lparr>last_erased_page := l\<rparr>"
            by (auto simp: erased_def)
          have "transfer_size dev1 \<noteq> 0"
            using t d1 by simp
          with 1(1) [OF r] have "follows (chunk_plan dev1 fw written1) (fst y) w1 (snd (snd y))"
            by blast
          moreover have "chunk_plan dev1 fw written1 = chunk_plan dev fw written1"
            unfolding d1 by (rule chunk_plan_cong) simp_all
          ultimately have "follows (chunk_plan dev fw (written + chunk_len dev fw written))
                             (fst y) w1 (snd (snd y))"
            using wr by simp
          then have "follows (chunk_plan dev fw (written + chunk_len dev fw written))
                       (fst y) w1 (snd (snd y))" .
          moreover have "follows (chunk_cmds dev fw written) True w w1"
            using fc ok by simp
          ultimately show ?thesis
            unfolding plan by (rule follows_then [rotated])
        qed
      qed
    qed
  qed
qed

lemma write_loop_follows:
  "write_loop e fw written dev w = Some (ok, dev', w') \<Longrightarrow> transfer_size dev \<noteq> 0 \<Longrightarrow>
   follows (chunk_plan dev fw written) ok w w'"
  using write_loop_follows_aux [of e fw written dev w "(ok, dev', w')"] by simp

subsection \<open>The blocks of the write phase and of the session\<close>

definition write_phase_plan :: "stm32_dfu_device_t \<Rightarrow> u8 list \<Rightarrow> (u16 \<times> u8 list) list" where
  "write_phase_plan dev fw =
     [(0, special_payload 0x21 STM32_BASE_ADDRESS)] @ chunk_plan dev fw 0 @ [(2, [])]"

definition run_plan :: "stm32_dfu_device_t \<Rightarrow> u8 list \<Rightarrow> (u16 \<times> u8 list) list" where
  "run_plan dev fw =
     (if layout_valid dev then [] else [(0, [0x41])]) @ write_phase_plan dev fw"

lemma follows_one:
  "effect e [x] P w w' \<Longrightarrow> \<not> is_erase_page x \<Longrightarrow> follows [x] ok w w'"
  using follows_exact [of e "[x]" P w w' "[x]" ok] by (simp add: without_erases_def)

lemma not_erase_page_simps:
  "\<not> is_erase_page (0, special_payload 0x21 a)" "\<not> is_erase_page (0, [0x41])"
  "\<not> is_erase_page (2, p)"
  by (simp_all add: is_erase_page_def special_payload_def)

lemma follows_failed: "follows p ok w w' \<Longrightarrow> follows (p @ q) False w w'"
  using follows_stop follows_weaken by blast

lemma follows_nothing: "effect e [] P w w' \<Longrightarrow> follows p False w w'"
  using follows_failed [of "[]" True w w' p] follows_silent [of e P w w' True] by simp

lemma flash_write_phase_follows:
  assumes "flash_write_phase e fw dev w = Some (ok, w')" and t: "transfer_size dev \<noteq> 0"
  shows "follows (write_phase_plan dev fw) ok w w'"
proof -
  let ?sap = "(0, special_payload 0x21 STM32_BASE_ADDRESS) :: u16 \<times> u8 list"
  define w0 where "w0 = set_status e (''Setting write address 0x''
                            @ fmt_X 8 (unat STM32_BASE_ADDRESS)) w"
  have e0: "effect e [] [] w w0"
    unfolding w0_def by (rule effect_set_status) simp
  from assms(1) obtain ok1 w1
    where s1: "dfu_set_address_pointer e STM32_BASE_ADDRESS w0 = Some (ok1, w1)"
    by (cases "dfu_set_address_pointer e STM32_BASE_ADDRESS w0")
       (auto simp: flash_write_phase_def w0_def)
  have "effect e [?sap] [] w0 w1"
    using s1 by (rule effect_set_address_pointer)
  then have "effect e [?sap] [] w w1"
    using e0 effect_trans0' by blast
  then have f1: "\<And>b. follows [?sap] b w w1"
    by (rule follows_one) (rule not_erase_page_simps)
  show ?thesis
  proof (cases ok1)
    case False
    with assms(1) s1 have "ok = False" "w' = w1"
      by (simp_all add: flash_write_phase_def w0_def)
    then show ?thesis
      unfolding write_phase_plan_def
      using follows_failed [OF f1 [of False], of "chunk_plan dev fw 0 @ [(2, [])]"] by simp
  next
    case ok1: True
    define w2 where "w2 = set_status e ''Writing firmware...''
                        (report_progress e (if layout_valid dev then 6 else 5) w1)"
    have "effect e [] [if layout_valid dev then 6 else 5] w1 w2"
      unfolding w2_def
      using effect_trans [OF effect_report_progress effect_set_status, of "''Writing firmware...''"]
      by simp
    with f1 have f2: "\<And>b. follows [?sap] b w w2"
      using follows_after by blast
    show ?thesis
    proof (cases "chunk_alloc_ok e")
      case False
      with assms(1) s1 ok1
      have r: "ok = False"
        "w' = set_status e ''Error: insufficient memory for transfer buffer'' w2"
        by (simp_all add: flash_write_phase_def w0_def w2_def Let_def)
      have "effect e [] [] w2 w'"
        unfolding r by (rule effect_set_status) simp
      with f2 have "follows [?sap] False w w'"
        using follows_after by blast
      then show ?thesis
        unfolding write_phase_plan_def r(1) by (rule follows_failed)
    next
      case alloc: True
      with assms(1) s1 ok1 obtain ok3 dev3 w3
        where wl: "write_loop e fw 0 dev w2 = Some (ok3, dev3, w3)"
        by (cases "write_loop e fw 0 dev w2")
           (auto simp: flash_write_phase_def w0_def w2_def Let_def)
      have f3: "follows ([?sap] @ chunk_plan dev fw 0) ok3 w w3"
        using f2 [of True] write_loop_follows [OF wl t] by (rule follows_then)
      show ?thesis
      proof (cases ok3)
        case False
        with assms(1) s1 ok1 alloc wl have "ok = False" "w' = w3"
          by (simp_all add: flash_write_phase_def w0_def w2_def Let_def)
        then show ?thesis
          unfolding write_phase_plan_def using follows_failed [OF f3, of "[(2, [])]"]
          by simp
      next
        case ok3: True
        with assms(1) s1 ok1 alloc wl obtain ok4 w4
          where f: "dfu_download_block e 2 [] True w3 = Some (ok4, w4)"
          by (cases "dfu_download_block e 2 [] True w3")
             (auto simp: flash_write_phase_def w0_def w2_def Let_def)
        have "effect e [(2, [])] [] w3 w4"
          using f by (rule effect_download_block)
        then have "follows [(2, [])] ok4 w3 w4"
          by (rule follows_one) (rule not_erase_page_simps)
        with f3 ok3 have f4: "follows (([?sap] @ chunk_plan dev fw 0) @ [(2, [])]) ok4 w w4"
          by (rule follows_then')
        show ?thesis
        proof (cases ok4)
          case False
          with assms(1) s1 ok1 alloc wl ok3 f have "ok = False" "w' = w4"
            by (simp_all add: flash_write_phase_def w0_def w2_def Let_def)
          with f4 False show ?thesis
            unfolding write_phase_plan_def by simp
        next
          case True
          with assms(1) s1 ok1 alloc wl ok3 f have r: "ok = True"
            "w' = set_status e ''Firmware written, device restarting'' (report_progress e 99 w4)"
            by (simp_all add: flash_write_phase_def w0_def w2_def Let_def)
          have "effect e [] [99] w4 w'"
            unfolding r
            using effect_trans [OF effect_report_progress effect_set_status,
                of "''Firmware written, device restarting''"]
            by simp
          with f4 have "follows (([?sap] @ chunk_plan dev fw 0) @ [(2, [])]) ok4 w w'"
            by (rule follows_after)
          with True have "follows (([?sap] @ chunk_plan dev fw 0) @ [(2, [])]) True w w'"
            by simp
          then show ?thesis
            unfolding write_phase_plan_def r(1) by simp
        qed
      qed
    qed
  qed
qed

lemma flash_erase_phase_follows:
  assumes "flash_erase_phase e dev w = Some (ok, dev1, w1)"
  shows "follows (if layout_valid dev then [] else [(0, [0x41])]) ok w w1
         \<and> layout_valid dev1 = layout_valid dev \<and> layout dev1 = layout dev
         \<and> transfer_size dev1 = transfer_size dev"
proof (cases "layout_valid dev")
  case True
  with assms have "w1 = w" "dev1 = dev\<lparr>mass_erased := False, last_erased_page := 0xFFFFFFFF\<rparr>"
    by (simp_all add: flash_erase_phase_def)
  with True show ?thesis
    using follows_silent [OF effect_refl] by simp
next
  case False
  define w0 where "w0 = report_progress e 3 (set_status e ''Performing mass erase...'' w)"
  have e0: "effect e [] [3] w w0"
    unfolding w0_def
    using effect_trans [OF effect_set_status effect_report_progress,
        of "''Performing mass erase...''"]
    by simp
  from assms False obtain ok2 w2 where m: "dfu_mass_erase e w0 = Some (ok2, w2)"
    by (cases "dfu_mass_erase e w0") (auto simp: flash_erase_phase_def w0_def)
  have "effect e [(0, [0x41])] [] w0 w2"
    using m by (rule effect_mass_erase)
  then have "\<And>b. follows [(0, [0x41])] b w0 w2"
    by (rule follows_one) (rule not_erase_page_simps)
  with e0 have f2: "\<And>b. follows [(0, [0x41])] b w w2"
    using follows_before by blast
  show ?thesis
  proof (cases ok2)
    case ok2: False
    with assms False m have "ok = False" "w1 = w2" "dev1 = dev"
      by (simp_all add: flash_erase_phase_def w0_def)
    with False f2 show ?thesis
      by simp
  next
    case ok2: True
    with assms False m obtain ok3 w3 where p: "dfu_prepare_idle e w2 = Some (ok3, w3)"
      by (cases "dfu_prepare_idle e w2") (auto simp: flash_erase_phase_def w0_def)
    have "effect e [] [] w2 w3"
      using p by (rule effect_prepare_idle)
    with f2 have f3: "\<And>b. follows [(0, [0x41])] b w w3"
      using follows_after by blast
    from assms False m ok2 p have "w1 = w3"
      "dev1 = dev\<lparr>mass_erased := True\<rparr>
       \<or> dev1 = dev\<lparr>mass_erased := True, last_erased_page := 0xFFFFFFFF\<rparr>"
      by (auto simp: flash_erase_phase_def w0_def split: if_splits)
    with False f3 show ?thesis
      by auto
  qed
qed

lemma flash_device_follows:
  assumes "flash_device e fw dev w = Some (ok, w')" and t: "transfer_size dev \<noteq> 0"
  shows "follows (run_plan dev fw) ok w w'"
proof -
  define w0 where "w0 = set_status e ''Preparing DFU state...'' w"
  have e0: "effect e [] [] w w0"
    unfolding w0_def by (rule effect_set_status) simp
  from assms(1) obtain ok1 w1 where p: "dfu_prepare_idle e w0 = Some (ok1, w1)"
    by (cases "dfu_prepare_idle e w0") (auto simp: flash_device_def w0_def)
  have e1: "effect e [] [] w w1"
    using e0 effect_prepare_idle [OF p] by (rule effect_trans0)
  show ?thesis
  proof (cases ok1)
    case False
    with assms(1) p have "ok = False" "w' = w1"
      by (simp_all add: flash_device_def w0_def)
    with e1 show ?thesis
      using follows_nothing by simp
  next
    case ok1: True
    with assms(1) p obtain ok2 dev2 w2 where ep: "flash_erase_phase e dev w1 = Some (ok2, dev2, w2)"
      by (cases "flash_erase_phase e dev w1") (auto simp: flash_device_def w0_def)
    from flash_erase_phase_follows [OF ep]
    have f2: "follows (if layout_valid dev then [] else [(0, [0x41])]) ok2 w1 w2"
      and d2: "layout_valid dev2 = layout_valid dev" "layout dev2 = layout dev"
        "transfer_size dev2 = transfer_size dev"
      by simp_all
    have f2': "follows (if layout_valid dev then [] else [(0, [0x41])]) ok2 w w2"
      using e1 f2 by (rule follows_before)
    show ?thesis
    proof (cases ok2)
      case False
      with assms(1) p ok1 ep have "ok = False" "w' = w2"
        by (simp_all add: flash_device_def w0_def)
      then show ?thesis
        unfolding run_plan_def using f2' by (simp add: follows_failed)
    next
      case ok2: True
      with assms(1) p ok1 ep have wp: "flash_write_phase e fw dev2 w2 = Some (ok, w')"
        by (simp add: flash_device_def w0_def)
      have "transfer_size dev2 \<noteq> 0"
        using t d2 by simp
      with wp have "follows (write_phase_plan dev2 fw) ok w2 w'"
        by (rule flash_write_phase_follows)
      moreover have "write_phase_plan dev2 fw = write_phase_plan dev fw"
        unfolding write_phase_plan_def using chunk_plan_cong [OF d2] by simp
      ultimately have "follows (write_phase_plan dev fw) ok w2 w'"
        by simp
      with f2' ok2 show ?thesis
        unfolding run_plan_def by (rule follows_then')
    qed
  qed
qed

section \<open>Properties of discovery\<close>

text \<open>The session that discovery opens has a transfer size that is not zero and a layout
  of segments the parser stored, and it does not depend on the world.\<close>

lemma parse_transfer_size_loop_nonzero: "parse_transfer_size_loop ex \<noteq> 0"
proof (induction ex rule: parse_transfer_size_loop.induct)
  case (1 ex)
  show ?case
  proof (cases "9 \<le> length ex \<and> \<not> (unat (ex ! 0) < 3 \<or> unat (ex ! 0) > length ex)
                 \<and> \<not> (ex ! 1 = 0x21 \<and> unat (ex ! 0) \<ge> 9)")
    case True
    then have "parse_transfer_size_loop ex = parse_transfer_size_loop (drop (unat (ex ! 0)) ex)"
      by (subst parse_transfer_size_loop.simps) auto
    moreover have "parse_transfer_size_loop (drop (unat (ex ! 0)) ex) \<noteq> 0"
      using True by (intro "1.IH") simp_all
    ultimately show ?thesis
      by simp
  next
    case False
    then show ?thesis
      by (subst parse_transfer_size_loop.simps)
         (auto simp: STM32_DEFAULT_TRANSFER_def Let_def)
  qed
qed

lemma parse_transfer_size_nonzero: "parse_transfer_size alt \<noteq> 0"
  by (simp add: parse_transfer_size_def parse_transfer_size_loop_nonzero
      STM32_DEFAULT_TRANSFER_def)

definition session_ok :: "stm32_dfu_device_t \<Rightarrow> bool" where
  "session_ok dev =
     (transfer_size dev \<noteq> 0 \<and> list_all stored_segment_ok (layout dev)
      \<and> (layout_valid dev \<longrightarrow> layout dev \<noteq> []))"

lemma scan_altsettings_transfer:
  "scan_altsettings d alts sel = Some dev \<Longrightarrow>
   (\<forall>s. sel = Some s \<longrightarrow> transfer_size s \<noteq> 0) \<Longrightarrow> transfer_size dev \<noteq> 0"
proof (induction alts arbitrary: sel)
  case Nil
  then show ?case
    by simp
next
  case (Cons alt alts)
  have t: "transfer_size (select_alt d alt) \<noteq> 0"
    by (simp add: select_alt_def parse_transfer_size_nonzero)
  show ?case
  proof (cases "is_dfu_alt alt")
    case False
    with Cons show ?thesis
      by simp
  next
    case True
    show ?thesis
    proof (cases "strstr (alt_name (select_alt d alt)) ''Internal'' \<noteq> None")
      case True
      with \<open>is_dfu_alt alt\<close> Cons.prems(1) have "dev = select_alt d alt"
        by simp
      with t show ?thesis
        by simp
    next
      case False
      with \<open>is_dfu_alt alt\<close> Cons.prems(1)
      have "scan_altsettings d alts (Some (select_alt d alt)) = Some dev"
        by simp
      then show ?thesis
        by (rule Cons.IH) (simp add: t)
    qed
  qed
qed

lemma scan_interfaces_transfer:
  "scan_interfaces d ifaces = Some dev \<Longrightarrow> transfer_size dev \<noteq> 0"
proof (induction ifaces)
  case Nil
  then show ?case
    by simp
next
  case (Cons iface ifaces)
  show ?case
  proof (cases "scan_altsettings d iface None")
    case None
    with Cons show ?thesis
      by simp
  next
    case (Some s)
    with Cons.prems have "dev = s"
      by simp
    with Some show ?thesis
      using scan_altsettings_transfer [of d iface None dev] by simp
  qed
qed

lemma select_dfu_interface_transfer:
  "select_dfu_interface d = Some dev \<Longrightarrow> transfer_size dev \<noteq> 0"
  using scan_interfaces_transfer
  by (auto simp: select_dfu_interface_def split: option.splits)

lemma parsed_layout_ok:
  "list_all stored_segment_ok (snd (parse_alt_memory_layout name l))
   \<and> (fst (parse_alt_memory_layout name l) \<longrightarrow> snd (parse_alt_memory_layout name l) \<noteq> [])"
proof (cases name)
  case None
  then show ?thesis
    by (simp add: parse_alt_memory_layout_def)
next
  case (Some n)
  have "\<forall>seg\<in>set (parse_layout_loop n []). stored_segment_ok seg"
    using parse_layout_loop_ok [of "[]" n] by simp
  then show ?thesis
    using Some by (simp add: parse_alt_memory_layout_def Let_def list_all_iff)
qed

lemma open_devices_skip:
  assumes "\<not> (descriptor_ok d \<and> idVendor d = STM32_VENDOR_ID \<and> idProduct d = STM32_PRODUCT_ID
                 \<and> open_ret d = LIBUSB_SUCCESS \<and> select_dfu_interface d \<noteq> None
                 \<and> claim_ret d = LIBUSB_SUCCESS \<and> set_alt_ret d = LIBUSB_SUCCESS)"
  shows "\<exists>v. open_devices e (d # ds) lw = open_devices e ds v"
proof (cases "descriptor_ok d \<and> idVendor d = STM32_VENDOR_ID \<and> idProduct d = STM32_PRODUCT_ID")
  case False
  then have "open_devices e (d # ds) lw = open_devices e ds lw"
    by auto
  then show ?thesis
    by (rule exI)
next
  case id: True
  show ?thesis
  proof (cases "open_ret d = LIBUSB_SUCCESS")
    case False
    with id have "open_devices e (d # ds) lw
      = open_devices e ds
          (set_last_error e
             (''Error: cannot open DFU device ('' @ libusb_error_name e (open_ret d) @ '')'') lw)"
      by simp
    then show ?thesis
      by (rule exI)
  next
    case op: True
    show ?thesis
    proof (cases "select_dfu_interface d")
      case None
      with id op have "open_devices e (d # ds) lw
        = open_devices e ds (set_last_error e ''Error: DFU interface not found on device'' lw)"
        by simp
      then show ?thesis
        by (rule exI)
    next
      case (Some s)
      show ?thesis
      proof (cases "claim_ret d = LIBUSB_SUCCESS")
        case False
        with id op Some have "open_devices e (d # ds) lw
          = open_devices e ds
              (set_last_error e
                 (''Error: failed to claim DFU interface (''
                    @ libusb_error_name e (claim_ret d) @ '')'') lw)"
          by simp
        then show ?thesis
          by (rule exI)
      next
        case True
        with assms id op Some have "set_alt_ret d \<noteq> LIBUSB_SUCCESS"
          by simp
        with id op Some True have "open_devices e (d # ds) lw
          = open_devices e ds
              (set_last_error e
                 (''Error: failed to set DFU alt setting (''
                    @ libusb_error_name e (set_alt_ret d) @ '')'') lw)"
          by simp
        then show ?thesis
          by (rule exI)
      qed
    qed
  qed
qed

lemma open_devices_session:
  "fst (open_devices e ds lw) = Some dev \<Longrightarrow> session_ok dev"
proof (induction ds arbitrary: lw)
  case Nil
  then show ?case
    by simp
next
  case (Cons d ds)
  show ?case
  proof (cases "descriptor_ok d \<and> idVendor d = STM32_VENDOR_ID \<and> idProduct d = STM32_PRODUCT_ID
                 \<and> open_ret d = LIBUSB_SUCCESS \<and> select_dfu_interface d \<noteq> None
                 \<and> claim_ret d = LIBUSB_SUCCESS \<and> set_alt_ret d = LIBUSB_SUCCESS")
    case True
    then obtain s where s: "select_dfu_interface d = Some s"
      by blast
    with True Cons.prems have "dev = s\<lparr>handle := True,
                             last_erased_page := 0xFFFFFFFF,
                             layout_valid := fst (parse_alt_memory_layout (Some (alt_name s)) (layout s)),
                             layout := snd (parse_alt_memory_layout (Some (alt_name s)) (layout s))\<rparr>"
      by simp
    then show ?thesis
      using select_dfu_interface_transfer [OF s]
        parsed_layout_ok [of "Some (alt_name s)" "layout s"]
      by (simp add: session_ok_def)
  next
    case False
    then obtain v where "open_devices e (d # ds) lw = open_devices e ds v"
      using open_devices_skip by blast
    with Cons.prems have "fst (open_devices e ds v) = Some dev"
      by simp
    then show ?thesis
      by (rule Cons.IH)
  qed
qed

lemma open_devices_fst:
  "fst (open_devices e ds lw) = fst (open_devices e ds lw')"
proof (induction ds arbitrary: lw lw')
  case Nil
  then show ?case
    by simp
next
  case (Cons d ds)
  show ?case
  proof (cases "descriptor_ok d \<and> idVendor d = STM32_VENDOR_ID \<and> idProduct d = STM32_PRODUCT_ID
                 \<and> open_ret d = LIBUSB_SUCCESS \<and> select_dfu_interface d \<noteq> None
                 \<and> claim_ret d = LIBUSB_SUCCESS \<and> set_alt_ret d = LIBUSB_SUCCESS")
    case True
    then show ?thesis
      by auto
  next
    case False
    then obtain v v' where "open_devices e (d # ds) lw = open_devices e ds v"
      and "open_devices e (d # ds) lw' = open_devices e ds v'"
      using open_devices_skip by blast
    then show ?thesis
      using Cons.IH [of v v'] by simp
  qed
qed

lemma open_once_fst:
  "fst (open_stm32_dfu_device_once e n lw) = fst (open_stm32_dfu_device_once e n lw')"
  using open_devices_fst
  by (cases "enumerate e n") (simp_all add: open_stm32_dfu_device_once_def)

lemma open_once_session:
  "fst (open_stm32_dfu_device_once e n lw) = Some dev \<Longrightarrow> session_ok dev"
  using open_devices_session
  by (cases "enumerate e n") (simp_all add: open_stm32_dfu_device_once_def)

lemma wait_for_loop_fst:
  "fst (wait_for_loop e t el lw) = fst (wait_for_loop e t el lw')"
proof (induction e t el lw arbitrary: lw' rule: wait_for_loop.induct)
  case (1 e t el lw)
  show ?case
  proof (cases "el \<le> t")
    case False
    then show ?thesis
      by (subst wait_for_loop.simps, subst (2) wait_for_loop.simps) simp
  next
    case True
    obtain r le w1 where o: "open_stm32_dfu_device_once e (el div 100) lw = (r, le, w1)"
      by (cases "open_stm32_dfu_device_once e (el div 100) lw") auto
    obtain r' le' w1' where o': "open_stm32_dfu_device_once e (el div 100) lw' = (r', le', w1')"
      by (cases "open_stm32_dfu_device_once e (el div 100) lw'") auto
    have rr: "r' = r"
      using open_once_fst [of e "el div 100" lw lw'] o o' by simp
    show ?thesis
    proof (cases r)
      case None
      have "fst (wait_for_loop e t (el + 100) (le, sleep 100 w1))
            = fst (wait_for_loop e t (el + 100) (le', sleep 100 w1'))"
        using True o None by (intro "1.IH") simp_all
      then show ?thesis
        using True o o' rr None
        by (subst wait_for_loop.simps, subst (2) wait_for_loop.simps) simp
    next
      case (Some dev)
      then show ?thesis
        using True o o' rr
        by (subst wait_for_loop.simps, subst (2) wait_for_loop.simps) simp
    qed
  qed
qed

lemma wait_for_loop_session:
  "fst (wait_for_loop e t el lw) = Some dev \<Longrightarrow> session_ok dev"
proof (induction e t el lw rule: wait_for_loop.induct)
  case (1 e t el lw)
  show ?case
  proof (cases "el \<le> t")
    case False
    with 1(2) show ?thesis
      by (subst (asm) wait_for_loop.simps) simp
  next
    case True
    obtain r le w1 where o: "open_stm32_dfu_device_once e (el div 100) lw = (r, le, w1)"
      by (cases "open_stm32_dfu_device_once e (el div 100) lw") auto
    show ?thesis
    proof (cases r)
      case None
      with 1(2) True o have "fst (wait_for_loop e t (el + 100) (le, sleep 100 w1)) = Some dev"
        by (subst (asm) wait_for_loop.simps) simp
      then show ?thesis
        using True o None by (intro "1.IH") simp_all
    next
      case (Some d)
      with 1(2) True o have "d = dev"
        by (subst (asm) wait_for_loop.simps) simp
      with Some o show ?thesis
        using open_once_session [of e "el div 100" lw dev] by simp
    qed
  qed
qed

lemma wait_for_device_fst:
  "fst (wait_for_stm32_dfu_device e t w) = fst (wait_for_loop e t 0 ([], w))"
  by (simp add: wait_for_stm32_dfu_device_def split: prod.splits option.splits)

lemma wait_for_device_indep:
  "fst (wait_for_stm32_dfu_device e t w) = fst (wait_for_stm32_dfu_device e t w')"
  unfolding wait_for_device_fst by (rule wait_for_loop_fst)

lemma wait_for_device_session:
  "fst (wait_for_stm32_dfu_device e t w) = Some dev \<Longrightarrow> session_ok dev"
  unfolding wait_for_device_fst by (rule wait_for_loop_session)

subsection \<open>The blocks of a whole run\<close>

lemma flash_run_follows:
  assumes r: "flash_run e w = Some (ok, w')"
    and d: "fst (wait_for_stm32_dfu_device e 10000 w0) = Some dev"
  shows "follows (run_plan dev (read_bytes (firmware e))) ok w w'"
proof -
  define wa where "wa = set_status e ''Loading firmware file...'' (report_progress e 0 w)"
  have ea: "effect e [] [0] w wa"
    unfolding wa_def
    using effect_trans [OF effect_report_progress effect_set_status,
        of "''Loading firmware file...''"]
    by simp
  obtain lr w1 where l: "load_firmware_file e wa = (lr, w1)"
    by (cases "load_firmware_file e wa") auto
  have "effect e [] [] wa w1"
    using effect_load_firmware_file [of e wa] l by simp
  with ea have e1: "effect e [] [0] w w1"
    by (rule effect_trans0)
  show ?thesis
  proof (cases lr)
    case None
    with r l have "ok = False" "w' = w1"
      by (simp_all add: flash_run_def wa_def)
    with e1 show ?thesis
      using follows_nothing by simp
  next
    case (Some fw)
    with l have fw: "fw = read_bytes (firmware e)"
      by (auto simp: load_firmware_file_def Let_def split: if_splits)
    define w2 where "w2 = set_status e ''Initialising USB...'' w1"
    have "effect e [] [] w1 w2"
      unfolding w2_def by (rule effect_set_status) simp
    with e1 have e2: "effect e [] [0] w w2"
      by (rule effect_trans0)
    show ?thesis
    proof (cases "init_ret e \<noteq> LIBUSB_SUCCESS")
      case True
      with r l Some have "ok = False" and "\<exists>m. m \<noteq> [] \<and> w' = set_status e m w2"
        by (auto simp: flash_run_def wa_def w2_def Let_def)
      then have "ok = False" and "effect e [] [] w2 w'"
        using effect_set_status by blast+
      then have "ok = False" and "effect e [] [0] w w'"
        using effect_trans0 [OF e2] by simp_all
      then show ?thesis
        using follows_nothing by simp
    next
      case False
      define w3 where "w3 = set_status e ''Waiting for DFU device...'' w2"
      have "effect e [] [] w2 w3"
        unfolding w3_def by (rule effect_set_status) simp
      with e2 have e3: "effect e [] [0] w w3"
        by (rule effect_trans0)
      obtain dr w4 where wf: "wait_for_stm32_dfu_device e 10000 w3 = (dr, w4)"
        by (cases "wait_for_stm32_dfu_device e 10000 w3") auto
      have "effect e [] [] w3 w4"
        using effect_wait_for_device [of e w3 10000] wf by simp
      with e3 have e4: "effect e [] [0] w w4"
        by (rule effect_trans0)
      have "dr = Some dev"
        using wait_for_device_indep [of e 10000 w3 w0] wf d by simp
      with r l Some False wf have fd: "flash_device e fw dev w4 = Some (ok, w')"
        by (simp add: flash_run_def wa_def w2_def w3_def Let_def)
      have "transfer_size dev \<noteq> 0"
        using wait_for_device_session [OF d] by (simp add: session_ok_def)
      with fd have "follows (run_plan dev fw) ok w4 w'"
        by (rule flash_device_follows)
      with e4 show ?thesis
        unfolding fw by (rule follows_before)
    qed
  qed
qed

lemma flash_run_no_device:
  assumes r: "flash_run e w = Some (ok, w')"
    and d: "fst (wait_for_stm32_dfu_device e 10000 w0) = None"
  shows "dnloads (wire w') = dnloads (wire w) \<and> \<not> ok"
proof -
  define wa where "wa = set_status e ''Loading firmware file...'' (report_progress e 0 w)"
  have ea: "effect e [] [0] w wa"
    unfolding wa_def
    using effect_trans [OF effect_report_progress effect_set_status,
        of "''Loading firmware file...''"]
    by simp
  obtain lr w1 where l: "load_firmware_file e wa = (lr, w1)"
    by (cases "load_firmware_file e wa") auto
  have "effect e [] [] wa w1"
    using effect_load_firmware_file [of e wa] l by simp
  with ea have e1: "effect e [] [0] w w1"
    by (rule effect_trans0)
  show ?thesis
  proof (cases lr)
    case None
    with r l have "ok = False" "w' = w1"
      by (simp_all add: flash_run_def wa_def)
    with e1 show ?thesis
      by (simp add: effect_def)
  next
    case (Some fw)
    define w2 where "w2 = set_status e ''Initialising USB...'' w1"
    have "effect e [] [] w1 w2"
      unfolding w2_def by (rule effect_set_status) simp
    with e1 have e2: "effect e [] [0] w w2"
      by (rule effect_trans0)
    show ?thesis
    proof (cases "init_ret e \<noteq> LIBUSB_SUCCESS")
      case True
      with r l Some have "ok = False" and "\<exists>m. m \<noteq> [] \<and> w' = set_status e m w2"
        by (auto simp: flash_run_def wa_def w2_def Let_def)
      then have "ok = False" and "effect e [] [] w2 w'"
        using effect_set_status by blast+
      then have "ok = False" and "effect e [] [0] w w'"
        using effect_trans0 [OF e2] by simp_all
      then show ?thesis
        by (simp add: effect_def)
    next
      case False
      define w3 where "w3 = set_status e ''Waiting for DFU device...'' w2"
      have "effect e [] [] w2 w3"
        unfolding w3_def by (rule effect_set_status) simp
      with e2 have e3: "effect e [] [0] w w3"
        by (rule effect_trans0)
      obtain dr w4 where wf: "wait_for_stm32_dfu_device e 10000 w3 = (dr, w4)"
        by (cases "wait_for_stm32_dfu_device e 10000 w3") auto
      have "effect e [] [] w3 w4"
        using effect_wait_for_device [of e w3 10000] wf by simp
      with e3 have e4: "effect e [] [0] w w4"
        by (rule effect_trans0)
      have "dr = None"
        using wait_for_device_indep [of e 10000 w3 w0] wf d by simp
      with r l Some False wf have "ok = False" "w' = w4"
        by (simp_all add: flash_run_def wa_def w2_def w3_def Let_def)
      with e4 show ?thesis
        by (simp add: effect_def)
    qed
  qed
qed

lemma cleanup_wire: "dnloads (wire (snd (flash_cleanup e ok w))) = dnloads (wire w)"
  by (simp add: flash_cleanup_def Let_def set_status_fields report_progress_eq)

lemma dfu_loader_flash_follows:
  assumes r: "dfu_loader_flash e w = Some (ok, w')"
    and d: "fst (wait_for_stm32_dfu_device e 10000 w0) = Some dev"
  shows "follows (run_plan dev (read_bytes (firmware e))) ok w w'"
proof -
  from r obtain w1 where fr: "flash_run e w = Some (ok, w1)"
    and c: "flash_cleanup e ok w1 = (ok, w')"
    by (auto simp: dfu_loader_flash_def flash_cleanup_def Let_def split: option.splits)
  have "dnloads (wire w') = dnloads (wire w1)"
    using cleanup_wire [of e ok w1] c by simp
  then show ?thesis
    using flash_run_follows [OF fr d] unfolding follows_def by simp
qed

lemma dfu_loader_flash_no_device:
  assumes r: "dfu_loader_flash e w = Some (ok, w')"
    and d: "fst (wait_for_stm32_dfu_device e 10000 w0) = None"
  shows "dnloads (wire w') = dnloads (wire w) \<and> \<not> ok"
proof -
  from r obtain w1 where fr: "flash_run e w = Some (ok, w1)"
    and c: "flash_cleanup e ok w1 = (ok, w')"
    by (auto simp: dfu_loader_flash_def flash_cleanup_def Let_def split: option.splits)
  have "dnloads (wire w') = dnloads (wire w1)"
    using cleanup_wire [of e ok w1] c by simp
  then show ?thesis
    using flash_run_no_device [OF fr d] by simp
qed

section \<open>The older loader\<close>

text \<open>
  The file holds an older loader in front of the layout-aware one (lines 27 to 637). It has
  no memory layout and no status callback, it erases the whole flash, and it numbers its
  data blocks. Modelled here is what it does with the device that its discovery opened and
  the firmware that \<open>load_firmware_file\<close> read: lines 558 to 636 of \<open>dfu_loader_flash\<close>, and
  the functions these lines call. Its \<open>dfu_get_status\<close>, \<open>dfu_clear_status\<close> and \<open>dfu_abort\<close>
  (lines 348 to 405) send what those of the layout-aware loader send, so the definitions
  above stand for them; the results of the last two are ignored by every caller.
\<close>

subsection \<open>Status texts\<close>

text \<open>The status texts of the older loader are UTF-8 in the source. They are given byte
  by byte, as \<open>_vsnprintf_s\<close> copies them.\<close>

text \<open>Line 420, in English: \<^verbatim>\<open>Error: reading the DFU status failed (%s)\<close>.\<close>

definition msg_status_read_failed :: "string \<Rightarrow> string" where
  "msg_status_read_failed name =
     [CHR 0xE9, CHR 0x94, CHR 0x99, CHR 0xE8, CHR 0xAF, CHR 0xAF] @ '': ''
     @ [CHR 0xE8, CHR 0xAF, CHR 0xBB, CHR 0xE5, CHR 0x8F, CHR 0x96] @ '' DFU ''
     @ [CHR 0xE7, CHR 0x8A, CHR 0xB6, CHR 0xE6, CHR 0x80, CHR 0x81]
     @ [CHR 0xE5, CHR 0xA4, CHR 0xB1, CHR 0xE8, CHR 0xB4, CHR 0xA5] @ '' ('' @ name @ '')''"

text \<open>Line 428, in English: \<^verbatim>\<open>Error: DFU status 0x%02X (state=0x%02X)\<close>.\<close>

definition msg_status_fault :: "u8 \<Rightarrow> u8 \<Rightarrow> string" where
  "msg_status_fault status_byte state_byte =
     [CHR 0xE9, CHR 0x94, CHR 0x99, CHR 0xE8, CHR 0xAF, CHR 0xAF] @ '': DFU ''
     @ [CHR 0xE7, CHR 0x8A, CHR 0xB6, CHR 0xE6, CHR 0x80, CHR 0x81] @ '' 0x''
     @ fmt_X 2 (unat status_byte) @ '' (state=0x'' @ fmt_X 2 (unat state_byte) @ '')''"

text \<open>Line 444, in English: \<^verbatim>\<open>Error: DFU entered the error state\<close>.\<close>

definition msg_error_state :: "string" where
  "msg_error_state =
     [CHR 0xE9, CHR 0x94, CHR 0x99, CHR 0xE8, CHR 0xAF, CHR 0xAF] @ '': DFU ''
     @ [CHR 0xE8, CHR 0xBF, CHR 0x9B, CHR 0xE5, CHR 0x85, CHR 0xA5]
     @ [CHR 0xE9, CHR 0x94, CHR 0x99, CHR 0xE8, CHR 0xAF, CHR 0xAF]
     @ [CHR 0xE7, CHR 0x8A, CHR 0xB6, CHR 0xE6, CHR 0x80, CHR 0x81]"

text \<open>Line 475, in English: \<^verbatim>\<open>Error: sending DFU data failed (%s)\<close>.\<close>

definition msg_send_failed :: "string \<Rightarrow> string" where
  "msg_send_failed name =
     [CHR 0xE9, CHR 0x94, CHR 0x99, CHR 0xE8, CHR 0xAF, CHR 0xAF] @ '': ''
     @ [CHR 0xE5, CHR 0x8F, CHR 0x91, CHR 0xE9, CHR 0x80, CHR 0x81] @ '' DFU ''
     @ [CHR 0xE6, CHR 0x95, CHR 0xB0, CHR 0xE6, CHR 0x8D, CHR 0xAE]
     @ [CHR 0xE5, CHR 0xA4, CHR 0xB1, CHR 0xE8, CHR 0xB4, CHR 0xA5] @ '' ('' @ name @ '')''"

text \<open>Line 481, in English: \<^verbatim>\<open>Error: DFU data sent incomplete\<close>.\<close>

definition msg_send_incomplete :: "string" where
  "msg_send_incomplete =
     [CHR 0xE9, CHR 0x94, CHR 0x99, CHR 0xE8, CHR 0xAF, CHR 0xAF] @ '': DFU ''
     @ [CHR 0xE6, CHR 0x95, CHR 0xB0, CHR 0xE6, CHR 0x8D, CHR 0xAE]
     @ [CHR 0xE5, CHR 0x8F, CHR 0x91, CHR 0xE9, CHR 0x80, CHR 0x81]
     @ [CHR 0xE4, CHR 0xB8, CHR 0x8D, CHR 0xE5, CHR 0xAE, CHR 0x8C]
     @ [CHR 0xE6, CHR 0x95, CHR 0xB4]"

text \<open>Line 558, in English: \<^verbatim>\<open>Preparing the device...\<close>.\<close>

definition msg_preparing :: "string" where
  "msg_preparing =
     [CHR 0xE6, CHR 0xAD, CHR 0xA3, CHR 0xE5, CHR 0x9C, CHR 0xA8]
     @ [CHR 0xE5, CHR 0x87, CHR 0x86, CHR 0xE5, CHR 0xA4, CHR 0x87]
     @ [CHR 0xE8, CHR 0xAE, CHR 0xBE, CHR 0xE5, CHR 0xA4, CHR 0x87] @ ''...''"

text \<open>Line 563, in English: \<^verbatim>\<open>Erasing the flash...\<close>.\<close>

definition msg_erasing :: "string" where
  "msg_erasing =
     [CHR 0xE6, CHR 0xAD, CHR 0xA3, CHR 0xE5, CHR 0x9C, CHR 0xA8]
     @ [CHR 0xE6, CHR 0x93, CHR 0xA6, CHR 0xE9, CHR 0x99, CHR 0xA4]
     @ [CHR 0xE9, CHR 0x97, CHR 0xAA, CHR 0xE5, CHR 0xAD, CHR 0x98] @ ''...''"

text \<open>Line 573, in English: \<^verbatim>\<open>Setting write address 0x%08X\<close>.\<close>

definition msg_set_address :: "u32 \<Rightarrow> string" where
  "msg_set_address address =
     [CHR 0xE8, CHR 0xAE, CHR 0xBE, CHR 0xE7, CHR 0xBD, CHR 0xAE]
     @ [CHR 0xE5, CHR 0x86, CHR 0x99, CHR 0xE5, CHR 0x85, CHR 0xA5]
     @ [CHR 0xE5, CHR 0x9C, CHR 0xB0, CHR 0xE5, CHR 0x9D, CHR 0x80] @ '' 0x''
     @ fmt_X 8 (unat address)"

text \<open>Line 579, in English: \<^verbatim>\<open>Writing the firmware...\<close>.\<close>

definition msg_writing :: "string" where
  "msg_writing =
     [CHR 0xE6, CHR 0xAD, CHR 0xA3, CHR 0xE5, CHR 0x9C, CHR 0xA8]
     @ [CHR 0xE5, CHR 0x86, CHR 0x99, CHR 0xE5, CHR 0x85, CHR 0xA5]
     @ [CHR 0xE5, CHR 0x9B, CHR 0xBA, CHR 0xE4, CHR 0xBB, CHR 0xB6] @ ''...''"

text \<open>Line 614, in English: \<^verbatim>\<open>Firmware written, the device is restarting\<close>.\<close>

definition msg_written :: "string" where
  "msg_written =
     [CHR 0xE5, CHR 0x9B, CHR 0xBA, CHR 0xE4, CHR 0xBB, CHR 0xB6]
     @ [CHR 0xE5, CHR 0x86, CHR 0x99, CHR 0xE5, CHR 0x85, CHR 0xA5]
     @ [CHR 0xE5, CHR 0xAE, CHR 0x8C, CHR 0xE6, CHR 0x88, CHR 0x90]
     @ [CHR 0xEF, CHR 0xBC, CHR 0x8C, CHR 0xE8, CHR 0xAE, CHR 0xBE]
     @ [CHR 0xE5, CHR 0xA4, CHR 0x87, CHR 0xE6, CHR 0xAD, CHR 0xA3]
     @ [CHR 0xE5, CHR 0x9C, CHR 0xA8, CHR 0xE9, CHR 0x87, CHR 0x8D]
     @ [CHR 0xE5, CHR 0x90, CHR 0xAF]"

text \<open>Line 633, in English: \<^verbatim>\<open>Unknown error: DFU update failed\<close>.\<close>

definition msg_unknown_failure :: "string" where
  "msg_unknown_failure =
     [CHR 0xE6, CHR 0x9C, CHR 0xAA, CHR 0xE7, CHR 0x9F, CHR 0xA5]
     @ [CHR 0xE9, CHR 0x94, CHR 0x99, CHR 0xE8, CHR 0xAF, CHR 0xAF] @ '': DFU ''
     @ [CHR 0xE6, CHR 0x9B, CHR 0xB4, CHR 0xE6, CHR 0x96, CHR 0xB0]
     @ [CHR 0xE5, CHR 0xA4, CHR 0xB1, CHR 0xE8, CHR 0xB4, CHR 0xA5]"

subsection \<open>Status, progress and the state machine\<close>

text \<open>\<open>set_status\<close> of lines 53 to 62: there is no callback.\<close>

definition legacy_set_status :: "env \<Rightarrow> string \<Rightarrow> world \<Rightarrow> world" where
  "legacy_set_status e message w =
     (if \<not> status_buf e \<or> status_buf_len e = 0 then w
      else w\<lparr>status_text := truncate_to (status_buf_len e) message\<rparr>)"

text \<open>\<open>report_progress\<close> of lines 64 to 69.\<close>

definition legacy_report_progress :: "env \<Rightarrow> int \<Rightarrow> world \<Rightarrow> world" where
  "legacy_report_progress e percent w =
     (if cb e then w\<lparr>progress_log := progress_log w @ [percent]\<rparr> else w)"

text \<open>One pass through the \<open>for (;;)\<close> of \<open>dfu_wait_ready\<close>, lines 412 to 451.\<close>

definition legacy_wait_ready_poll :: "env \<Rightarrow> bool \<Rightarrow> world \<Rightarrow> bool option \<times> world" where
  "legacy_wait_ready_poll e allow_manifest w =
     (let (r, st, w1) = dfu_get_status e w in
      if r = LIBUSB_ERROR_NO_DEVICE then (Some allow_manifest, w1)
      else if r \<noteq> LIBUSB_SUCCESS
        then (Some False,
              legacy_set_status e (msg_status_read_failed (libusb_error_name e r)) w1)
      else if status st \<noteq> 0
        then (Some False,
              legacy_set_status e (msg_status_fault (status st) (state st))
                (dfu_clear_status e w1))
      else if state st = DFU_STATE_dfuIDLE \<or> state st = DFU_STATE_dfuDNLOAD_IDLE
        then (Some True, w1)
      else if state st = DFU_STATE_dfuMANIFEST_SYNC \<or> state st = DFU_STATE_dfuMANIFEST
              \<or> state st = DFU_STATE_dfuMANIFEST_WAIT_RESET
        then (Some allow_manifest, w1)
      else if state st = DFU_STATE_dfuERROR
        then (Some False, legacy_set_status e msg_error_state (dfu_clear_status e w1))
      else (None, sleep (if poll_timeout_ms st > 0 then poll_timeout_ms st else 5) w1))"

partial_function (option) legacy_dfu_wait_ready ::
  "env \<Rightarrow> bool \<Rightarrow> world \<Rightarrow> (bool \<times> world) option"
where
  "legacy_dfu_wait_ready e allow_manifest w =
     (case legacy_wait_ready_poll e allow_manifest w of
        (Some r, w1) \<Rightarrow> Some (r, w1)
      | (None, w1) \<Rightarrow> legacy_dfu_wait_ready e allow_manifest w1)"

declare legacy_dfu_wait_ready.simps [code]

text \<open>\<open>dfu_download_block\<close> of lines 455 to 486; \<open>length\<close> is the length of the payload.\<close>

definition legacy_dfu_download_block ::
  "env \<Rightarrow> u16 \<Rightarrow> u8 list \<Rightarrow> bool \<Rightarrow> world \<Rightarrow> (bool \<times> world) option" where
  "legacy_dfu_download_block e block_number payload allow_manifest w =
     (let (r, w1) = control_transfer e (DNLOAD block_number payload) w in
      if ret r < 0
        then Some (False, legacy_set_status e (msg_send_failed (libusb_error_name e (ret r))) w1)
      else if ret r \<noteq> int (length payload)
        then Some (False, legacy_set_status e msg_send_incomplete w1)
      else legacy_dfu_wait_ready e allow_manifest w1)"

text \<open>Lines 488 to 502 and 504 to 511.\<close>

definition legacy_dfu_set_address_pointer ::
  "env \<Rightarrow> u32 \<Rightarrow> world \<Rightarrow> (bool \<times> world) option" where
  "legacy_dfu_set_address_pointer e address w =
     legacy_dfu_download_block e 0
       [0x21,
        ucast (address AND 0xFF),
        ucast (drop_bit 8 address AND 0xFF),
        ucast (drop_bit 16 address AND 0xFF),
        ucast (drop_bit 24 address AND 0xFF)] False w"

definition legacy_dfu_mass_erase :: "env \<Rightarrow> world \<Rightarrow> (bool \<times> world) option" where
  "legacy_dfu_mass_erase e w = legacy_dfu_download_block e 0 [0x41, 0xFF, 0xFF] False w"

text \<open>Lines 513 to 523.\<close>

definition legacy_dfu_prepare_idle :: "env \<Rightarrow> world \<Rightarrow> (bool \<times> world) option" where
  "legacy_dfu_prepare_idle e w =
     (case legacy_dfu_wait_ready e True w of
        None \<Rightarrow> None
      | Some (ok, w1) \<Rightarrow>
          if \<not> ok then legacy_dfu_wait_ready e True (sleep 5 (dfu_abort e w1))
          else Some (True, w1))"

subsection \<open>The write loop and the run\<close>

text \<open>
  The \<open>while\<close> of lines 583 to 606, with the transfer size of the opened device. The
  chunk is sent as it is in the image, and the block number goes up by one with every
  chunk; it is a \<open>uint16_t\<close>.
\<close>

partial_function (option) legacy_write_loop ::
  "env \<Rightarrow> u8 list \<Rightarrow> u16 \<Rightarrow> nat \<Rightarrow> u16 \<Rightarrow> world \<Rightarrow> (bool \<times> world) option"
where
  "legacy_write_loop e fw transfer written block_number w =
     (if written < length fw then
        (let remaining = length fw - written;
             chunk = unat (word_of_nat (if remaining > unat transfer then unat transfer
                                        else remaining) :: u16)
         in case legacy_dfu_download_block e block_number (take chunk (drop written fw))
                   False w of
              None \<Rightarrow> None
            | Some (ok, w1) \<Rightarrow>
                if \<not> ok then Some (False, w1)
                else
                  (let percent = 6 + int (((written + chunk) * 90) div length fw)
                   in legacy_write_loop e fw transfer (written + chunk) (block_number + 1)
                        (legacy_report_progress e (if percent > 95 then 95 else percent) w1)))
      else Some (True, w))"

declare legacy_write_loop.simps [code]

text \<open>Lines 573 to 616: from the address pointer to \<open>success = true\<close>.\<close>

definition legacy_write_phase :: "env \<Rightarrow> u8 list \<Rightarrow> u16 \<Rightarrow> world \<Rightarrow> (bool \<times> world) option"
where
  "legacy_write_phase e fw transfer w =
     (case legacy_dfu_set_address_pointer e STM32_BASE_ADDRESS
             (legacy_set_status e (msg_set_address STM32_BASE_ADDRESS) w) of
        None \<Rightarrow> None
      | Some (ok, w1) \<Rightarrow>
          if \<not> ok then Some (False, w1)
          else
            (case legacy_write_loop e fw transfer 0 2
                    (legacy_set_status e msg_writing (legacy_report_progress e 6 w1)) of
               None \<Rightarrow> None
             | Some (ok, w2) \<Rightarrow>
                 if \<not> ok then Some (False, w2)
                 else
                   (case legacy_dfu_download_block e 0 [] True w2 of
                      None \<Rightarrow> None
                    | Some (ok, w3) \<Rightarrow>
                        if \<not> ok then Some (False, w3)
                        else Some (True,
                               legacy_set_status e msg_written
                                 (legacy_report_progress e 99 w3)))))"

text \<open>Lines 558 to 616: from \<open>dfu_prepare_idle\<close> to \<open>success = true\<close>, the value of
  \<open>success\<close> at the label \<open>cleanup\<close>.\<close>

definition legacy_flash_device :: "env \<Rightarrow> u8 list \<Rightarrow> u16 \<Rightarrow> world \<Rightarrow> (bool \<times> world) option"
where
  "legacy_flash_device e fw transfer w =
     (case legacy_dfu_prepare_idle e (legacy_set_status e msg_preparing w) of
        None \<Rightarrow> None
      | Some (ok, w1) \<Rightarrow>
          if \<not> ok then Some (False, w1)
          else
            (case legacy_dfu_mass_erase e
                    (legacy_report_progress e 3 (legacy_set_status e msg_erasing w1)) of
               None \<Rightarrow> None
             | Some (ok, w2) \<Rightarrow>
                 if \<not> ok then Some (False, w2)
                 else
                   (case legacy_dfu_prepare_idle e w2 of
                      None \<Rightarrow> None
                    | Some (ok, w3) \<Rightarrow>
                        if \<not> ok then Some (False, w3)
                        else legacy_write_phase e fw transfer w3)))"

text \<open>Lines 618 to 636: from the label \<open>cleanup\<close> to the return.\<close>

definition legacy_flash_cleanup :: "env \<Rightarrow> bool \<Rightarrow> world \<Rightarrow> bool \<times> world" where
  "legacy_flash_cleanup e success w =
     (let w1 = (if success then legacy_report_progress e 100 w else w) in
      (success,
       if \<not> success \<and> status_buf e \<and> status_buf_len e \<noteq> 0 \<and> status_text w1 = []
       then legacy_set_status e msg_unknown_failure w1
       else w1))"

section \<open>Properties of the older loader\<close>

text \<open>\<open>numbered b cs\<close> gives the chunks \<open>cs\<close> the block numbers \<open>b\<close>, \<open>b + 1\<close>, ...;
  \<open>legacy_plan\<close> lists the blocks of a run of the older loader that succeeds, and
  \<open>sends plan ok\<close> says that the blocks sent between two worlds are a prefix of the plan,
  and the whole plan when \<open>ok\<close> holds.\<close>

fun numbered :: "u16 \<Rightarrow> u8 list list \<Rightarrow> (u16 \<times> u8 list) list" where
  "numbered b [] = []"
| "numbered b (c # cs) = (b, c) # numbered (b + 1) cs"

definition legacy_plan :: "u16 \<Rightarrow> u8 list \<Rightarrow> (u16 \<times> u8 list) list" where
  "legacy_plan transfer fw =
     [(0, [0x41, 0xFF, 0xFF]), (0, special_payload 0x21 STM32_BASE_ADDRESS)]
     @ numbered 2 (data_chunks (unat transfer) fw) @ [(0, [])]"

definition sends :: "(u16 \<times> u8 list) list \<Rightarrow> bool \<Rightarrow> world \<Rightarrow> world \<Rightarrow> bool" where
  "sends plan ok w w' =
     (\<exists>k. dnloads (wire w') = dnloads (wire w) @ take k plan \<and> (ok \<longrightarrow> take k plan = plan))"

definition quiet :: "world \<Rightarrow> world \<Rightarrow> bool" where
  "quiet w w' = (dnloads (wire w') = dnloads (wire w))"

lemma quiet_refl: "quiet w w"
  by (simp add: quiet_def)

lemma quiet_trans: "quiet w w1 \<Longrightarrow> quiet w1 w2 \<Longrightarrow> quiet w w2"
  by (simp add: quiet_def)

lemma sends_exact: "dnloads (wire w') = dnloads (wire w) @ plan \<Longrightarrow> sends plan ok w w'"
  unfolding sends_def by (intro exI [of _ "length plan"]) simp

lemma sends_quiet: "quiet w w' \<Longrightarrow> sends [] ok w w'"
  by (simp add: sends_def quiet_def)

lemma sends_then:
  assumes 1: "sends p1 ok1 w w1" and ok1: "ok1" and 2: "sends p2 ok w1 w2"
  shows "sends (p1 @ p2) ok w w2"
proof -
  from 1 ok1 have x1: "dnloads (wire w1) = dnloads (wire w) @ p1"
    unfolding sends_def by auto
  from 2 obtain k where x2: "dnloads (wire w2) = dnloads (wire w1) @ take k p2"
    "ok \<longrightarrow> take k p2 = p2"
    unfolding sends_def by blast
  have "dnloads (wire w2) = dnloads (wire w) @ take (length p1 + k) (p1 @ p2)"
    using x1 x2 by simp
  moreover have "ok \<longrightarrow> take (length p1 + k) (p1 @ p2) = p1 @ p2"
    using x2 by simp
  ultimately show ?thesis
    unfolding sends_def by blast
qed

lemma sends_failed:
  assumes "sends p1 ok w w1"
  shows "sends (p1 @ p2) False w w1"
proof -
  from assms obtain k where x: "dnloads (wire w1) = dnloads (wire w) @ take k p1"
    unfolding sends_def by blast
  have "take k p1 = take (min k (length p1)) (p1 @ p2)"
    by (simp add: min_def)
  with x have "dnloads (wire w1) = dnloads (wire w) @ take (min k (length p1)) (p1 @ p2)
      \<and> (False \<longrightarrow> take (min k (length p1)) (p1 @ p2) = p1 @ p2)"
    by simp
  then show ?thesis
    unfolding sends_def by blast
qed

lemma sends_nothing: "quiet w w' \<Longrightarrow> sends p False w w'"
  using sends_failed [of "[]" True w w' p] sends_quiet [of w w' True] by simp

lemma sends_after: "sends p ok w w1 \<Longrightarrow> quiet w1 w2 \<Longrightarrow> sends p ok w w2"
  by (simp add: sends_def quiet_def)

lemma sends_before: "quiet w w1 \<Longrightarrow> sends p ok w1 w2 \<Longrightarrow> sends p ok w w2"
  by (simp add: sends_def quiet_def)

lemma quiet_legacy_set_status: "quiet w (legacy_set_status e m w)"
  by (simp add: quiet_def legacy_set_status_def)

lemma quiet_legacy_report_progress: "quiet w (legacy_report_progress e p w)"
  by (simp add: quiet_def legacy_report_progress_def)

lemma quiet_did: "dnloads evs = [] \<Longrightarrow> quiet w (did evs w)"
  by (simp add: quiet_def did_def dnloads_append)

lemma get_status_did: "snd (snd (dfu_get_status e w)) = did [Transfer GETSTATUS] w"
  by (simp add: dfu_get_status_def control_transfer_def did_def Let_def)

lemma quiet_get_status: "quiet w (snd (snd (dfu_get_status e w)))"
  unfolding get_status_did by (rule quiet_did) simp

lemma quiet_clear_status: "quiet w (dfu_clear_status e w)"
  by (simp add: quiet_def dfu_clear_status_def control_transfer_def dnloads_append)

lemma quiet_abort: "quiet w (dfu_abort e w)"
  by (simp add: quiet_def dfu_abort_def control_transfer_def dnloads_append)

lemma quiet_sleep: "quiet w (sleep ms w)"
  by (simp add: quiet_def sleep_def dnloads_append)

lemma quiet_legacy_poll: "quiet w (snd (legacy_wait_ready_poll e a w))"
proof -
  obtain r st w1 where g: "dfu_get_status e w = (r, st, w1)"
    by (cases "dfu_get_status e w") auto
  have q1: "quiet w w1"
    using quiet_get_status [of w e] g by simp
  have q2: "\<And>m. quiet w (legacy_set_status e m w1)"
    using q1 quiet_legacy_set_status quiet_trans by blast
  have q3: "\<And>m. quiet w (legacy_set_status e m (dfu_clear_status e w1))"
    using q1 quiet_clear_status quiet_legacy_set_status quiet_trans by blast
  have q4: "\<And>ms. quiet w (sleep ms w1)"
    using q1 quiet_sleep quiet_trans by blast
  show ?thesis
    unfolding legacy_wait_ready_poll_def g using q1 q2 q3 q4 by simp
qed

lemma quiet_legacy_wait_ready_aux:
  assumes "legacy_dfu_wait_ready e a w = Some y"
  shows "quiet w (snd y)"
  using assms
proof (induction e a w y rule: legacy_dfu_wait_ready.raw_induct [rotated, consumes 1])
  case (1 f e a w y)
  obtain r w1 where p: "legacy_wait_ready_poll e a w = (r, w1)"
    by (cases "legacy_wait_ready_poll e a w")
  have q1: "quiet w w1"
    using quiet_legacy_poll [of w e a] p by simp
  show ?case
  proof (cases r)
    case None
    with 1(2) p have "f e a w1 = Some y"
      by simp
    then have "quiet w1 (snd y)"
      by (rule 1(1))
    with q1 show ?thesis
      by (rule quiet_trans)
  next
    case (Some b)
    with 1(2) p have "snd y = w1"
      by auto
    with q1 show ?thesis
      by simp
  qed
qed

lemma quiet_legacy_wait_ready:
  "legacy_dfu_wait_ready e a w = Some (ok, w') \<Longrightarrow> quiet w w'"
  using quiet_legacy_wait_ready_aux [of e a w "(ok, w')"] by simp

lemma quiet_legacy_prepare_idle:
  assumes "legacy_dfu_prepare_idle e w = Some (ok, w')"
  shows "quiet w w'"
proof -
  from assms obtain ok1 w1 where 1: "legacy_dfu_wait_ready e True w = Some (ok1, w1)"
    by (auto simp: legacy_dfu_prepare_idle_def split: option.splits)
  then have q1: "quiet w w1"
    by (rule quiet_legacy_wait_ready)
  show ?thesis
  proof (cases ok1)
    case True
    with assms 1 have "w' = w1"
      by (simp add: legacy_dfu_prepare_idle_def)
    with q1 show ?thesis
      by simp
  next
    case False
    with assms 1 have 2: "legacy_dfu_wait_ready e True (sleep 5 (dfu_abort e w1)) = Some (ok, w')"
      by (simp add: legacy_dfu_prepare_idle_def)
    have "quiet w1 (sleep 5 (dfu_abort e w1))"
      using quiet_abort quiet_sleep quiet_trans by blast
    then have "quiet w1 w'"
      using quiet_legacy_wait_ready [OF 2] quiet_trans by blast
    with q1 show ?thesis
      by (rule quiet_trans)
  qed
qed

lemma legacy_download_block_sends:
  assumes "legacy_dfu_download_block e b p a w = Some (ok, w')"
  shows "dnloads (wire w') = dnloads (wire w) @ [(b, p)]"
proof -
  define w1 where "w1 = did [Transfer (DNLOAD b p)] w"
  have d1: "dnloads (wire w1) = dnloads (wire w) @ [(b, p)]"
    by (simp add: w1_def did_def dnloads_append)
  have ct: "control_transfer e (DNLOAD b p) w = (device e (transfers w) (DNLOAD b p), w1)"
    by (simp add: control_transfer_def w1_def did_def)
  from assms ct have "(\<exists>m. w' = legacy_set_status e m w1)
                      \<or> legacy_dfu_wait_ready e a w1 = Some (ok, w')"
    by (auto simp: legacy_dfu_download_block_def split: if_splits)
  then have "quiet w1 w'"
    using quiet_legacy_set_status quiet_legacy_wait_ready by blast
  with d1 show ?thesis
    by (simp add: quiet_def)
qed

lemma legacy_chunk:
  assumes "written < length fw" and "0 < unat (transfer :: u16)"
  shows "unat (word_of_nat (if length fw - written > unat transfer then unat transfer
                             else length fw - written) :: u16)
         = min (length fw - written) (unat transfer)"
proof -
  have "unat transfer < 65536"
    using unsigned_less [of transfer, where 'a = nat] by simp
  then have "min (length fw - written) (unat transfer) < 65536"
    by simp
  then have "unat (word_of_nat (min (length fw - written) (unat transfer)) :: u16)
             = min (length fw - written) (unat transfer)"
    by (simp add: unat_of_nat take_bit_nat_eq_self)
  moreover have "(if length fw - written > unat transfer then unat transfer
                  else length fw - written) = min (length fw - written) (unat transfer)"
    by (simp add: min_def)
  ultimately show ?thesis
    by simp
qed

lemma legacy_write_loop_sends_aux:
  assumes "legacy_write_loop e fw transfer written b w = Some y"
  shows "0 < unat transfer \<longrightarrow>
         sends (numbered b (data_chunks (unat transfer) (drop written fw))) (fst y) w (snd y)"
  using assms
proof (induction e fw transfer written b w y
       rule: legacy_write_loop.raw_induct [rotated, consumes 1])
  case (1 f e fw transfer written b w y)
  show ?case
  proof
    assume t: "0 < unat transfer"
    show "sends (numbered b (data_chunks (unat transfer) (drop written fw))) (fst y) w (snd y)"
    proof (cases "written < length fw")
      case False
      with 1(2) have "y = (True, w)"
        by simp
      moreover have "drop written fw = []"
        using False by simp
      ultimately show ?thesis
        using sends_quiet [OF quiet_refl] by simp
    next
      case True
      define n where "n = min (length fw - written) (unat transfer)"
      have ch: "unat (word_of_nat (if length fw - written > unat transfer then unat transfer
                             else length fw - written) :: u16) = n"
        unfolding n_def using True t by (rule legacy_chunk)
      have plan: "data_chunks (unat transfer) (drop written fw)
                  = take n (drop written fw) # data_chunks (unat transfer) (drop (written + n) fw)"
        unfolding n_def using t True by (rule data_chunks_step)
      define pc where "pc = (if 6 + int (((written + n) * 90) div length fw) > 95 then 95
                             else 6 + int (((written + n) * 90) div length fw))"
      have body: "(case legacy_dfu_download_block e b (take n (drop written fw)) False w of
                     None \<Rightarrow> None
                   | Some (ok, w1) \<Rightarrow>
                       if \<not> ok then Some (False, w1)
                       else f e fw transfer (written + n) (b + 1)
                              (legacy_report_progress e pc w1)) = Some y"
        using 1(2) unfolding pc_def by (simp only: True if_True Let_def ch)
      then obtain ok1 w1
        where dl: "legacy_dfu_download_block e b (take n (drop written fw)) False w = Some (ok1, w1)"
        by (cases "legacy_dfu_download_block e b (take n (drop written fw)) False w") auto
      have s1: "sends [(b, take n (drop written fw))] ok1 w w1"
        using legacy_download_block_sends [OF dl] by (rule sends_exact)
      show ?thesis
      proof (cases ok1)
        case False
        with body dl have "fst y = False" "snd y = w1"
          by auto
        then show ?thesis
          unfolding plan using sends_failed [OF s1] by simp
      next
        case ok: True
        with body dl
        have r: "f e fw transfer (written + n) (b + 1) (legacy_report_progress e pc w1) = Some y"
          by simp
        have "sends (numbered (b + 1) (data_chunks (unat transfer) (drop (written + n) fw)))
                (fst y) (legacy_report_progress e pc w1) (snd y)"
          using 1(1) [OF r] t by blast
        then have "sends (numbered (b + 1) (data_chunks (unat transfer) (drop (written + n) fw)))
                (fst y) w1 (snd y)"
          by (rule sends_before [OF quiet_legacy_report_progress])
        with s1 ok have "sends ([(b, take n (drop written fw))]
                @ numbered (b + 1) (data_chunks (unat transfer) (drop (written + n) fw)))
                (fst y) w (snd y)"
          by (rule sends_then)
        then show ?thesis
          unfolding plan by simp
      qed
    qed
  qed
qed

lemma legacy_write_loop_sends:
  "legacy_write_loop e fw transfer 0 b w = Some (ok, w') \<Longrightarrow> transfer \<noteq> 0 \<Longrightarrow>
   sends (numbered b (data_chunks (unat transfer) fw)) ok w w'"
  using legacy_write_loop_sends_aux [of e fw transfer 0 b w "(ok, w')"]
  by (simp add: unat_gt_0)

lemma legacy_set_address_pointer_sends:
  assumes "legacy_dfu_set_address_pointer e a w = Some (ok, w')"
  shows "dnloads (wire w') = dnloads (wire w) @ [(0, special_payload 0x21 a)]"
  using legacy_download_block_sends [of e 0 "special_payload 0x21 a" False w ok w'] assms
  by (simp add: legacy_dfu_set_address_pointer_def special_payload_def)

lemma legacy_mass_erase_sends:
  assumes "legacy_dfu_mass_erase e w = Some (ok, w')"
  shows "dnloads (wire w') = dnloads (wire w) @ [(0, [0x41, 0xFF, 0xFF])]"
  using legacy_download_block_sends [of e 0 "[0x41, 0xFF, 0xFF]" False w ok w'] assms
  by (simp add: legacy_dfu_mass_erase_def)

definition legacy_write_plan :: "u16 \<Rightarrow> u8 list \<Rightarrow> (u16 \<times> u8 list) list" where
  "legacy_write_plan transfer fw =
     [(0, special_payload 0x21 STM32_BASE_ADDRESS)]
     @ numbered 2 (data_chunks (unat transfer) fw) @ [(0, [])]"

lemma legacy_write_phase_sends:
  assumes r: "legacy_write_phase e fw transfer w = Some (ok, w')" and t: "transfer \<noteq> 0"
  shows "sends (legacy_write_plan transfer fw) ok w w'"
proof -
  let ?sap = "(0, special_payload 0x21 STM32_BASE_ADDRESS) :: u16 \<times> u8 list"
  let ?data = "numbered 2 (data_chunks (unat transfer) fw)"
  have plan: "legacy_write_plan transfer fw = ([?sap] @ ?data) @ [(0, [])]"
    by (simp add: legacy_write_plan_def)
  define v0 where "v0 = legacy_set_status e (msg_set_address STM32_BASE_ADDRESS) w"
  from r obtain ok1 w1
    where a: "legacy_dfu_set_address_pointer e STM32_BASE_ADDRESS v0 = Some (ok1, w1)"
    by (cases "legacy_dfu_set_address_pointer e STM32_BASE_ADDRESS v0")
       (auto simp: legacy_write_phase_def v0_def)
  have "sends [?sap] ok1 v0 w1"
    using legacy_set_address_pointer_sends [OF a] by (rule sends_exact)
  then have s1: "sends [?sap] ok1 w w1"
    unfolding v0_def by (rule sends_before [OF quiet_legacy_set_status])
  show ?thesis
  proof (cases ok1)
    case False
    with r a have "ok = False" "w' = w1"
      by (simp_all add: legacy_write_phase_def v0_def)
    then show ?thesis
      unfolding legacy_write_plan_def using sends_failed [OF s1, of "?data @ [(0, [])]"] by simp
  next
    case ok1: True
    define v1 where "v1 = legacy_set_status e msg_writing (legacy_report_progress e 6 w1)"
    have qv1: "quiet w1 v1"
      unfolding v1_def
      using quiet_legacy_set_status quiet_legacy_report_progress quiet_trans by blast
    from r a ok1 obtain ok2 w2
      where l: "legacy_write_loop e fw transfer 0 2 v1 = Some (ok2, w2)"
      by (cases "legacy_write_loop e fw transfer 0 2 v1")
         (auto simp: legacy_write_phase_def v0_def v1_def)
    have "sends ?data ok2 v1 w2"
      using l t by (rule legacy_write_loop_sends)
    with qv1 have "sends ?data ok2 w1 w2"
      by (rule sends_before)
    with s1 ok1 have s2: "sends ([?sap] @ ?data) ok2 w w2"
      by (rule sends_then)
    show ?thesis
    proof (cases ok2)
      case False
      with r a ok1 l have "ok = False" "w' = w2"
        by (simp_all add: legacy_write_phase_def v0_def v1_def)
      then show ?thesis
        unfolding plan using sends_failed [OF s2, of "[(0, [])]"] by simp
    next
      case ok2: True
      from r a ok1 l ok2 obtain ok3 w3
        where f: "legacy_dfu_download_block e 0 [] True w2 = Some (ok3, w3)"
        by (cases "legacy_dfu_download_block e 0 [] True w2")
           (auto simp: legacy_write_phase_def v0_def v1_def)
      have "sends [(0, [])] ok3 w2 w3"
        using legacy_download_block_sends [OF f] by (rule sends_exact)
      with s2 ok2 have s3: "sends (([?sap] @ ?data) @ [(0, [])]) ok3 w w3"
        by (rule sends_then)
      show ?thesis
      proof (cases ok3)
        case False
        with r a ok1 l ok2 f have "ok = False" "w' = w3"
          by (simp_all add: legacy_write_phase_def v0_def v1_def)
        with s3 False show ?thesis
          unfolding plan by simp
      next
        case True
        with r a ok1 l ok2 f have "ok = True"
          and w': "w' = legacy_set_status e msg_written (legacy_report_progress e 99 w3)"
          by (simp_all add: legacy_write_phase_def v0_def v1_def)
        have "quiet w3 w'"
          unfolding w'
          using quiet_legacy_set_status quiet_legacy_report_progress quiet_trans by blast
        with s3 have "sends (([?sap] @ ?data) @ [(0, [])]) ok3 w w'"
          by (rule sends_after)
        with True \<open>ok = True\<close> show ?thesis
          unfolding plan by simp
      qed
    qed
  qed
qed

lemma legacy_plan_split:
  "legacy_plan transfer fw = [(0, [0x41, 0xFF, 0xFF])] @ legacy_write_plan transfer fw"
  by (simp add: legacy_plan_def legacy_write_plan_def)

lemma legacy_flash_device_sends:
  assumes r: "legacy_flash_device e fw transfer w = Some (ok, w')" and t: "transfer \<noteq> 0"
  shows "sends (legacy_plan transfer fw) ok w w'"
proof -
  let ?me = "(0, [0x41, 0xFF, 0xFF]) :: u16 \<times> u8 list"
  define w0 where "w0 = legacy_set_status e msg_preparing w"
  have q0: "quiet w w0"
    unfolding w0_def by (rule quiet_legacy_set_status)
  from r obtain ok1 w1 where p1: "legacy_dfu_prepare_idle e w0 = Some (ok1, w1)"
    by (cases "legacy_dfu_prepare_idle e w0") (auto simp: legacy_flash_device_def w0_def)
  have q1: "quiet w w1"
    using q0 quiet_legacy_prepare_idle [OF p1] by (rule quiet_trans)
  show ?thesis
  proof (cases ok1)
    case False
    with r p1 have "ok = False" "w' = w1"
      by (simp_all add: legacy_flash_device_def w0_def)
    with q1 show ?thesis
      using sends_nothing by simp
  next
    case ok1: True
    define v1 where "v1 = legacy_report_progress e 3 (legacy_set_status e msg_erasing w1)"
    have qv1: "quiet w v1"
      unfolding v1_def
      using q1 quiet_legacy_set_status quiet_legacy_report_progress quiet_trans by blast
    from r p1 ok1 obtain ok2 w2 where m: "legacy_dfu_mass_erase e v1 = Some (ok2, w2)"
      by (cases "legacy_dfu_mass_erase e v1") (auto simp: legacy_flash_device_def w0_def v1_def)
    have "sends [?me] ok2 v1 w2"
      using legacy_mass_erase_sends [OF m] by (rule sends_exact)
    with qv1 have s2: "sends [?me] ok2 w w2"
      by (rule sends_before)
    show ?thesis
    proof (cases ok2)
      case False
      with r p1 ok1 m have "ok = False" "w' = w2"
        by (simp_all add: legacy_flash_device_def w0_def v1_def)
      then show ?thesis
        unfolding legacy_plan_split using sends_failed [OF s2] by simp
    next
      case ok2: True
      from r p1 ok1 m ok2 obtain ok3 w3 where p3: "legacy_dfu_prepare_idle e w2 = Some (ok3, w3)"
        by (cases "legacy_dfu_prepare_idle e w2")
           (auto simp: legacy_flash_device_def w0_def v1_def)
      have s3: "sends [?me] ok2 w w3"
        using s2 quiet_legacy_prepare_idle [OF p3] by (rule sends_after)
      show ?thesis
      proof (cases ok3)
        case False
        with r p1 ok1 m ok2 p3 have "ok = False" "w' = w3"
          by (simp_all add: legacy_flash_device_def w0_def v1_def)
        then show ?thesis
          unfolding legacy_plan_split using sends_failed [OF s3] by simp
      next
        case ok3: True
        with r p1 ok1 m ok2 p3 have "legacy_write_phase e fw transfer w3 = Some (ok, w')"
          by (simp add: legacy_flash_device_def w0_def v1_def)
        then have "sends (legacy_write_plan transfer fw) ok w3 w'"
          using t by (rule legacy_write_phase_sends)
        with s3 ok2 show ?thesis
          unfolding legacy_plan_split by (rule sends_then)
      qed
    qed
  qed
qed

subsection \<open>A run of the older loader\<close>

lemma legacy_poll_ready:
  "ready_device e \<Longrightarrow>
   legacy_wait_ready_poll e a w = (Some True, did [Transfer GETSTATUS] w)"
  by (simp add: legacy_wait_ready_poll_def dfu_get_status_def control_transfer_def Let_def
      ready_device_def did_def LIBUSB_ERROR_NO_DEVICE_def LIBUSB_SUCCESS_def
      DFU_STATE_dfuIDLE_def DFU_STATE_dfuDNLOAD_IDLE_def)

lemma ready_legacy_wait_ready:
  "ready_device e \<Longrightarrow> legacy_dfu_wait_ready e a w = Some (True, did [Transfer GETSTATUS] w)"
  by (subst legacy_dfu_wait_ready.simps) (simp add: legacy_poll_ready)

lemma ready_legacy_download_block:
  "ready_device e \<Longrightarrow>
   legacy_dfu_download_block e b p a w
   = Some (True, did [Transfer (DNLOAD b p), Transfer GETSTATUS] w)"
  by (simp add: legacy_dfu_download_block_def control_transfer_def ready_legacy_wait_ready)
     (simp add: ready_device_def did_def)

lemma ready_legacy_prepare_idle:
  "ready_device e \<Longrightarrow> legacy_dfu_prepare_idle e w = Some (True, did [Transfer GETSTATUS] w)"
  by (simp add: legacy_dfu_prepare_idle_def ready_legacy_wait_ready)

lemmas legacy_ready0 = ready_legacy_wait_ready [OF ready_env0]
  ready_legacy_download_block [OF ready_env0] ready_legacy_prepare_idle [OF ready_env0]

lemma legacy_run3:
  "legacy_flash_device (env0 [] xfer2 [1, 2, 3]) [1, 2, 3] 2 world0 =
   Some (True,
     \<lparr>transfers = 12,
      wire =
        [Transfer GETSTATUS, Transfer (DNLOAD 0 [0x41, 0xFF, 0xFF]),
         Transfer GETSTATUS, Transfer GETSTATUS,
         Transfer (DNLOAD 0 [0x21, 0, 0, 0, 8]), Transfer GETSTATUS,
         Transfer (DNLOAD 2 [1, 2]), Transfer GETSTATUS,
         Transfer (DNLOAD 3 [3]), Transfer GETSTATUS,
         Transfer (DNLOAD 0 []), Transfer GETSTATUS],
      status_text = msg_written, status_log = [], progress_log = [3, 6, 66, 95, 99]\<rparr>)"
  by (simp add: legacy_flash_device_def legacy_write_phase_def legacy_write_loop.simps
      legacy_dfu_mass_erase_def legacy_dfu_set_address_pointer_def legacy_ready0
      legacy_set_status_def legacy_report_progress_def env0_fields did_def world0_def
      truncate_to_def STM32_BASE_ADDRESS_def Let_def msg_written_def)

lemma numbered_block_numbers:
  "map fst (numbered b cs) = map (\<lambda>i. b + word_of_nat i) [0..<length cs]"
proof (induction cs arbitrary: b)
  case Nil
  then show ?case
    by simp
next
  case (Cons c cs)
  have "[0..<length (c # cs)] = 0 # map Suc [0..<length cs]"
    by (simp add: upt_conv_Cons map_Suc_upt del: upt_Suc)
  then show ?case
    using Cons [of "b + 1"] by (simp add: comp_def add.assoc add.commute)
qed

lemma block_ok_run_plan: "list_all block_ok (run_plan dev fw)"
proof -
  have "list_all block_ok (chunk_plan dev fw written)" for written
  proof (induction dev fw written rule: chunk_plan.induct)
    case (1 dev fw written)
    show ?case
    proof (cases "written < length fw \<and> \<not> (layout_valid dev \<and> segment_at dev written = None)
         \<and> 0 < chunk_len dev fw written")
      case True
      then show ?thesis
        using 1 block_ok_chunk_cmds [of 2 dev fw written]
        by (subst chunk_plan.simps) (simp add: chunk_cmds_def)
    next
      case False
      then show ?thesis
        by (subst chunk_plan.simps) auto
    qed
  qed
  then show ?thesis
    by (simp add: run_plan_def write_phase_plan_def block_ok_def is_vendor_command_def
        special_payload_def)
qed

lemma block_ok_from_plan:
  assumes "without_erases X = take k plan" and "list_all block_ok plan"
  shows "list_all block_ok X"
proof -
  have "\<And>x. x \<in> set X \<Longrightarrow> block_ok x"
  proof -
    fix x
    assume x: "x \<in> set X"
    show "block_ok x"
    proof (cases "is_erase_page x")
      case True
      then show ?thesis
        by (cases "snd x") (auto simp: is_erase_page_def block_ok_def is_vendor_command_def)
    next
      case False
      with x have "x \<in> set (without_erases X)"
        by (simp add: without_erases_def)
      then have "x \<in> set plan"
        unfolding assms(1) by (rule in_set_takeD)
      with assms(2) show ?thesis
        by (simp add: list_all_iff)
    qed
  qed
  then show ?thesis
    by (simp add: list_all_iff)
qed

section \<open>The block numbers of the two loaders\<close>

lemma discovered2:
  "fst (wait_for_stm32_dfu_device (env0 [] xfer2 fw) 10000 w0) = Some dev2"
  unfolding wait_for_device_fst xfer2_def dev2_def by (simp add: discovery0)

lemma run_plan2:
  "run_plan dev2 [1, 2, 3]
   = [(0, [0x41]), (0, [0x21, 0, 0, 0, 8]),
      (0, [0x21, 0, 0, 0, 8]), (2, [1, 2]),
      (0, [0x21, 2, 0, 0, 8]), (2, [3, 0xFF]),
      (2, [])]"
  by (simp add: run_plan_def write_phase_plan_def chunk_plan.simps chunk_cmds_def chunk_len_def
      chunk_size_of_def segment_at_def chunk_payload_def chunk_address_def dev2_def
      zero_device_def special_payload_def STM32_BASE_ADDRESS_def Let_def)

lemma legacy_plan2:
  "legacy_plan 2 [1, 2, 3]
   = [(0, [0x41, 0xFF, 0xFF]), (0, [0x21, 0, 0, 0, 8]), (2, [1, 2]), (3, [3]), (0, [])]"
  by (simp add: legacy_plan_def data_chunks.simps special_payload_def STM32_BASE_ADDRESS_def)

text \<open>
  C4, as the two loaders have it. In a run of the layout-aware loader that returns, every block
  sent has block number 0 and carries a vendor command (first byte \<open>0x21\<close> or \<open>0x41\<close>), or
  has block number 2. With the session that discovery opens, the blocks sent, the erase-page
  commands left out, are a prefix of \<open>run_plan\<close>, and all of it when the run succeeds: the
  mass erase when the layout is unknown, the address pointer of the base address, then for
  every chunk the address pointer of its address with block number 0 and the data block with
  block number 2, and the final empty block with block number 2. When discovery opens no
  session, nothing is sent. In a run of the older loader with a transfer size that is not
  zero, the blocks sent are a prefix of \<open>legacy_plan\<close>, and all of it when the run succeeds:
  the mass erase and the address pointer with block number 0, the chunks of the image with
  the block numbers 2, 3, ... in the 16 bits of the field, and the final empty block with
  block number 0.
\<close>

theorem block_numbers_of_both_loaders:
  "(dfu_loader_flash e w = Some (ok, w') \<longrightarrow>
      (\<exists>X. dnloads (wire w') = dnloads (wire w) @ X
         \<and> list_all block_ok X
         \<and> (\<forall>dev w0. fst (wait_for_stm32_dfu_device e 10000 w0) = Some dev \<longrightarrow>
              (\<exists>k. without_erases X = take k (run_plan dev (read_bytes (firmware e))))
              \<and> (ok \<longrightarrow> without_erases X = run_plan dev (read_bytes (firmware e))))
         \<and> ((\<exists>w0. fst (wait_for_stm32_dfu_device e 10000 w0) = None) \<longrightarrow> X = [] \<and> \<not> ok)))
   \<and> (legacy_flash_device e fw transfer w = Some (ok, w') \<and> transfer \<noteq> 0 \<longrightarrow>
      (\<exists>k. dnloads (wire w') = dnloads (wire w) @ take k (legacy_plan transfer fw))
      \<and> (ok \<longrightarrow> dnloads (wire w') = dnloads (wire w) @ legacy_plan transfer fw))
   \<and> map fst (numbered 2 cs) = map (\<lambda>i. 2 + word_of_nat i) [0..<length cs]"
proof -
  have 1: "dfu_loader_flash e w = Some (ok, w') \<longrightarrow>
      (\<exists>X. dnloads (wire w') = dnloads (wire w) @ X
         \<and> list_all block_ok X
         \<and> (\<forall>dev w0. fst (wait_for_stm32_dfu_device e 10000 w0) = Some dev \<longrightarrow>
              (\<exists>k. without_erases X = take k (run_plan dev (read_bytes (firmware e))))
              \<and> (ok \<longrightarrow> without_erases X = run_plan dev (read_bytes (firmware e))))
         \<and> ((\<exists>w0. fst (wait_for_stm32_dfu_device e 10000 w0) = None) \<longrightarrow> X = [] \<and> \<not> ok))"
  proof
    assume r: "dfu_loader_flash e w = Some (ok, w')"
    from dfu_loader_flash_phase [OF r] obtain X
      where x: "dnloads (wire w') = dnloads (wire w) @ X" "list_all block_ok X"
      by blast
    have a: "\<forall>dev w0. fst (wait_for_stm32_dfu_device e 10000 w0) = Some dev \<longrightarrow>
              (\<exists>k. without_erases X = take k (run_plan dev (read_bytes (firmware e))))
              \<and> (ok \<longrightarrow> without_erases X = run_plan dev (read_bytes (firmware e)))"
    proof (intro allI impI)
      fix dev w0
      assume d: "fst (wait_for_stm32_dfu_device e 10000 w0) = Some dev"
      from dfu_loader_flash_follows [OF r d] obtain Y k
        where y: "dnloads (wire w') = dnloads (wire w) @ Y"
          "without_erases Y = take k (run_plan dev (read_bytes (firmware e)))"
          "ok \<longrightarrow> without_erases Y = run_plan dev (read_bytes (firmware e))"
        unfolding follows_def by blast
      from x(1) y(1) have "Y = X"
        by simp
      with y show "(\<exists>k. without_erases X = take k (run_plan dev (read_bytes (firmware e))))
              \<and> (ok \<longrightarrow> without_erases X = run_plan dev (read_bytes (firmware e)))"
        by blast
    qed
    have b: "(\<exists>w0. fst (wait_for_stm32_dfu_device e 10000 w0) = None) \<longrightarrow> X = [] \<and> \<not> ok"
    proof
      assume "\<exists>w0. fst (wait_for_stm32_dfu_device e 10000 w0) = None"
      then obtain w0 where "fst (wait_for_stm32_dfu_device e 10000 w0) = None"
        by blast
      from dfu_loader_flash_no_device [OF r this] x(1) show "X = [] \<and> \<not> ok"
        by simp
    qed
    from x a b show "\<exists>X. dnloads (wire w') = dnloads (wire w) @ X
         \<and> list_all block_ok X
         \<and> (\<forall>dev w0. fst (wait_for_stm32_dfu_device e 10000 w0) = Some dev \<longrightarrow>
              (\<exists>k. without_erases X = take k (run_plan dev (read_bytes (firmware e))))
              \<and> (ok \<longrightarrow> without_erases X = run_plan dev (read_bytes (firmware e))))
         \<and> ((\<exists>w0. fst (wait_for_stm32_dfu_device e 10000 w0) = None) \<longrightarrow> X = [] \<and> \<not> ok)"
      by (intro exI [of _ X] conjI)
  qed
  have 2: "legacy_flash_device e fw transfer w = Some (ok, w') \<and> transfer \<noteq> 0 \<longrightarrow>
      (\<exists>k. dnloads (wire w') = dnloads (wire w) @ take k (legacy_plan transfer fw))
      \<and> (ok \<longrightarrow> dnloads (wire w') = dnloads (wire w) @ legacy_plan transfer fw)"
  proof
    assume "legacy_flash_device e fw transfer w = Some (ok, w') \<and> transfer \<noteq> 0"
    then have "sends (legacy_plan transfer fw) ok w w'"
      using legacy_flash_device_sends by blast
    then show "(\<exists>k. dnloads (wire w') = dnloads (wire w) @ take k (legacy_plan transfer fw))
      \<and> (ok \<longrightarrow> dnloads (wire w') = dnloads (wire w) @ legacy_plan transfer fw)"
      unfolding sends_def by auto
  qed
  have 3: "map fst (numbered 2 cs) = map (\<lambda>i. 2 + word_of_nat i) [0..<length cs]"
    by (rule numbered_block_numbers)
  from 1 2 3 show ?thesis
    by (intro conjI)
qed

text \<open>
  C4 on runs of three bytes in blocks of two, one of each loader.
\<close>

theorem block_numbers_of_both_loaders_witness:
  "(\<exists>w'. dfu_loader_flash (env0 [] xfer2 [1, 2, 3]) world0 = Some (True, w')
       \<and> fst (wait_for_stm32_dfu_device (env0 [] xfer2 [1, 2, 3]) 10000 world0) = Some dev2
       \<and> (\<exists>X. dnloads (wire w') = X \<and> list_all block_ok X
             \<and> without_erases X
                = [(0, [0x41]), (0, [0x21, 0, 0, 0, 8]),
                   (0, [0x21, 0, 0, 0, 8]), (2, [1, 2]),
                   (0, [0x21, 2, 0, 0, 8]), (2, [3, 0xFF]),
                   (2, [])]))
   \<and> (\<exists>w'. legacy_flash_device (env0 [] xfer2 [1, 2, 3]) [1, 2, 3] 2 world0 = Some (True, w')
       \<and> dnloads (wire w')
          = [(0, [0x41, 0xFF, 0xFF]), (0, [0x21, 0, 0, 0, 8]), (2, [1, 2]), (3, [3]), (0, [])])
   \<and> map fst (numbered 2 [[1, 2], [3]]) = [2, 3]"
proof -
  obtain w' where r: "dfu_loader_flash (env0 [] xfer2 [1, 2, 3]) world0 = Some (True, w')"
    using run3 by blast
  obtain v' where l: "legacy_flash_device (env0 [] xfer2 [1, 2, 3]) [1, 2, 3] 2 world0
                      = Some (True, v')"
    using legacy_run3 by blast
  note t = block_numbers_of_both_loaders [of "env0 [] xfer2 [1, 2, 3]" world0 True _
      "[1, 2, 3]" 2 "[[1, 2], [3]]"]
  have d: "fst (wait_for_stm32_dfu_device (env0 [] xfer2 [1, 2, 3]) 10000 world0) = Some dev2"
    by (rule discovered2)
  have f: "read_bytes (firmware (env0 [] xfer2 [1, 2, 3])) = [1, 2, 3]"
    by (simp add: env0_fields)
  from t [of w'] r d obtain X where "dnloads (wire w') = dnloads (wire world0) @ X"
    "list_all block_ok X" "without_erases X = run_plan dev2 [1, 2, 3]"
    unfolding f by blast
  then have a: "\<exists>X. dnloads (wire w') = X \<and> list_all block_ok X
             \<and> without_erases X
                = [(0, [0x41]), (0, [0x21, 0, 0, 0, 8]),
                   (0, [0x21, 0, 0, 0, 8]), (2, [1, 2]),
                   (0, [0x21, 2, 0, 0, 8]), (2, [3, 0xFF]),
                   (2, [])]"
    by (simp add: world0_fields run_plan2)
  from t [of v'] l have "dnloads (wire v') = dnloads (wire world0) @ legacy_plan 2 [1, 2, 3]"
    by simp
  then have b: "dnloads (wire v')
          = [(0, [0x41, 0xFF, 0xFF]), (0, [0x21, 0, 0, 0, 8]), (2, [1, 2]), (3, [3]), (0, [])]"
    by (simp add: world0_fields legacy_plan2)
  have c: "map fst (numbered 2 [[1, 2], [3]]) = [2, 3]"
    by simp
  from r d a l b c show ?thesis
    by blast
qed

text \<open>
  C4 as stated fails on both loaders. In a run of the layout-aware loader of three bytes in
  blocks of two, the second data block has block number 2, as the first has, and not 3. In
  the same run of the older loader the final empty block, which is no vendor command, has
  block number 0.
\<close>

theorem second_chunk_block_number_counterexample:
  "(\<exists>w'. dfu_loader_flash (env0 [] xfer2 [1, 2, 3]) world0 = Some (True, w')
     \<and> dnloads (wire w')
         = [(0, [0x41]), (0, [0x21, 0, 0, 0, 8]),
            (0, [0x21, 0, 0, 0, 8]), (2, [1, 2]),
            (0, [0x21, 2, 0, 0, 8]), (2, [3, 0xFF]),
            (2, [])])
   \<and> (\<exists>w'. legacy_flash_device (env0 [] xfer2 [1, 2, 3]) [1, 2, 3] 2 world0 = Some (True, w')
     \<and> dnloads (wire w')
         = [(0, [0x41, 0xFF, 0xFF]), (0, [0x21, 0, 0, 0, 8]), (2, [1, 2]), (3, [3]), (0, [])])"
  unfolding run3 legacy_run3 by simp

end
